(* ===== verification/Prelude.thy ===== *)
theory Prelude
  imports Main "HOL-Library.Word" "HOL-Library.Sublist" "HOL-Library.List_Lexorder"
    "HOL-Library.Char_ord"
begin

text \<open>
  Shared vocabulary of the development: machine integer types, results of fallible code,
  the parts of the C++ standard library the sources use (substring search, decimal
  conversion, \<open>std::from_chars\<close>), and the generic lemmas about them.
\<close>

unbundle bit_operations_syntax

section \<open>Machine integers\<close>

type_synonym u8 = "8 word"
type_synonym u16 = "16 word"
type_synonym u32 = "32 word"
type_synonym u64 = "64 word"
type_synonym bytes = "u8 list"

section \<open>Results of fallible code\<close>

text \<open>
  \<open>check\<close> and \<open>abortMessage\<close> (libraries/psibase/common/include/psibase/check.hpp) end the
  computation with a message; \<open>Consensus_Failure\<close> is the exception of that name thrown by
  \<open>ForkDb\<close>; \<open>Undefined\<close> marks a step with undefined behaviour in C++, such as an access
  outside an array, so that a theorem that a function never fails also excludes it.
\<close>

datatype failure = Abort string | Runtime_Error string | Consensus_Failure | Undefined

datatype 'a result = Ok 'a | Err failure

primrec bind_result :: "'a result \<Rightarrow> ('a \<Rightarrow> 'b result) \<Rightarrow> 'b result" where
  "bind_result (Ok x) f = f x"
| "bind_result (Err e) f = Err e"

definition check :: "bool \<Rightarrow> string \<Rightarrow> unit result" where
  "check cond msg = (if cond then Ok () else Err (Abort msg))"

primrec is_ok :: "'a result \<Rightarrow> bool" where
  "is_ok (Ok _) = True"
| "is_ok (Err _) = False"

named_theorems result_simps \<open>how results and checks compose\<close>

lemma bind_result_eq_Ok [result_simps]:
  "bind_result m f = Ok y \<longleftrightarrow> (\<exists>x. m = Ok x \<and> f x = Ok y)"
  by (cases m) auto

lemma check_eq_Ok [result_simps]: "check c msg = Ok u \<longleftrightarrow> c"
  by (simp add: check_def)

lemma check_eq_Err [result_simps]: "check c msg = Err e \<longleftrightarrow> \<not> c \<and> e = Abort msg"
  by (auto simp: check_def)

lemma bind_check [result_simps]:
  "bind_result (check c msg) f = (if c then f () else Err (Abort msg))"
  by (simp add: check_def)

lemma is_ok_iff: "is_ok r \<longleftrightarrow> (\<exists>x. r = Ok x)"
  by (cases r) auto

section \<open>Strings\<close>

text \<open>\<open>std::string_view::find\<close> of a substring: the first position where it occurs.\<close>

primrec find_sub :: "string \<Rightarrow> string \<Rightarrow> nat option" where
  "find_sub pat [] = (if pat = [] then Some 0 else None)"
| "find_sub pat (c # cs) =
     (if prefix pat (c # cs) then Some 0 else map_option Suc (find_sub pat cs))"

lemma find_sub_None_append:
  "CHR ''+'' \<notin> set s \<Longrightarrow> find_sub ''+'' s = None"
  by (induction s) auto

lemma find_sub_append:
  "CHR ''+'' \<notin> set s \<Longrightarrow> find_sub ''+'' (s @ CHR ''+'' # t) = Some (length s)"
  by (induction s) auto

text \<open>Decimal digits and \<open>std::to_string\<close> of an unsigned value.\<close>

definition digit_char :: "nat \<Rightarrow> char" where
  "digit_char d = char_of (48 + d)"

fun dec_str :: "nat \<Rightarrow> string" where
  "dec_str n = (if n < 10 then [digit_char n] else dec_str (n div 10) @ [digit_char (n mod 10)])"

declare dec_str.simps [simp del]

definition is_digit :: "char \<Rightarrow> bool" where
  "is_digit c \<longleftrightarrow> 48 \<le> (of_char c :: nat) \<and> (of_char c :: nat) \<le> 57"

definition digit_val :: "char \<Rightarrow> nat" where
  "digit_val c = of_char c - 48"

lemma of_char_digit_char [simp]: "d < 10 \<Longrightarrow> (of_char (digit_char d) :: nat) = 48 + d"
  by (simp add: digit_char_def)

lemma is_digit_digit_char [simp]: "d < 10 \<Longrightarrow> is_digit (digit_char d)"
  by (simp add: is_digit_def)

lemma digit_val_digit_char [simp]: "d < 10 \<Longrightarrow> digit_val (digit_char d) = d"
  by (simp add: digit_val_def)

lemma dec_str_not_Nil [simp]: "dec_str n \<noteq> []"
  by (subst dec_str.simps) simp

lemma dec_str_digits: "\<forall>c \<in> set (dec_str n). is_digit c"
proof (induction n rule: dec_str.induct)
  case (1 n)
  then show ?case by (subst dec_str.simps) auto
qed

text \<open>The value of a digit string, most significant digit first.\<close>

definition dec_val :: "string \<Rightarrow> nat" where
  "dec_val s = foldl (\<lambda>v c. v * 10 + digit_val c) 0 s"

lemma dec_val_snoc [simp]: "dec_val (s @ [c]) = dec_val s * 10 + digit_val c"
  by (simp add: dec_val_def)

lemma dec_val_dec_str [simp]: "dec_val (dec_str n) = n"
proof (induction n rule: dec_str.induct)
  case (1 n)
  show ?case
  proof (cases "n < 10")
    case True
    then show ?thesis by (simp add: dec_str.simps [of n] dec_val_def)
  next
    case False
    with 1 have "dec_val (dec_str (n div 10)) = n div 10" by simp
    with False show ?thesis by (simp add: dec_str.simps [of n])
  qed
qed

end
