(* ===== verification/Name_Encoder.thy ===== *)
theory Name_Encoder
  imports Prelude
begin

text \<open>
  The generic name encoder of libraries/psibase/common/include/psibase/NameEncoder.hpp,
  instantiated at the type \<open>std::uint64_t\<close> its clients use, and the proof that it computes
  the number of valid names below a name.
\<close>

section \<open>The encoder as the code has it\<close>

record name_count =
  withSep :: u64
  withoutSep :: u64

record name_encoder =
  numRegularChars :: u64
  tailCounts :: "name_count list"

primrec tail_count :: "u64 \<Rightarrow> nat \<Rightarrow> name_count" where
  "tail_count c 0 = \<lparr>withSep = 1, withoutSep = 0\<rparr>"
| "tail_count c (Suc i) =
     (let p = tail_count c i; wo = c * withSep p
      in \<lparr>withSep = withoutSep p + wo + 1, withoutSep = wo\<rparr>)"

definition mk_encoder :: "nat \<Rightarrow> u64 \<Rightarrow> name_encoder" where
  "mk_encoder N c = \<lparr>numRegularChars = c, tailCounts = map (tail_count c) [0..<N]\<rparr>"

text \<open>\<open>max()\<close> reads \<open>tailCounts[N - 1]\<close>, the last element of the array.\<close>

definition encoder_max :: "name_encoder \<Rightarrow> u64" where
  "encoder_max e = numRegularChars e * withSep (last (tailCounts e))"

fun encode_loop :: "name_encoder \<Rightarrow> u64 \<Rightarrow> u64 list \<Rightarrow> u64 \<Rightarrow> nat \<Rightarrow> bool \<Rightarrow> bool \<Rightarrow> u64" where
  "encode_loop e sepIdx [] result maxlen allowsSep allowsEnd =
     (if \<not> allowsEnd then -1 else result)"
| "encode_loop e sepIdx (idx # rng) result maxlen allowsSep allowsEnd =
     (if maxlen = 0 \<or> idx \<ge> numRegularChars e + 1 \<or> (idx = sepIdx \<and> \<not> allowsSep) then -1
      else
        let tail = tailCounts e ! (maxlen - 1);
            result1 = (if allowsEnd then result + 1 else result);
            result2 = (if idx \<le> sepIdx then result1 + idx * withSep tail
                       else result1 + (idx - 1) * withSep tail
                            + (if allowsSep then withoutSep tail else 0));
            allows = (idx \<noteq> sepIdx)
        in encode_loop e sepIdx rng result2 (maxlen - 1) allows allows)"

definition encode :: "name_encoder \<Rightarrow> u64 list \<Rightarrow> u64 \<Rightarrow> u64" where
  "encode e rng sepIdx = encode_loop e sepIdx rng 0 (length (tailCounts e)) False True"

text \<open>
  The decoding loop stops when the value is used up; with \<open>maxlen = 0\<close> the next iteration
  would read \<open>tailCounts[-1]\<close>, which is undefined and modelled as \<open>None\<close>.
\<close>

fun decode_loop :: "name_encoder \<Rightarrow> u64 \<Rightarrow> nat \<Rightarrow> u64 \<Rightarrow> bool \<Rightarrow> bool \<Rightarrow> u64 list option" where
  "decode_loop e sepIdx maxlen value allowsSep allowsEnd =
     (if value = 0 \<and> allowsEnd then Some []
      else case maxlen of
        0 \<Rightarrow> None
      | Suc m \<Rightarrow>
        let value1 = (if allowsEnd then value - 1 else value);
            tail = withSep (tailCounts e ! m);
            tailSep = withoutSep (tailCounts e ! m);
            skip = (if allowsSep then value1 \<ge> tail * sepIdx + tailSep else value1 \<ge> tail * sepIdx);
            value2 = (if skip \<and> allowsSep then value1 - tailSep else value1);
            idx = (if skip then 1 else 0) + value2 div tail;
            allows = (idx \<noteq> sepIdx)
        in map_option ((#) idx) (decode_loop e sepIdx m (value2 mod tail) allows allows))"

declare decode_loop.simps [simp del]

definition decode :: "name_encoder \<Rightarrow> u64 \<Rightarrow> u64 \<Rightarrow> u64 list option" where
  "decode e value sepIdx =
     (if value > encoder_max e then Some []
      else decode_loop e sepIdx (length (tailCounts e)) value False True)"

section \<open>Ranks of names\<close>

text \<open>
  The mathematics behind the encoder, on unbounded naturals: \<open>suffix_counts C i\<close> counts the name
  suffix_counts of length at most \<open>i\<close> over \<open>C\<close> regular characters, with and without those that
  are empty or start with the separator; \<open>name_rank\<close> counts the valid names below a name.
\<close>

primrec suffix_counts :: "nat \<Rightarrow> nat \<Rightarrow> nat \<times> nat" where
  "suffix_counts C 0 = (1, 0)"
| "suffix_counts C (Suc i) = (case suffix_counts C i of (w, wo) \<Rightarrow> (wo + C * w + 1, C * w))"

lemma suffix_counts_Suc:
  "suffix_counts C (Suc i) =
     (snd (suffix_counts C i) + C * fst (suffix_counts C i) + 1, C * fst (suffix_counts C i))"
  by (simp split: prod.split)

declare suffix_counts.simps(2) [simp del] suffix_counts_Suc [simp]

definition suffix_count :: "nat \<Rightarrow> nat \<Rightarrow> bool \<Rightarrow> bool \<Rightarrow> nat" where
  "suffix_count C m asep aend =
     (if aend then 1 else 0) + (if asep then (case m of 0 \<Rightarrow> 0 | Suc k \<Rightarrow> snd (suffix_counts C k)) else 0)
     + snd (suffix_counts C m)"

fun name_ok :: "nat \<Rightarrow> nat \<Rightarrow> nat \<Rightarrow> bool \<Rightarrow> bool \<Rightarrow> nat list \<Rightarrow> bool" where
  "name_ok C sep m asep aend [] = aend"
| "name_ok C sep m asep aend (i # s) =
     (0 < m \<and> i \<le> C \<and> (i = sep \<longrightarrow> asep) \<and> name_ok C sep (m - 1) (i \<noteq> sep) (i \<noteq> sep) s)"

definition below :: "nat \<Rightarrow> nat \<Rightarrow> nat \<Rightarrow> bool \<Rightarrow> nat \<Rightarrow> nat" where
  "below C sep k asep i =
     (if i \<le> sep then i * fst (suffix_counts C k)
      else (i - 1) * fst (suffix_counts C k) + (if asep then snd (suffix_counts C k) else 0))"

definition width :: "nat \<Rightarrow> nat \<Rightarrow> nat \<Rightarrow> nat \<Rightarrow> nat" where
  "width C sep k i = (if i = sep then snd (suffix_counts C k) else fst (suffix_counts C k))"

fun name_rank :: "nat \<Rightarrow> nat \<Rightarrow> nat \<Rightarrow> bool \<Rightarrow> bool \<Rightarrow> nat list \<Rightarrow> nat" where
  "name_rank C sep m asep aend [] = 0"
| "name_rank C sep m asep aend (i # s) =
     (if aend then 1 else 0) + below C sep (m - 1) asep i
     + name_rank C sep (m - 1) (i \<noteq> sep) (i \<noteq> sep) s"

fun name_unrank :: "nat \<Rightarrow> nat \<Rightarrow> nat \<Rightarrow> bool \<Rightarrow> bool \<Rightarrow> nat \<Rightarrow> nat list" where
  "name_unrank C sep m asep aend v =
     (if v = 0 \<and> aend then []
      else case m of
        0 \<Rightarrow> []
      | Suc k \<Rightarrow>
        let v1 = (if aend then v - 1 else v);
            W = fst (suffix_counts C k); X = snd (suffix_counts C k);
            skip = (v1 \<ge> W * sep + (if asep then X else 0));
            v2 = (if skip \<and> asep then v1 - X else v1);
            i = (if skip then 1 else 0) + v2 div W
        in i # name_unrank C sep k (i \<noteq> sep) (i \<noteq> sep) (v2 mod W))"

declare name_unrank.simps [simp del]

lemma suffix_counts_less: "snd (suffix_counts C k) < fst (suffix_counts C k)"
  by (cases k) auto

lemma suffix_counts_pos [simp]: "0 < fst (suffix_counts C k)"
  using suffix_counts_less [of C k] by simp

lemma suffix_count_same: "suffix_count C k b b = (if b then fst (suffix_counts C k) else snd (suffix_counts C k))"
  by (cases k) (auto simp: suffix_count_def)

lemma below_step:
  assumes "x < y" and "x = sep \<longrightarrow> asep"
  shows "below C sep k asep x + width C sep k x \<le> below C sep k asep y"
proof -
  let ?W = "fst (suffix_counts C k)"
  have step: "a * ?W + ?W \<le> b * ?W" if "a < b" for a b
    using mult_le_mono1 [of "Suc a" b ?W] that by simp
  consider "x < sep" "y \<le> sep" | "x < sep" "sep < y" | "x = sep" | "sep < x"
    using \<open>x < y\<close> by linarith
  then show ?thesis
  proof cases
    case 1 with step [of x y] \<open>x < y\<close> show ?thesis by (simp add: below_def width_def)
  next
    case 2
    then have "x * ?W + ?W \<le> (y - 1) * ?W" by (intro step) linarith
    with 2 show ?thesis by (simp add: below_def width_def)
  next
    case 3 with mult_le_mono1 [of x "y - 1" ?W] assms show ?thesis
      by (simp add: below_def width_def)
  next
    case 4
    with step [of "x - 1" "y - 1"] assms have "(x - 1) * ?W + ?W \<le> (y - 1) * ?W"
      by linarith
    with 4 \<open>x < y\<close> show ?thesis by (simp add: below_def width_def)
  qed
qed

lemma below_top:
  "sep \<le> C \<Longrightarrow> below C sep k asep (Suc C) = C * fst (suffix_counts C k) + (if asep then snd (suffix_counts C k) else 0)"
  by (simp add: below_def)

lemma suffix_count_Suc:
  "sep \<le> C \<Longrightarrow> suffix_count C (Suc k) asep aend = (if aend then 1 else 0) + below C sep k asep (Suc C)"
  by (simp add: suffix_count_def below_top)

lemma width_count: "width C sep k i = suffix_count C k (i \<noteq> sep) (i \<noteq> sep)"
  by (simp add: width_def suffix_count_same)

lemma name_rank_less:
  assumes "sep \<le> C"
  shows "name_ok C sep m asep aend s \<Longrightarrow> name_rank C sep m asep aend s < suffix_count C m asep aend"
proof (induction s arbitrary: m asep aend)
  case Nil
  then show ?case by (simp add: suffix_count_def)
next
  case (Cons i s)
  then obtain k where m: "m = Suc k" by (cases m) auto
  with Cons.prems have "name_rank C sep k (i \<noteq> sep) (i \<noteq> sep) s < width C sep k i"
    using Cons.IH [of k] by (simp add: width_count)
  moreover have "below C sep k asep i + width C sep k i \<le> below C sep k asep (Suc C)"
    using Cons.prems by (intro below_step) auto
  ultimately show ?case by (simp add: m suffix_count_Suc [OF assms])
qed

lemma name_rank_mono:
  assumes "sep \<le> C"
  shows "name_ok C sep m asep aend s \<Longrightarrow> name_ok C sep m asep aend t \<Longrightarrow> s < t \<Longrightarrow>
    name_rank C sep m asep aend s < name_rank C sep m asep aend t"
proof (induction s arbitrary: t m asep aend)
  case Nil
  then show ?case by (cases t) auto
next
  case (Cons x s)
  then obtain y t' where t: "t = y # t'" by (cases t) auto
  from Cons obtain k where m: "m = Suc k" by (cases m) auto
  show ?case
  proof (cases "x = y")
    case True
    with Cons t m show ?thesis by simp
  next
    case False
    with Cons.prems t have "x < y" by simp
    then have "below C sep k asep x + width C sep k x \<le> below C sep k asep y"
      using Cons.prems m by (intro below_step) auto
    moreover have "name_rank C sep k (x \<noteq> sep) (x \<noteq> sep) s < width C sep k x"
      using Cons.prems m by (simp add: width_count name_rank_less [OF assms])
    ultimately show ?thesis by (simp add: t m)
  qed
qed

lemma name_rank_inj:
  assumes "sep \<le> C" "name_ok C sep m asep aend s" "name_ok C sep m asep aend t"
    and "name_rank C sep m asep aend s = name_rank C sep m asep aend t"
  shows "s = t"
  using name_rank_mono [OF assms(1,2,3)] name_rank_mono [OF assms(1,3,2)] assms(4)
  by (cases s t rule: linorder_cases) auto

text \<open>The character the decoder picks is the one whose interval holds the value.\<close>

lemma unrank_index:
  fixes C sep k v1 asep
  defines "W \<equiv> fst (suffix_counts C k)" and "X \<equiv> snd (suffix_counts C k)"
  defines "skip \<equiv> (v1 \<ge> W * sep + (if asep then X else 0))"
  defines "v2 \<equiv> (if skip \<and> asep then v1 - X else v1)"
  defines "i \<equiv> (if skip then 1 else 0) + v2 div W"
  assumes sep: "sep \<le> C" and v1: "v1 < below C sep k asep (Suc C)"
  shows "i \<le> C" and "i = sep \<longrightarrow> asep"
    and "below C sep k asep i + v2 mod W = v1"
    and "v2 mod W < width C sep k i"
proof -
  have W: "0 < W" and XW: "X < W" by (simp_all add: W_def X_def suffix_counts_less)
  have top: "v1 < C * W + (if asep then X else 0)"
    using v1 unfolding below_top [OF sep] W_def X_def .
  have dm: "v2 div W * W + v2 mod W = v2" by simp
  have "i \<le> C \<and> (i = sep \<longrightarrow> asep) \<and> below C sep k asep i + v2 mod W = v1 \<and> v2 mod W < width C sep k i"
  proof (cases skip)
    case True
    then have v2: "sep * W \<le> v2" "v2 < C * W" "v2 + (if asep then X else 0) = v1"
      using top by (auto simp: skip_def v2_def mult.commute split: if_splits)
    have "sep \<le> v2 div W" using v2(1) W by (simp add: less_eq_div_iff_mult_less_eq)
    moreover have "v2 div W < C" using v2(2) by (simp add: less_mult_imp_div_less)
    moreover have "v2 mod W < W" using W by simp
    ultimately show ?thesis
      using True v2(3) dm by (auto simp: i_def below_def width_def W_def [symmetric] X_def [symmetric])
  next
    case False
    then have v2: "v2 = v1" and lt: "v1 < W * sep + (if asep then X else 0)"
      by (auto simp: skip_def v2_def)
    have lt2: "v2 mod W < W" using W by simp
    show ?thesis
    proof (cases "v1 < sep * W")
      case True
      then have "v2 div W < sep" by (simp add: v2 less_mult_imp_div_less)
      with False sep dm v2 lt2 show ?thesis
        by (simp add: i_def below_def width_def W_def [symmetric] X_def [symmetric])
    next
      case False': False
      with lt have asep: asep and up: "v1 < sep * W + X"
        by (auto simp: mult.commute split: if_splits)
      obtain r where r: "v1 = sep * W + r" using False' by (metis le_iff_add not_less)
      with up XW have rX: "r < X" and "r < W" by simp_all
      then have "v1 div W = sep" "v1 mod W = r" using W by (simp_all add: r)
      with False sep asep rX r show ?thesis
        by (simp add: i_def v2 below_def width_def W_def [symmetric] X_def [symmetric])
    qed
  qed
  then show "i \<le> C" and "i = sep \<longrightarrow> asep" and "below C sep k asep i + v2 mod W = v1"
    and "v2 mod W < width C sep k i" by auto
qed

lemma name_unrank_correct:
  assumes "sep \<le> C"
  shows "v < suffix_count C m asep aend \<Longrightarrow>
    name_ok C sep m asep aend (name_unrank C sep m asep aend v) \<and>
    name_rank C sep m asep aend (name_unrank C sep m asep aend v) = v"
proof (induction m arbitrary: asep aend v)
  case 0
  then show ?case by (simp add: name_unrank.simps suffix_count_def split: if_splits)
next
  case (Suc k)
  show ?case
  proof (cases "v = 0 \<and> aend")
    case True
    then show ?thesis by (simp add: name_unrank.simps)
  next
    case False
    define v1 where "v1 = (if aend then v - 1 else v)"
    define W X where "W = fst (suffix_counts C k)" and "X = snd (suffix_counts C k)"
    define skip where "skip = (v1 \<ge> W * sep + (if asep then X else 0))"
    define v2 where "v2 = (if skip \<and> asep then v1 - X else v1)"
    define i where "i = (if skip then 1 else 0) + v2 div W"
    have v: "v = (if aend then 1 else 0) + v1" using False by (auto simp: v1_def)
    have "v1 < below C sep k asep (Suc C)"
      using Suc.prems v by (simp add: suffix_count_Suc [OF assms])
    note idx = unrank_index [OF assms this, folded W_def X_def, folded skip_def, folded v2_def, folded i_def]
    have un: "name_unrank C sep (Suc k) asep aend v =
        i # name_unrank C sep k (i \<noteq> sep) (i \<noteq> sep) (v2 mod W)"
      using False
      by (subst name_unrank.simps)
        (simp add: Let_def v1_def [symmetric] W_def [symmetric] X_def [symmetric]
          skip_def [symmetric] v2_def [symmetric] i_def [symmetric] del: One_nat_def)
    have "name_ok C sep k (i \<noteq> sep) (i \<noteq> sep) (name_unrank C sep k (i \<noteq> sep) (i \<noteq> sep) (v2 mod W)) \<and>
        name_rank C sep k (i \<noteq> sep) (i \<noteq> sep) (name_unrank C sep k (i \<noteq> sep) (i \<noteq> sep) (v2 mod W))
        = v2 mod W"
      using idx(4) by (intro Suc.IH) (simp only: width_count)
    with idx(1,2,3) v show ?thesis unfolding un by simp
  qed
qed

section \<open>The machine encoder computes ranks\<close>

text \<open>
  What the code relies on of its parameters: the separator is one of the characters and
  every count fits the 64-bit type.
\<close>

locale fitting_encoder =
  fixes N :: nat and c sep :: u64
  assumes sep_le: "sep \<le> c"
    and fits: "fst (suffix_counts (unat c) N) + unat c + 1 < 2 ^ 64"
begin

abbreviation "C \<equiv> unat c"
abbreviation "S \<equiv> unat sep"
abbreviation "enc \<equiv> mk_encoder N c"

lemma S_le: "S \<le> C"
  using sep_le by (simp add: word_le_nat_alt)

lemma unat_Suc_c: "unat (c + 1) = C + 1"
  using fits by (simp add: unat_word_ariths)

lemma tail_count_of_nat:
  "withSep (tail_count c i) = of_nat (fst (suffix_counts C i))"
  "withoutSep (tail_count c i) = of_nat (snd (suffix_counts C i))"
  by (induction i) (simp_all add: Let_def)

lemma nth_tailCounts: "k < N \<Longrightarrow> tailCounts enc ! k = tail_count c k"
  by (simp add: mk_encoder_def)

lemma below_word:
  "(of_nat (below C S k asep (unat i)) :: u64) =
     (if i \<le> sep then i * withSep (tail_count c k)
      else (i - 1) * withSep (tail_count c k) + (if asep then withoutSep (tail_count c k) else 0))"
proof (cases "i \<le> sep")
  case True
  then show ?thesis by (simp add: below_def tail_count_of_nat word_le_nat_alt)
next
  case False
  then have "0 < unat i" by (simp add: word_le_nat_alt)
  then have "(of_nat (unat i - 1) :: u64) = i - 1" by (simp add: of_nat_diff)
  with False show ?thesis
    by (simp add: below_def tail_count_of_nat word_le_nat_alt del: One_nat_def)
qed

lemma encode_loop_ok:
  "k \<le> N \<Longrightarrow> name_ok C S k asep aend (map unat idxs) \<Longrightarrow>
   encode_loop enc sep idxs r k asep aend = r + of_nat (name_rank C S k asep aend (map unat idxs))"
proof (induction idxs arbitrary: r k asep aend)
  case Nil
  then show ?case by simp
next
  case (Cons i idxs)
  then obtain k' where k: "k = Suc k'" and k': "k' < N" by (cases k) auto
  have guard: "\<not> (k = 0 \<or> i \<ge> numRegularChars enc + 1 \<or> (i = sep \<and> \<not> asep))"
    using Cons.prems by (auto simp: mk_encoder_def word_le_nat_alt unat_Suc_c)
  have eq: "(unat i = S) = (i = sep)" by (metis word_unat_eq_iff)
  have below: "(of_nat (below C S k' asep (unat i)) :: u64) =
      (if i \<le> sep then i * withSep (tail_count c k')
       else (i - 1) * withSep (tail_count c k') + (if asep then withoutSep (tail_count c k') else 0))"
    by (rule below_word)
  have IH: "encode_loop enc sep idxs r' k' (i \<noteq> sep) (i \<noteq> sep) =
      r' + of_nat (name_rank C S k' (i \<noteq> sep) (i \<noteq> sep) (map unat idxs))" for r'
    using Cons.prems k by (intro Cons.IH) (auto simp: eq)
  show ?case
    unfolding k by (simp only: encode_loop.simps guard [unfolded k] if_False Let_def list.map
        name_rank.simps diff_Suc_1 nth_tailCounts [OF k'] IH eq of_nat_add below)
      (simp add: add.assoc)
qed

lemma encode_loop_bad:
  "k \<le> N \<Longrightarrow> \<not> name_ok C S k asep aend (map unat idxs) \<Longrightarrow>
   encode_loop enc sep idxs r k asep aend = -1"
proof (induction idxs arbitrary: r k asep aend)
  case Nil
  then show ?case by simp
next
  case (Cons i idxs)
  have eq: "(unat i = S) = (i = sep)" by (metis word_unat_eq_iff)
  show ?case
  proof (cases "k = 0 \<or> i \<ge> numRegularChars enc + 1 \<or> (i = sep \<and> \<not> asep)")
    case True
    then show ?thesis by simp
  next
    case False
    then have "\<not> name_ok C S (k - 1) (i \<noteq> sep) (i \<noteq> sep) (map unat idxs)"
      using Cons.prems by (auto simp: mk_encoder_def word_le_nat_alt unat_Suc_c eq)
    with False Cons.prems(1) show ?thesis
      by (simp add: Cons.IH Let_def)
  qed
qed

lemma counts_step: "fst (suffix_counts D k) \<le> fst (suffix_counts D (Suc k))"
proof (cases "D = 0")
  case True
  have "suffix_counts 0 k = (1, 0)" by (induction k) auto
  with True show ?thesis by simp
next
  case False
  then have "fst (suffix_counts D k) \<le> D * fst (suffix_counts D k)" by simp
  then show ?thesis unfolding suffix_counts_Suc fst_conv by linarith
qed

lemma counts_fit:
  assumes "k < N"
  shows "C * fst (suffix_counts C k) + snd (suffix_counts C k) + 1 < 2 ^ 64"
    and "fst (suffix_counts C k) < 2 ^ 64" and "snd (suffix_counts C k) < 2 ^ 64"
proof -
  have mono: "fst (suffix_counts C i) \<le> fst (suffix_counts C j)" if "i \<le> j" for i j
    using that counts_step by (rule lift_Suc_mono_le [rotated])
  show *: "C * fst (suffix_counts C k) + snd (suffix_counts C k) + 1 < 2 ^ 64"
    using mono [of "Suc k" N] assms fits by simp
  show "fst (suffix_counts C k) < 2 ^ 64" using mono [of k N] assms fits by simp
  from * show "snd (suffix_counts C k) < 2 ^ 64" by simp
qed

lemma unat_tail_count:
  assumes "k < N"
  shows "unat (withSep (tail_count c k)) = fst (suffix_counts C k)"
    and "unat (withoutSep (tail_count c k)) = snd (suffix_counts C k)"
  using counts_fit [OF assms] by (simp_all add: tail_count_of_nat unat_of_nat)

lemma unat_threshold:
  assumes "k < N"
  shows "unat (withSep (tail_count c k) * sep + (if asep then withoutSep (tail_count c k) else 0)) =
    fst (suffix_counts C k) * S + (if asep then snd (suffix_counts C k) else 0)"
proof -
  let ?W = "fst (suffix_counts C k)" and ?X = "snd (suffix_counts C k)"
  have "?W * S \<le> C * ?W" using S_le by (simp add: mult.commute)
  then have "?W * S + ?X < 2 ^ 64" using counts_fit(1) [OF assms] by linarith
  then show ?thesis
    by (simp add: unat_word_ariths unat_tail_count [OF assms])
qed

lemma decode_loop_ok:
  "k \<le> N \<Longrightarrow> unat v < suffix_count C k asep aend \<Longrightarrow>
   decode_loop enc sep k v asep aend = Some (map of_nat (name_unrank C S k asep aend (unat v)))"
proof (induction k arbitrary: v asep aend)
  case 0
  then have "v = 0 \<and> aend"
    by (simp add: suffix_count_def unat_eq_zero split: if_splits)
  then show ?case by (simp add: decode_loop.simps name_unrank.simps)
next
  case (Suc k)
  show ?case
  proof (cases "v = 0 \<and> aend")
    case True
    then show ?thesis by (simp add: decode_loop.simps name_unrank.simps)
  next
    case False
    then have F: "\<not> (unat v = 0 \<and> aend)" by (simp add: unat_eq_zero)
    have kN: "k < N" using Suc.prems by simp
    let ?t = "tail_count c k"
    define v1 where "v1 = (if aend then v - 1 else v)"
    define skip where "skip = (if asep then v1 \<ge> withSep ?t * sep + withoutSep ?t else v1 \<ge> withSep ?t * sep)"
    define v2 where "v2 = (if skip \<and> asep then v1 - withoutSep ?t else v1)"
    define i where "i = (if skip then 1 else 0) + v2 div withSep ?t"
    have n1: "unat v1 = (if aend then unat v - 1 else unat v)"
      using False by (auto simp: v1_def unat_minus_one)
    have nskip: "skip = (unat v1 \<ge> fst (suffix_counts C k) * S + (if asep then snd (suffix_counts C k) else 0))"
      using unat_threshold [OF kN, of asep] by (auto simp: skip_def word_le_nat_alt)
    have n2: "unat v2 = (if skip \<and> asep then unat v1 - snd (suffix_counts C k) else unat v1)"
    proof (cases "skip \<and> asep")
      case True
      then have "withoutSep ?t \<le> v1"
        using nskip by (auto simp: word_le_nat_alt unat_tail_count [OF kN])
      then show ?thesis by (simp add: v2_def unat_sub unat_tail_count [OF kN])
    qed (auto simp: v2_def)
    have v1lt: "unat v1 < below C S k asep (Suc C)"
      using Suc.prems F n1 by (auto simp: suffix_count_Suc [OF S_le])
    note idx = unrank_index [OF S_le v1lt, folded nskip, folded n2]
    have ni: "unat i = (if skip then 1 else 0) + unat v2 div fst (suffix_counts C k)"
    proof -
      have "(if skip then 1 else 0) + unat v2 div fst (suffix_counts C k) < 2 ^ 64"
        using idx(1) fits by simp
      then show ?thesis
        by (auto simp: i_def unat_word_ariths unat_div unat_tail_count [OF kN])
    qed
    have nmod: "unat (v2 mod withSep ?t) = unat v2 mod fst (suffix_counts C k)"
      by (simp add: unat_mod unat_tail_count [OF kN])
    have rec: "decode_loop enc sep k (v2 mod withSep ?t) (i \<noteq> sep) (i \<noteq> sep) =
        Some (map of_nat (name_unrank C S k (i \<noteq> sep) (i \<noteq> sep) (unat v2 mod fst (suffix_counts C k))))"
      using Suc.prems idx(4) Suc.IH [of "v2 mod withSep ?t" "i \<noteq> sep" "i \<noteq> sep"]
      by (simp add: width_count nmod ni [symmetric] word_unat_eq_iff [symmetric])
    have lhs: "decode_loop enc sep (Suc k) v asep aend =
        map_option ((#) i) (decode_loop enc sep k (v2 mod withSep ?t) (i \<noteq> sep) (i \<noteq> sep))"
      by (subst decode_loop.simps)
        (simp only: if_not_P [OF False] nat.case Let_def nth_tailCounts [OF kN]
          v1_def [symmetric] skip_def [symmetric] v2_def [symmetric] i_def [symmetric])
    have rhs: "name_unrank C S (Suc k) asep aend (unat v) =
        unat i # name_unrank C S k (i \<noteq> sep) (i \<noteq> sep) (unat v2 mod fst (suffix_counts C k))"
      using F
      by (subst name_unrank.simps)
        (simp add: Let_def n1 [symmetric] nskip [symmetric] n2 [symmetric] ni [symmetric]
          word_unat_eq_iff [symmetric] del: One_nat_def)
    show ?thesis unfolding lhs rhs rec by simp
  qed
qed

lemma encode_ok:
  assumes "name_ok C S N False True (map unat idxs)"
  shows "unat (encode enc idxs sep) = name_rank C S N False True (map unat idxs)"
    and "encode enc idxs sep \<noteq> -1"
proof -
  have "name_rank C S N False True (map unat idxs) < suffix_count C N False True"
    by (rule name_rank_less [OF S_le assms])
  then have lt: "name_rank C S N False True (map unat idxs) < 2 ^ 64 - 1"
    using suffix_counts_less [of C N] fits by (simp add: suffix_count_def)
  have "encode enc idxs sep = of_nat (name_rank C S N False True (map unat idxs))"
    using encode_loop_ok [OF order_refl assms, of 0] by (simp add: encode_def mk_encoder_def)
  note e = this
  show "unat (encode enc idxs sep) = name_rank C S N False True (map unat idxs)"
    using lt by (simp add: e unat_of_nat)
  show "encode enc idxs sep \<noteq> -1"
  proof
    assume "encode enc idxs sep = -1"
    then have "(of_nat (Suc (name_rank C S N False True (map unat idxs))) :: u64) = 0"
      by (simp add: e)
    then have "2 ^ 64 dvd Suc (name_rank C S N False True (map unat idxs))"
      by (simp only: word_of_nat_eq_0_iff) simp
    with lt show False by (auto dest: dvd_imp_le)
  qed
qed

lemma encode_bad:
  "\<not> name_ok C S N False True (map unat idxs) \<Longrightarrow> encode enc idxs sep = -1"
  using encode_loop_bad [OF order_refl] by (simp add: encode_def mk_encoder_def)

lemma le_max_iff:
  assumes "0 < N"
  shows "v \<le> encoder_max enc \<longleftrightarrow> unat v < suffix_count C N False True"
proof -
  obtain k where k: "N = Suc k" using assms by (cases N) auto
  then have "C * fst (suffix_counts C k) < 2 ^ 64" using counts_fit(1) [of k] by simp
  then have "unat (encoder_max enc) = C * fst (suffix_counts C k)"
    by (simp add: encoder_max_def mk_encoder_def k unat_word_ariths unat_tail_count)
  then show ?thesis by (auto simp: word_le_nat_alt suffix_count_def k)
qed

lemma decode_ok:
  assumes "0 < N" and "v \<le> encoder_max enc"
  shows "decode enc v sep = Some (map of_nat (name_unrank C S N False True (unat v)))"
  using decode_loop_ok [OF order_refl] assms le_max_iff [of v]
  by (simp add: decode_def mk_encoder_def)

end
end
