(* ===== verification/Names.thy ===== *)
theory Names
  imports Name_Encoder
begin

text \<open>
  Account names as 64-bit numbers: libraries/psibase/common/include/psibase/name.hpp
  (\<open>name_to_number\<close>, \<open>number_to_name\<close>) and AccountNumber.hpp (\<open>AccountNumber\<close>).
\<close>

section \<open>Names and numbers\<close>

definition accountEncoder :: name_encoder where
  "accountEncoder = mk_encoder 10 36"

definition subaccountSeparator :: string where
  "subaccountSeparator = ''+''"

fun subaccount_digits :: "string \<Rightarrow> u32 \<Rightarrow> u32 option" where
  "subaccount_digits [] sub = Some sub"
| "subaccount_digits (c # cs) sub =
     (let digit = of_char c - 48
      in if digit \<ge> 10 then None
         else let sub' = sub * 10 + digit
              in if sub' > 255 then None else subaccount_digits cs sub')"

text \<open>Returns the subaccount and the string left, as the reference parameter has it after the call.\<close>

definition subaccount_from_str :: "string \<Rightarrow> string \<Rightarrow> u8 \<times> string" where
  "subaccount_from_str s sep =
     (case find_sub sep s of
        None \<Rightarrow> (0, s)
      | Some pos \<Rightarrow>
          (case subaccount_digits (drop (pos + length sep) s) 0 of
             None \<Rightarrow> (0, s)
           | Some sub \<Rightarrow> (ucast sub, take pos s)))"

definition subaccount_to_str :: "u8 \<Rightarrow> string \<Rightarrow> string \<Rightarrow> string" where
  "subaccount_to_str sub out sep =
     (if sub \<noteq> 0 then out @ sep @ dec_str (unat sub) else out)"

definition char_index :: "char \<Rightarrow> u64" where
  "char_index ch =
     (let n = (of_char ch :: nat)
      in if ch = CHR ''-'' then 0
         else if 48 \<le> n \<and> n \<le> 57 then of_nat (n - 48 + 1)
         else if 65 \<le> n \<and> n \<le> 90 then of_nat (n - 65 + 11)
         else if 97 \<le> n \<and> n \<le> 122 then of_nat (n - 97 + 11)
         else -1)"

definition name_to_number_sep :: "string \<Rightarrow> string \<Rightarrow> u64" where
  "name_to_number_sep m_input sep =
     (let (sub, s) = subaccount_from_str m_input sep;
          result = encode accountEncoder (map char_index s) 0
      in if result = -1 then 0 else push_bit 8 result + ucast sub)"

definition name_to_number :: "string \<Rightarrow> u64" where
  "name_to_number s = name_to_number_sep s subaccountSeparator"

definition name_chars :: string where
  "name_chars = ''-0123456789abcdefghijklmnopqrstuvwxyz''"

definition number_to_name_sep :: "u64 \<Rightarrow> string \<Rightarrow> string option" where
  "number_to_name_sep input sep =
     (let sub = ucast (input AND 0xff)
      in map_option (\<lambda>idxs. subaccount_to_str sub (map (\<lambda>idx. name_chars ! unat idx) idxs) sep)
           (decode accountEncoder (drop_bit 8 input) 0))"

definition number_to_name :: "u64 \<Rightarrow> string option" where
  "number_to_name input = number_to_name_sep input subaccountSeparator"

text \<open>\<open>AccountNumber\<close>: the subaccount constructor, \<open>subaccount()\<close> and \<open>base()\<close>.\<close>

definition subaccountMask :: u64 where
  "subaccountMask = 0xff"

definition account_with_sub :: "u64 \<Rightarrow> u8 \<Rightarrow> u64" where
  "account_with_sub base sub = (base AND NOT subaccountMask) OR ucast sub"

definition account_subaccount :: "u64 \<Rightarrow> u8" where
  "account_subaccount value = ucast (value AND subaccountMask)"

definition account_base :: "u64 \<Rightarrow> u64" where
  "account_base value = value AND NOT subaccountMask"

section \<open>Account names\<close>

lemma split_low_byte: "push_bit 8 (drop_bit 8 v) + ucast (ucast (v AND 0xff) :: u8) = (v :: u64)"
proof -
  have "(0xff :: u64) = mask 8" by (simp add: mask_eq_exp_minus_1)
  then have "v AND 0xff = take_bit 8 v" by (simp add: take_bit_eq_mask)
  moreover have "(ucast (ucast (take_bit 8 v) :: u8) :: u64) = take_bit 8 v"
    by (simp add: unsigned_ucast_eq)
  ultimately show ?thesis by (simp add: bits_ident)
qed

lemma mask_8: "subaccountMask = mask 8"
  by (simp add: subaccountMask_def mask_eq_exp_minus_1)

text \<open>A number is put together again from its base and its subaccount.\<close>

lemma account_base_sub: "account_with_sub (account_base v) (account_subaccount v) = v"
proof (rule bit_word_eqI)
  fix n
  assume "n < LENGTH(64)"
  then show "bit (account_with_sub (account_base v) (account_subaccount v)) n = bit v n"
    by (auto simp: account_with_sub_def account_base_def account_subaccount_def mask_8 bit_simps)
qed

lemma low_byte_parts:
  assumes "unat (e :: u64) < 2 ^ 56"
  shows "drop_bit 8 (push_bit 8 e + ucast (b :: u8)) = e"
    and "ucast ((push_bit 8 e + ucast b) AND 0xff) = b"
proof -
  have b: "unat b < 256" using unsigned_less [of b, where ?'a = nat] by simp
  have u: "unat (push_bit 8 e + ucast b) = unat e * 256 + unat b"
    using assms b by (simp add: push_bit_eq_mult unat_word_ariths unsigned_ucast_eq take_bit_eq_mod)
  then have "unat (drop_bit 8 (push_bit 8 e + ucast b)) = unat e"
    using b by (simp add: unat_drop_bit_eq) (simp add: drop_bit_eq_div)
  then show "drop_bit 8 (push_bit 8 e + ucast b) = e" by (simp add: word_unat_eq_iff)
  have "(push_bit 8 e + ucast b) AND 0xff = take_bit 8 (push_bit 8 e + ucast b)"
    by (metis mask_8 subaccountMask_def take_bit_eq_mask)
  then have "unat ((push_bit 8 e + ucast b) AND 0xff) = unat b"
    using u b by (simp add: unsigned_take_bit_eq) (simp add: take_bit_eq_mod)
  then have "unat (ucast ((push_bit 8 e + ucast b) AND 0xff) :: u8) = unat b"
    using b by (simp add: unsigned_ucast_eq take_bit_eq_mod)
  then show "ucast ((push_bit 8 e + ucast b) AND 0xff) = b" by (simp add: word_unat_eq_iff)
qed

lemma suffix_counts_36: "suffix_counts 36 10 = (4781280418588297, 4655369993624388)"
proof -
  have "suffix_counts 36 (Suc (Suc (Suc (Suc (Suc (Suc (Suc (Suc (Suc (Suc 0)))))))))) =
      (4781280418588297, 4655369993624388)"
    by (simp add: suffix_counts.simps(2) del: suffix_counts_Suc)
  moreover have "10 = Suc (Suc (Suc (Suc (Suc (Suc (Suc (Suc (Suc (Suc 0)))))))))" by simp
  ultimately show ?thesis by (simp only:)
qed

interpretation account: fitting_encoder 10 36 0
  by unfold_locales (simp_all add: suffix_counts_36)

text \<open>The rules of doc/src/specifications/data-formats/account-numbers.md for a name.\<close>

definition account_name :: "string \<Rightarrow> bool" where
  "account_name s \<longleftrightarrow> length s \<le> 10 \<and> set s \<subseteq> set name_chars
     \<and> (s \<noteq> [] \<longrightarrow> hd s \<noteq> CHR ''-'' \<and> last s \<noteq> CHR ''-'') \<and> \<not> sublist ''--'' s"

lemma length_name_chars [simp]: "length name_chars = 37"
  by (simp add: name_chars_def)

lemma name_chars_index:
  assumes "i < 37"
  shows "char_index (name_chars ! i) = of_nat i"
proof -
  have "map char_index name_chars = map of_nat [0..<37]"
    by (simp add: name_chars_def char_index_def upt_conv_Cons)
  then have "map char_index name_chars ! i = map of_nat [0..<37] ! i" by simp
  with assms show ?thesis by simp
qed

lemma name_chars_cases:
  assumes "ch \<in> set name_chars"
  obtains i where "i < 37" "ch = name_chars ! i" "unat (char_index ch) = i"
proof -
  from assms obtain i where "i < 37" "ch = name_chars ! i" by (auto simp: in_set_conv_nth)
  then show thesis by (intro that [of i]) (simp_all add: name_chars_index unat_of_nat)
qed

lemma name_chars_sorted: "sorted_wrt (<) name_chars"
proof -
  have "sorted_wrt (<) (map (of_char :: char \<Rightarrow> nat) name_chars)"
    by (simp add: name_chars_def)
  moreover have "(<) = (\<lambda>a b :: char. (of_char a :: nat) < of_char b)"
    by (intro ext) (simp add: less_char_def)
  ultimately show ?thesis by (simp add: sorted_wrt_map)
qed

lemma char_index_less:
  assumes "a \<in> set name_chars" "b \<in> set name_chars"
  shows "unat (char_index a) < unat (char_index b) \<longleftrightarrow> a < b"
proof -
  obtain i j where i: "i < 37" "a = name_chars ! i" "unat (char_index a) = i"
    and j: "j < 37" "b = name_chars ! j" "unat (char_index b) = j"
    using name_chars_cases [OF assms(1)] name_chars_cases [OF assms(2)] by metis
  have up: "name_chars ! p < name_chars ! q" if "p < q" "q < 37" for p q
    using name_chars_sorted that by (auto simp: sorted_wrt_iff_nth_less)
  show ?thesis
    using up [of i j] up [of j i] i j by (cases i j rule: linorder_cases) auto
qed

lemma char_index_eq:
  assumes "a \<in> set name_chars" "b \<in> set name_chars"
  shows "unat (char_index a) = unat (char_index b) \<longleftrightarrow> a = b"
  using char_index_less [OF assms] char_index_less [OF assms(2,1)]
  by (cases a b rule: linorder_cases) auto

lemma map_index_less:
  "set s \<subseteq> set name_chars \<Longrightarrow> set t \<subseteq> set name_chars \<Longrightarrow>
   map (unat \<circ> char_index) s < map (unat \<circ> char_index) t \<longleftrightarrow> s < t"
proof (induction s arbitrary: t)
  case Nil
  then show ?case by (cases t) simp_all
next
  case (Cons a s)
  show ?case
  proof (cases t)
    case Nil
    then show ?thesis by simp
  next
    case (Cons b t')
    with Cons.prems have "a \<in> set name_chars" "b \<in> set name_chars" by simp_all
    note ab = char_index_less [OF this] char_index_eq [OF this]
    show ?thesis using Cons Cons.prems Cons.IH [of t'] by (simp add: ab)
  qed
qed

lemma char_index_hyphen: "a \<in> set name_chars \<Longrightarrow> unat (char_index a) = 0 \<longleftrightarrow> a = CHR ''-''"
proof -
  have "CHR ''-'' \<in> set name_chars" by (simp add: name_chars_def)
  moreover have "char_index (CHR ''-'') = 0" by (simp add: char_index_def)
  ultimately show "a \<in> set name_chars \<Longrightarrow> unat (char_index a) = 0 \<longleftrightarrow> a = CHR ''-''"
    using char_index_eq [of a "CHR ''-''"] by simp
qed

lemma name_ok_account:
  "set s \<subseteq> set name_chars \<Longrightarrow>
   name_ok 36 0 m asep aend (map (unat \<circ> char_index) s) \<longleftrightarrow>
   length s \<le> m \<and> (s = [] \<longrightarrow> aend) \<and>
   (s \<noteq> [] \<longrightarrow> (hd s = CHR ''-'' \<longrightarrow> asep) \<and> last s \<noteq> CHR ''-'') \<and> \<not> sublist ''--'' s"
proof (induction s arbitrary: m asep aend)
  case Nil
  then show ?case by simp
next
  case (Cons a s)
  from Cons.prems have le: "unat (char_index a) \<le> 36" by (auto elim!: name_chars_cases)
  from Cons.prems have hy: "unat (char_index a) = 0 \<longleftrightarrow> a = CHR ''-''"
    by (intro char_index_hyphen) simp
  have IH: "name_ok 36 0 k p q (map (unat \<circ> char_index) s) \<longleftrightarrow>
      length s \<le> k \<and> (s = [] \<longrightarrow> q) \<and>
      (s \<noteq> [] \<longrightarrow> (hd s = CHR ''-'' \<longrightarrow> p) \<and> last s \<noteq> CHR ''-'') \<and> \<not> sublist ''--'' s" for k p q
    using Cons.prems by (intro Cons.IH) simp
  have sub: "sublist ''--'' (a # s) \<longleftrightarrow> a = CHR ''-'' \<and> s \<noteq> [] \<and> hd s = CHR ''-'' \<or> sublist ''--'' s"
    by (cases s) (auto simp: sublist_Cons_right)
  show ?case
  proof (cases s)
    case Nil
    with sub show ?thesis by (auto simp: le hy)
  next
    case (Cons b t)
    then have s: "s \<noteq> []" "last (a # s) = last s" by auto
    show ?thesis unfolding list.map name_ok.simps o_def sub IH [unfolded o_def] hy using s le by auto
  qed
qed


subsection \<open>Subaccounts\<close>

lemma name_chars_plus: "set s \<subseteq> set name_chars \<Longrightarrow> CHR ''+'' \<notin> set s"
  by (auto simp: name_chars_def)

lemma subaccount_digits_foldl:
  "\<forall>c \<in> set ds. is_digit c \<Longrightarrow> foldl (\<lambda>v c. v * 10 + digit_val c) a ds \<le> 255 \<Longrightarrow>
   subaccount_digits ds (of_nat a) = Some (of_nat (foldl (\<lambda>v c. v * 10 + digit_val c) a ds))"
proof (induction ds arbitrary: a)
  case Nil
  then show ?case by simp
next
  case (Cons c ds)
  have grow: "b \<le> foldl (\<lambda>v c. v * 10 + digit_val c) b xs" for b xs
  proof (induction xs arbitrary: b)
    case (Cons x xs)
    show ?case using Cons [of "b * 10 + digit_val x"] by simp
  qed simp
  from Cons.prems grow [of "a * 10 + digit_val c" ds]
  have le: "a * 10 + digit_val c \<le> 255" by simp
  have dig: "(of_char c - 48 :: u32) = of_nat (digit_val c)"
  proof -
    have "48 \<le> (of_char c :: nat)" using Cons.prems by (simp add: is_digit_def)
    then show ?thesis by (simp add: digit_val_def of_nat_diff of_nat_of_char)
  qed
  have lt: "digit_val c < 10" using Cons.prems by (auto simp: is_digit_def digit_val_def)
  have "\<not> (of_nat (digit_val c) :: u32) \<ge> 10"
    using lt by (simp add: word_le_nat_alt unat_of_nat)
  moreover have "(of_nat a * 10 + of_nat (digit_val c) :: u32) = of_nat (a * 10 + digit_val c)"
    by simp
  moreover have "\<not> (of_nat (a * 10 + digit_val c) :: u32) > 255"
    using le by (simp only: word_less_nat_alt unat_of_nat) simp
  ultimately show ?case
    using Cons by (simp add: dig Let_def del: of_nat_add of_nat_mult)
qed

lemma subaccount_digits_dec_str:
  "n < 256 \<Longrightarrow> subaccount_digits (dec_str n) 0 = Some (of_nat n)"
  using subaccount_digits_foldl [of "dec_str n" 0] dec_str_digits [of n] dec_val_dec_str [of n]
  by (simp add: dec_val_def)

lemma subaccount_from_to_str:
  assumes "CHR ''+'' \<notin> set s"
  shows "subaccount_from_str (subaccount_to_str sub s ''+'') ''+'' = (sub, s)"
proof (cases "sub = 0")
  case True
  with assms show ?thesis
    by (simp add: subaccount_to_str_def subaccount_from_str_def find_sub_None_append)
next
  case False
  have "unat sub < 256" using unsigned_less [of sub, where ?'a = nat] by simp
  then have "subaccount_digits (dec_str (unat sub)) 0 = Some (of_nat (unat sub))"
    by (rule subaccount_digits_dec_str)
  moreover have "ucast (of_nat (unat sub) :: u32) = sub"
    by (simp add: unsigned_ucast_eq take_bit_word_eq_self)
  ultimately show ?thesis using assms False
    by (simp add: subaccount_to_str_def subaccount_from_str_def find_sub_append)
qed

subsection \<open>Numbers of names\<close>

lemma account_name_ok:
  "account_name s \<longleftrightarrow>
     set s \<subseteq> set name_chars \<and> name_ok 36 0 10 False True (map (unat \<circ> char_index) s)"
  using name_ok_account [of s 10 False True] by (auto simp: account_name_def)

definition account_rank :: "string \<Rightarrow> nat" where
  "account_rank s = name_rank 36 0 10 False True (map (unat \<circ> char_index) s)"

lemma encode_account:
  assumes "account_name s"
  shows "unat (encode accountEncoder (map char_index s) 0) = account_rank s"
    and "encode accountEncoder (map char_index s) 0 \<noteq> -1"
  using account.encode_ok [of "map char_index s"] assms
  by (simp_all add: account_name_ok account_rank_def accountEncoder_def)

lemma account_rank_less: "account_name s \<Longrightarrow> account_rank s < 2 ^ 56"
proof -
  assume "account_name s"
  then have "account_rank s < suffix_count 36 10 False True"
    by (simp add: account_name_ok account_rank_def name_rank_less)
  also have "suffix_count 36 10 False True \<le> 2 ^ 56"
    using suffix_counts_36 by (simp add: suffix_count_def)
  finally show ?thesis .
qed


lemma name_to_number_primary:
  assumes "account_name s"
  shows "name_to_number s = push_bit 8 (encode accountEncoder (map char_index s) 0)"
proof -
  have "subaccount_from_str s ''+'' = (0, s)"
    using subaccount_from_to_str [of s 0] name_chars_plus assms
    by (simp add: account_name_ok subaccount_to_str_def)
  with encode_account(2) [OF assms] show ?thesis
    by (simp add: name_to_number_def name_to_number_sep_def subaccountSeparator_def)
qed

lemma unat_name_to_number:
  assumes "account_name s"
  shows "unat (name_to_number s) = account_rank s * 256"
proof -
  have "account_rank s * 256 < 2 ^ 64" using account_rank_less [OF assms] by simp
  then show ?thesis
    using encode_account(1) [OF assms]
    by (simp add: name_to_number_primary [OF assms] push_bit_eq_mult unat_word_ariths)
qed

lemma account_rank_mono:
  assumes "account_name s" "account_name t"
  shows "account_rank s < account_rank t \<longleftrightarrow> s < t"
proof -
  have up: "account_rank a < account_rank b" if "account_name a" "account_name b" "a < b" for a b
    using that map_index_less [of a b]
    by (auto simp: account_rank_def account_name_ok intro: name_rank_mono)
  show ?thesis
    using up [OF assms] up [OF assms(2,1)] by (cases s t rule: linorder_cases) auto
qed

lemma name_unrank_le:
  "name_ok C sep m asep aend s \<Longrightarrow> i \<in> set s \<Longrightarrow> i \<le> C"
  by (induction s arbitrary: m asep aend) auto

lemma decode_account:
  assumes "v \<le> encoder_max accountEncoder"
  obtains s where "account_name s" "encode accountEncoder (map char_index s) 0 = v"
    "map_option (map (\<lambda>idx. name_chars ! unat idx)) (decode accountEncoder v 0) = Some s"
proof -
  define ix where "ix = name_unrank 36 0 10 False True (unat v)"
  define s where "s = map (\<lambda>i. name_chars ! i) ix"
  have "unat v < suffix_count 36 10 False True"
    using assms account.le_max_iff [of v] by (simp add: accountEncoder_def)
  then have ok: "name_ok 36 0 10 False True ix" and rank: "name_rank 36 0 10 False True ix = unat v"
    using name_unrank_correct [of 0 36 "unat v" 10 False True] by (simp_all add: ix_def)
  have le: "\<forall>i \<in> set ix. i \<le> 36" using name_unrank_le [OF ok] by blast
  have idx: "map (unat \<circ> char_index) s = ix"
    using le by (auto simp: s_def name_chars_index unat_of_nat intro!: map_idI)
  have "set s \<subseteq> set name_chars" using le by (auto simp: s_def)
  then have acc: "account_name s" using ok by (simp add: account_name_ok idx)
  have dec: "decode accountEncoder v 0 = Some (map of_nat ix)"
    using account.decode_ok [of v] assms by (simp add: accountEncoder_def ix_def)
  show thesis
  proof (rule that [OF acc])
    have "unat (encode accountEncoder (map char_index s) 0) = unat v"
      using rank by (simp add: encode_account(1) [OF acc] account_rank_def idx)
    then show "encode accountEncoder (map char_index s) 0 = v" by (simp add: word_unat_eq_iff)
    show "map_option (map (\<lambda>idx. name_chars ! unat idx)) (decode accountEncoder v 0) = Some s"
      using le by (auto simp: dec s_def unat_of_nat)
  qed
qed



text \<open>
  C27. The numbering has no gaps and decoding inverts it: every 64-bit value whose base part
  is at most \<open>max()\<close> decodes without reading outside the count table, to a name that encodes
  back to that value; with a zero subaccount byte the name obeys the account name rules.
\<close>

theorem number_to_name_roundtrip:
  assumes "drop_bit 8 v \<le> encoder_max accountEncoder"
  shows "\<exists>s. number_to_name v = Some s \<and> name_to_number s = v \<and> (v AND 0xff = 0 \<longrightarrow> account_name s)"
proof -
  define sub :: u8 where "sub = ucast (v AND 0xff)"
  obtain s where s: "account_name s" "encode accountEncoder (map char_index s) 0 = drop_bit 8 v"
    "map_option (map (\<lambda>idx. name_chars ! unat idx)) (decode accountEncoder (drop_bit 8 v) 0) = Some s"
    using decode_account [OF assms] .
  let ?n = "subaccount_to_str sub s ''+''"
  have "number_to_name v = Some ?n"
    using s(3) by (auto simp: number_to_name_def number_to_name_sep_def sub_def subaccountSeparator_def)
  moreover have "name_to_number ?n = v"
  proof -
    have "push_bit 8 (drop_bit 8 v) + ucast sub = v"
      unfolding sub_def by (rule split_low_byte)
    then show ?thesis
      using s(1,2) encode_account(2) [OF s(1)] subaccount_from_to_str [of s sub] name_chars_plus
      by (simp add: name_to_number_def name_to_number_sep_def subaccountSeparator_def account_name_ok)
  qed
  moreover have "account_name ?n" if "v AND 0xff = 0"
    using that s(1) by (simp add: sub_def subaccount_to_str_def)
  ultimately show ?thesis by blast
qed

theorem number_to_name_roundtrip_witness:
  "drop_bit 8 (331314911476334348 :: u64) \<le> encoder_max accountEncoder \<and>
   (\<exists>s. number_to_name 331314911476334348 = Some s \<and> name_to_number s = 331314911476334348)"
proof -
  have "drop_bit 8 (331314911476334348 :: u64) \<le> encoder_max accountEncoder"
    by code_simp
  with number_to_name_roundtrip [of 331314911476334348] show ?thesis by blast
qed

text \<open>
  C28. Encoding then decoding a valid account name, with any subaccount suffix, gives it back:
  \<open>number_to_name\<close> of \<open>name_to_number\<close> of \<open>s+n\<close> is \<open>s+n\<close>.
\<close>

theorem name_to_number_roundtrip:
  assumes "account_name s"
  shows "number_to_name (name_to_number (subaccount_to_str sub s subaccountSeparator)) =
    Some (subaccount_to_str sub s subaccountSeparator)"
proof -
  let ?n = "subaccount_to_str sub s ''+''" and ?e = "encode accountEncoder (map char_index s) 0"
  have small: "unat ?e < 2 ^ 56"
    using account_rank_less [OF assms] by (simp add: encode_account(1) [OF assms])
  have num: "name_to_number ?n = push_bit 8 ?e + ucast sub"
    using assms encode_account(2) [OF assms] subaccount_from_to_str [of s sub] name_chars_plus
    by (simp add: name_to_number_def name_to_number_sep_def subaccountSeparator_def account_name_ok)
  have hi: "drop_bit 8 (push_bit 8 ?e + ucast sub) = ?e" and lo: "ucast ((push_bit 8 ?e + ucast sub) AND 0xff) = sub"
    using low_byte_parts [OF small, of sub] by simp_all
  have "?e \<le> encoder_max accountEncoder"
    using name_rank_less [of 0 36 10 False True] assms encode_account(1) [OF assms]
      account.le_max_iff [of ?e, folded accountEncoder_def]
    by (simp add: account_rank_def account_name_ok)
  then obtain t where t: "account_name t" "encode accountEncoder (map char_index t) 0 = ?e"
    "map_option (map (\<lambda>idx. name_chars ! unat idx)) (decode accountEncoder ?e 0) = Some t"
    using decode_account by blast
  have "account_rank t = account_rank s"
    using t(1,2) assms by (metis encode_account(1))
  then have "t = s"
    using account_rank_mono [OF t(1) assms] account_rank_mono [OF assms t(1)]
    by (cases s t rule: linorder_cases) auto
  with t(3) show ?thesis
    by (auto simp: number_to_name_def number_to_name_sep_def subaccountSeparator_def num hi lo)
qed

theorem name_to_number_roundtrip_witness:
  "account_name ''a-b'' \<and>
   number_to_name (name_to_number (subaccount_to_str 12 ''a-b'' subaccountSeparator)) =
     Some (subaccount_to_str 12 ''a-b'' subaccountSeparator)"
proof -
  have "account_name ''a-b''"
    by (simp add: account_name_def name_chars_def sublist_Cons_right)
  with name_to_number_roundtrip [of "''a-b''" 12] show ?thesis by blast
qed

end
