(* ===== verification/Base64.thy ===== *)
theory Base64
  imports Prelude
begin

text \<open>
  Base64 and base64url: libraries/psibase/common/src/base64.cpp. Binary data are byte lists,
  encoded text is a string. The 32-bit shift buffer of \<open>transcode\<close> is kept at its width.
\<close>

section \<open>The code\<close>

definition base64Table :: "char \<Rightarrow> char \<Rightarrow> char list" where
  "base64Table c62 c63 =
     map char_of [65 :: nat ..< 91] @ map char_of [97 :: nat ..< 123]
     @ map char_of [48 :: nat ..< 58] @ [c62, c63]"

definition invert :: "char list \<Rightarrow> int list" where
  "invert tab =
     foldl (\<lambda>result (i, ch). result[of_char ch := int i]) (replicate 256 (-1)) (enumerate 0 tab)"

definition mask32 :: "nat \<Rightarrow> u32" where
  "mask32 bits = push_bit bits 1 - 1"

text \<open>The inner loop of \<open>transcode\<close>: emit groups of \<open>dst\<close> bits while enough are buffered.\<close>

fun emit :: "nat \<Rightarrow> u32 \<Rightarrow> nat \<Rightarrow> u32 list \<times> nat" where
  "emit dst buf bits =
     (if 0 < dst \<and> dst \<le> bits
      then let b = bits - dst; (out, rest) = emit dst buf b
           in ((drop_bit b buf AND mask32 dst) # out, rest)
      else ([], bits))"

declare emit.simps [simp del]

fun transcode_loop :: "nat \<Rightarrow> nat \<Rightarrow> u32 list \<Rightarrow> u32 \<Rightarrow> nat \<Rightarrow> u32 list \<times> u32 \<times> nat" where
  "transcode_loop src dst [] buf bits = ([], buf, bits)"
| "transcode_loop src dst (ch # chs) buf bits =
     (let buf' = push_bit src buf OR ch;
          (out, bits') = emit dst buf' (bits + src);
          (outs, r) = transcode_loop src dst chs buf' bits'
      in (out @ outs, r))"

definition transcode_encode :: "nat \<Rightarrow> nat \<Rightarrow> u32 list \<Rightarrow> u32 list" where
  "transcode_encode src dst input =
     (let (outs, buf, bits) = transcode_loop src dst input 0 0
      in if bits \<noteq> 0 then outs @ [push_bit (dst - bits) buf AND mask32 dst] else outs)"

definition transcode_decode :: "nat \<Rightarrow> nat \<Rightarrow> u32 list \<Rightarrow> u32 list \<times> bool" where
  "transcode_decode src dst input =
     (let (outs, buf, bits) = transcode_loop src dst input 0 0
      in (outs, buf AND mask32 bits = 0))"

definition base64tab :: "char list" where
  "base64tab = base64Table CHR ''+'' CHR ''/''"

definition base64invtab :: "int list" where
  "base64invtab = invert base64tab"

definition base64url_tab :: "char list" where
  "base64url_tab = base64Table CHR ''-'' CHR ''_''"

definition base64url_invtab :: "int list" where
  "base64url_invtab = invert base64url_tab"

definition padBase64 :: "string \<Rightarrow> string result" where
  "padBase64 s =
     (if length s mod 4 = 0 then Ok s
      else if length s mod 4 = 2 then Ok (s @ ''=='')
      else if length s mod 4 = 3 then Ok (s @ ''='')
      else Err Undefined)"

definition drop_pad :: "string \<Rightarrow> nat \<Rightarrow> string \<times> nat" where
  "drop_pad s padding = (if s \<noteq> [] \<and> last s = CHR ''='' then (butlast s, padding + 1) else (s, padding))"

definition unpadBase64 :: "string \<Rightarrow> string \<times> nat" where
  "unpadBase64 s = (let (s', padding) = drop_pad s 0 in drop_pad s' padding)"

definition sextets :: "int list \<Rightarrow> string \<Rightarrow> u32 list" where
  "sextets invtab s = map (\<lambda>ch. of_int (invtab ! of_char ch)) s"

definition validateBase64 :: "string \<Rightarrow> nat option" where
  "validateBase64 s =
     (if length s mod 4 \<noteq> 0 then None
      else let (t, padding) = unpadBase64 s
           in if \<exists>ch \<in> set t. base64invtab ! of_char ch = -1 then None
              else if \<not> snd (transcode_decode 6 8 (sextets base64invtab t)) then None
              else Some ((length t + padding) div 4 * 3 - padding))"

definition fromBase64 :: "string \<Rightarrow> bytes result" where
  "fromBase64 s =
     bind_result (check (length s mod 4 = 0) ''Invalid base64 encoding'') (\<lambda>_.
       let (t, padding) = unpadBase64 s
       in bind_result (check (\<forall>ch \<in> set t. base64invtab ! of_char ch \<noteq> -1) ''Invalid base64 encoding'') (\<lambda>_.
            let (outs, okay) = transcode_decode 6 8 (sextets base64invtab t)
            in bind_result (check okay ''Invalid base64 encoding'') (\<lambda>_. Ok (map ucast outs))))"

definition toBase64 :: "bytes \<Rightarrow> string result" where
  "toBase64 data = padBase64 (map (\<lambda>ch. base64tab ! unat ch) (transcode_encode 8 6 (map ucast data)))"

definition toBase64Url :: "bytes \<Rightarrow> string" where
  "toBase64Url s = map (\<lambda>ch. base64url_tab ! unat ch) (transcode_encode 8 6 (map ucast s))"

definition fromBase64Url :: "string \<Rightarrow> bytes result" where
  "fromBase64Url s =
     bind_result (check (\<forall>ch \<in> set s. base64url_invtab ! of_char ch \<noteq> -1) ''Invalid base64url encoding'') (\<lambda>_.
       let (outs, okay) = transcode_decode 6 8 (sextets base64url_invtab s)
       in bind_result (check okay ''Invalid base64url encoding'') (\<lambda>_. Ok (map ucast outs)))"

section \<open>Bit streams\<close>

text \<open>The \<open>n\<close> low bits of a word, most significant first.\<close>

definition bitsn :: "nat \<Rightarrow> 'a :: len word \<Rightarrow> bool list" where
  "bitsn n x = map (\<lambda>i. bit x (n - 1 - i)) [0..<n]"

definition stream :: "nat \<Rightarrow> 'a :: len word list \<Rightarrow> bool list" where
  "stream n xs = concat (map (bitsn n) xs)"

lemma length_bitsn [simp]: "length (bitsn n x) = n"
  by (simp add: bitsn_def)

lemma nth_bitsn [simp]: "i < n \<Longrightarrow> bitsn n x ! i = bit x (n - 1 - i)"
  by (simp add: bitsn_def)

lemma length_stream [simp]: "length (stream n xs) = n * length xs"
  by (induction xs) (simp_all add: stream_def)

lemma stream_simps [simp]:
  "stream n [] = []" "stream n (x # xs) = bitsn n x @ stream n xs"
  "stream n (xs @ ys) = stream n xs @ stream n ys"
  by (simp_all add: stream_def)

lemma bitsn_0 [simp]: "bitsn 0 x = []"
  by (simp add: bitsn_def)

lemma bitsn_split: "bitsn (b + n) x = bitsn n (drop_bit b x) @ bitsn b x"
  by (rule nth_equalityI) (auto simp: nth_append bit_simps add.commute intro!: arg_cong [where f = "bit x"])

lemma bit_mask32: "bit (mask32 n) k \<longleftrightarrow> k < n \<and> k < 32"
proof -
  have "mask32 n = mask n" by (simp add: mask32_def mask_eq_exp_minus_1 push_bit_eq_mult)
  then show ?thesis by (auto simp: bit_simps)
qed

lemma bitsn_mask: "n \<le> 32 \<Longrightarrow> bitsn n (x AND mask32 n) = bitsn n x"
  by (rule nth_equalityI) (auto simp: bit_simps bit_mask32)

lemma bitsn_inject:
  assumes "bitsn n x = bitsn n y" "\<forall>k \<ge> n. \<not> bit x k" "\<forall>k \<ge> n. \<not> bit y k"
  shows "x = y"
proof (rule bit_word_eqI)
  fix k
  show "bit x k = bit y k"
  proof (cases "k < n")
    case True
    then have "bitsn n x ! (n - 1 - k) = bit x k" "bitsn n y ! (n - 1 - k) = bit y k" by simp_all
    with assms(1) show ?thesis by simp
  next
    case False
    with assms(2,3) show ?thesis by simp
  qed
qed

lemma stream_prefix_unique:
  assumes "stream n xs @ r = stream n ys @ q" "length r < n" "length q < n"
    and "\<forall>x \<in> set xs \<union> set ys. \<forall>k \<ge> n. \<not> bit x k"
  shows "xs = ys \<and> r = q"
  using assms
proof (induction xs arbitrary: ys)
  case Nil
  have "n * length ys + length q = length r"
    using arg_cong [OF Nil.prems(1), of length] by simp
  with Nil.prems(2) have "ys = []" by (cases ys) auto
  with Nil show ?case by simp
next
  case (Cons x xs)
  have "ys \<noteq> []"
  proof
    assume "ys = []"
    with arg_cong [OF Cons.prems(1), of length] Cons.prems(3) show False by simp
  qed
  then obtain y ys' where ys: "ys = y # ys'" by (cases ys) auto
  with Cons.prems have "bitsn n x = bitsn n y" "stream n xs @ r = stream n ys' @ q" by simp_all
  with Cons.IH [of ys'] Cons.prems ys bitsn_inject [of n x y] show ?case by auto
qed

section \<open>What transcoding computes\<close>

definition fits_bits :: "nat \<Rightarrow> 'a :: len word list \<Rightarrow> bool" where
  "fits_bits n xs \<longleftrightarrow> (\<forall>x \<in> set xs. \<forall>k \<ge> n. \<not> bit x k)"

lemma fits_bits_simps [simp]:
  "fits_bits n []" "fits_bits n (x # xs) \<longleftrightarrow> (\<forall>k \<ge> n. \<not> bit x k) \<and> fits_bits n xs"
  "fits_bits n (xs @ ys) \<longleftrightarrow> fits_bits n xs \<and> fits_bits n ys"
  by (auto simp: fits_bits_def)

lemma emit_stream:
  assumes "0 < dst" "dst \<le> 32" "emit dst buf bits = (out, rest)"
  shows "bitsn bits buf = stream dst out @ bitsn rest buf \<and> rest < dst \<and> fits_bits dst out"
  using assms
proof (induction dst buf bits arbitrary: out rest rule: emit.induct)
  case (1 dst buf bits)
  show ?case
  proof (cases "dst \<le> bits")
    case False
    with 1 show ?thesis by (simp add: emit.simps [of dst buf bits])
  next
    case True
    define b where "b = bits - dst"
    obtain out' rest' where e: "emit dst buf b = (out', rest')" by fastforce
    have IH: "bitsn b buf = stream dst out' @ bitsn rest' buf \<and> rest' < dst \<and> fits_bits dst out'"
      using "1.IH" [OF _ b_def, where out = out' and rest = rest'] "1.prems" True e by simp
    have eq: "out = (drop_bit b buf AND mask32 dst) # out'" "rest = rest'"
      using "1.prems" True e by (simp_all add: emit.simps [of dst buf bits] b_def [symmetric] Let_def)
    have "bits = b + dst" using True by (simp add: b_def)
    with IH "1.prems" show ?thesis
      by (simp add: eq bitsn_split bitsn_mask) (auto simp: bit_simps bit_mask32)
  qed
qed

lemma bitsn_push:
  assumes "bits + src \<le> 32" "\<forall>k \<ge> src. \<not> bit (ch :: u32) k"
  shows "bitsn (bits + src) (push_bit src buf OR ch) = bitsn bits buf @ bitsn src ch"
proof -
  have "bitsn bits (drop_bit src (push_bit src buf OR ch)) = bitsn bits buf"
    using assms by (intro nth_equalityI) (auto simp: bit_simps)
  moreover have "bitsn src (push_bit src buf OR ch) = bitsn src ch"
    by (intro nth_equalityI) (auto simp: bit_simps)
  ultimately show ?thesis by (simp add: add.commute [of bits] bitsn_split)
qed

lemma transcode_loop_stream:
  assumes "0 < dst" "dst \<le> 32" "dst + src \<le> 33"
  shows "bits < dst \<Longrightarrow> fits_bits src input \<Longrightarrow>
    transcode_loop src dst input buf bits = (outs, buf', bits') \<Longrightarrow>
    bitsn bits buf @ stream src input = stream dst outs @ bitsn bits' buf' \<and> bits' < dst \<and> fits_bits dst outs"
proof (induction input arbitrary: buf bits outs)
  case Nil
  then show ?case by simp
next
  case (Cons ch chs)
  define b where "b = push_bit src buf OR ch"
  obtain out r where e: "emit dst b (bits + src) = (out, r)" by fastforce
  obtain outs' where t: "transcode_loop src dst chs b r = (outs', buf', bits')" and o: "outs = out @ outs'"
    using Cons.prems(3) e by (auto simp: b_def Let_def split: prod.splits)
  have "bitsn (bits + src) b = stream dst out @ bitsn r b \<and> r < dst \<and> fits_bits dst out"
    by (rule emit_stream [OF assms(1,2) e])
  moreover have "bitsn (bits + src) b = bitsn bits buf @ bitsn src ch"
    unfolding b_def using assms Cons.prems by (intro bitsn_push) auto
  moreover have "bitsn r b @ stream src chs = stream dst outs' @ bitsn bits' buf' \<and> bits' < dst \<and> fits_bits dst outs'"
    using calculation Cons.prems t by (intro Cons.IH) auto
  ultimately show ?case by (simp add: o) (metis append_assoc)
qed

lemma transcode_encode_stream:
  assumes "0 < dst" "dst \<le> 32" "dst + src \<le> 33" "fits_bits src input"
  shows "\<exists>k < dst. stream dst (transcode_encode src dst input) = stream src input @ replicate k False"
    and "fits_bits dst (transcode_encode src dst input)"
proof -
  obtain outs buf bits where t: "transcode_loop src dst input 0 0 = (outs, buf, bits)"
    by (metis prod_cases3)
  have s: "stream src input = stream dst outs @ bitsn bits buf" "bits < dst" "fits_bits dst outs"
    using transcode_loop_stream [OF assms(1,2,3) _ assms(4) t] assms(1) by auto
  have last: "bitsn dst (push_bit (dst - bits) buf AND mask32 dst) = bitsn bits buf @ replicate (dst - bits) False"
    using s(2) assms(2)
    by (intro nth_equalityI) (auto simp: nth_append bit_simps bit_mask32 intro!: arg_cong [where f = "bit buf"])
  have "\<exists>k < dst. stream dst (transcode_encode src dst input) = stream src input @ replicate k False"
  proof (cases "bits = 0")
    case True
    with s t assms(1) show ?thesis
      by (intro exI [of _ 0]) (simp add: transcode_encode_def)
  next
    case False
    with s t assms(1) last show ?thesis
      by (intro exI [of _ "dst - bits"]) (simp add: transcode_encode_def)
  qed
  then show "\<exists>k < dst. stream dst (transcode_encode src dst input) = stream src input @ replicate k False" .
  show "fits_bits dst (transcode_encode src dst input)"
    using s(3) t by (auto simp: transcode_encode_def bit_simps bit_mask32)
qed

lemma transcode_decode_stream:
  assumes "0 < dst" "dst \<le> 32" "dst + src \<le> 33" "fits_bits src input"
    and "transcode_decode src dst input = (outs, okay)"
  obtains r where "stream src input = stream dst outs @ r" "length r < dst" "fits_bits dst outs"
    "okay \<longleftrightarrow> r = replicate (length r) False"
proof -
  obtain outs' buf bits where t: "transcode_loop src dst input 0 0 = (outs', buf, bits)"
    by (metis prod_cases3)
  have o: "outs' = outs" and ok: "okay = (buf AND mask32 bits = 0)"
    using assms(5) t by (simp_all add: transcode_decode_def)
  have s: "stream src input = stream dst outs @ bitsn bits buf" "bits < dst" "fits_bits dst outs"
    using transcode_loop_stream [OF assms(1,2,3) _ assms(4) t] assms(1) o by auto
  have "okay \<longleftrightarrow> bitsn bits buf = replicate bits False"
  proof
    assume okay
    then have z: "\<not> bit (buf AND mask32 bits) k" for k by (simp add: ok)
    have "\<not> bit buf k" if "k < bits" for k
      using z [of k] that s(2) assms(2) by (auto simp: bit_simps bit_mask32)
    then show "bitsn bits buf = replicate bits False"
      by (intro nth_equalityI) auto
  next
    assume r: "bitsn bits buf = replicate bits False"
    have "\<not> bit buf k" if "k < bits" for k
      using arg_cong [OF r, of "\<lambda>l. l ! (bits - 1 - k)"] that by simp
    then show okay unfolding ok by (intro bit_word_eqI) (auto simp: bit_simps bit_mask32)
  qed
  with s show thesis by (intro that [of "bitsn bits buf"]) auto
qed

section \<open>Alphabets\<close>

lemma invert_foldl_other:
  "c \<notin> set tab \<Longrightarrow>
   foldl (\<lambda>result (i, ch). result[of_char ch := int i]) r (enumerate n tab) ! of_char c = r ! of_char c"
  by (induction tab arbitrary: r n) auto

lemma invert_foldl_nth:
  "distinct tab \<Longrightarrow> length r = 256 \<Longrightarrow> i < length tab \<Longrightarrow>
   foldl (\<lambda>result (i, ch). result[of_char ch := int i]) r (enumerate n tab) ! of_char (tab ! i) = int (n + i)"
proof (induction tab arbitrary: r n i)
  case Nil
  then show ?case by simp
next
  case (Cons c tab)
  have c: "of_char c < (256 :: nat)" by simp
  show ?case
  proof (cases i)
    case 0
    with Cons.prems c show ?thesis by (simp add: invert_foldl_other)
  next
    case (Suc j)
    with Cons.prems Cons.IH [of "r[of_char c := int n]" j "Suc n"] show ?thesis by simp
  qed
qed

lemma leftover_bits:
  fixes n k r :: nat
  assumes "6 * n = 8 * k + r" "r < 8" "n mod 4 \<noteq> 1"
  shows "r < 6"
proof (rule ccontr)
  assume "\<not> r < 6"
  moreover have "even (8 * k + r)" by (simp add: assms(1) [symmetric])
  then have "r \<noteq> 7" by auto
  ultimately have "r = 6" using assms(2) by linarith
  then have "n = 4 * (n - k - 1) + 1" using assms(1) by linarith
  then show False using assms(3) by (metis add.commute mod_mult_self2 mod_less one_less_numeral_iff semiring_norm(76))
qed

locale base64_alphabet =
  fixes tab :: "char list"
  assumes distinct_tab: "distinct tab" and length_tab: "length tab = 64"
    and pad_notin: "CHR ''='' \<notin> set tab"
begin

lemma invert_nth: "i < 64 \<Longrightarrow> invert tab ! of_char (tab ! i) = int i"
  using invert_foldl_nth [OF distinct_tab, of _ i 0] by (simp add: invert_def length_tab)

lemma invert_bad: "invert tab ! of_char c = -1 \<longleftrightarrow> c \<notin> set tab"
proof
  assume "invert tab ! of_char c = -1"
  then show "c \<notin> set tab" using invert_nth length_tab by (auto simp: in_set_conv_nth)
next
  assume "c \<notin> set tab"
  moreover have "of_char c < (256 :: nat)" by simp
  ultimately show "invert tab ! of_char c = -1" by (simp add: invert_def invert_foldl_other)
qed

abbreviation encode_text :: "u32 list \<Rightarrow> string" where
  "encode_text xs \<equiv> map (\<lambda>ch. tab ! unat ch) xs"

lemma fits_6_less:
  assumes "fits_bits 6 xs" "x \<in> set xs"
  shows "unat (x :: u32) < 64"
proof -
  have "take_bit 6 x = x"
  proof (rule bit_word_eqI)
    fix n
    have "\<not> bit x n" if "6 \<le> n" using assms that by (auto simp: fits_bits_def)
    then show "bit (take_bit 6 x) n = bit x n" by (cases "n < 6") (auto simp: bit_simps)
  qed
  then have "unat x = take_bit 6 (unat x)" by (metis unsigned_take_bit_eq)
  also have "\<dots> < 2 ^ 6" by (rule take_bit_nat_less_exp)
  finally show ?thesis by simp
qed

lemma sextets_encode_text:
  assumes "fits_bits 6 xs"
  shows "sextets (invert tab) (encode_text xs) = xs" and "set (encode_text xs) \<subseteq> set tab"
proof -
  have "\<forall>x \<in> set xs. unat x < 64" using fits_6_less [OF assms] by blast
  then show "sextets (invert tab) (encode_text xs) = xs" "set (encode_text xs) \<subseteq> set tab"
    by (auto simp: sextets_def invert_nth length_tab intro!: map_idI)
qed

lemma encode_text_sextets:
  assumes "set s \<subseteq> set tab"
  shows "encode_text (sextets (invert tab) s) = s" and "fits_bits 6 (sextets (invert tab) s)"
proof -
  have ix: "\<exists>i < 64. c = tab ! i \<and> (of_int (invert tab ! of_char c) :: u32) = of_nat i" if "c \<in> set s" for c
    using that assms invert_nth length_tab by (force simp: in_set_conv_nth)
  then have "\<forall>c \<in> set s. tab ! unat (of_int (invert tab ! of_char c) :: u32) = c"
    by (force simp: unat_of_nat)
  then show "encode_text (sextets (invert tab) s) = s"
    by (auto simp: sextets_def intro!: map_idI)
  have "\<not> bit (of_nat i :: u32) k" if "i < 64" "6 \<le> k" for i k
  proof -
    have "take_bit 6 i = i" using that by (simp add: take_bit_nat_eq_self_iff)
    then have "bit i k = (k < 6 \<and> bit i k)" by (metis bit_take_bit_iff)
    with that show ?thesis by (auto simp: bit_simps)
  qed
  with ix show "fits_bits 6 (sextets (invert tab) s)"
    unfolding fits_bits_def sextets_def by fastforce
qed

lemma fits_8_ucast: "fits_bits 8 (map (ucast :: u8 \<Rightarrow> u32) d)"
  by (auto simp: fits_bits_def bit_simps dest: bit_imp_le_length)

lemma ucast_8_32: "fits_bits 8 xs \<Longrightarrow> map (ucast :: u8 \<Rightarrow> u32) (map ucast xs) = xs"
  by (auto simp: fits_bits_def bit_simps intro!: map_idI bit_word_eqI) (metis not_le)

lemma ucast_32_8: "map (ucast :: u32 \<Rightarrow> u8) (map ucast d) = d"
  by (auto intro!: map_idI simp: unsigned_ucast_eq take_bit_word_eq_self)

lemma decode_encode_text:
  "transcode_decode 6 8 (sextets (invert tab) (encode_text (transcode_encode 8 6 (map ucast (d :: bytes))))) =
     (map ucast d, True)"
proof -
  let ?in = "map ucast d :: u32 list"
  let ?e = "transcode_encode 8 6 ?in"
  obtain k where k: "k < 6" "stream 6 ?e = stream 8 ?in @ replicate k False" and e6: "fits_bits 6 ?e"
    using transcode_encode_stream [of 6 8 ?in] fits_8_ucast [of d] by auto
  obtain outs okay where t: "transcode_decode 6 8 ?e = (outs, okay)" by fastforce
  obtain r where r: "stream 6 ?e = stream 8 outs @ r" "length r < 8" "fits_bits 8 outs"
    "okay \<longleftrightarrow> r = replicate (length r) False"
    using transcode_decode_stream [OF _ _ _ e6 t] by auto
  have "outs = ?in \<and> r = replicate k False"
    using stream_prefix_unique [of 8 outs r ?in "replicate k False"] r(1,2,3) k fits_8_ucast [of d]
    by (auto simp: fits_bits_def)
  with r(4) t show ?thesis by (simp add: sextets_encode_text [OF e6])
qed

lemma encode_decode_text:
  assumes s: "set s \<subseteq> set tab" and len: "length s mod 4 \<noteq> 1"
    and t: "transcode_decode 6 8 (sextets (invert tab) s) = (outs, True)"
  shows "encode_text (transcode_encode 8 6 (map ucast (map ucast outs :: bytes))) = s"
    and "6 * length s < 8 * length outs + 8 \<and> 8 * length outs \<le> 6 * length s"
proof -
  let ?x = "sextets (invert tab) s"
  have x6: "fits_bits 6 ?x" by (rule encode_text_sextets(2) [OF s])
  obtain r where r: "stream 6 ?x = stream 8 outs @ r" "length r < 8" "fits_bits 8 outs" "r = replicate (length r) False"
    using transcode_decode_stream [OF _ _ _ x6 t] by auto
  have L: "6 * length s = 8 * length outs + length r"
    using arg_cong [OF r(1), of length] by (simp add: sextets_def)
  then show "6 * length s < 8 * length outs + 8 \<and> 8 * length outs \<le> 6 * length s"
    using r(2) by simp
  let ?e = "transcode_encode 8 6 outs"
  obtain k where k: "k < 6" "stream 6 ?e = stream 8 outs @ replicate k False" and e6: "fits_bits 6 ?e"
    using transcode_encode_stream [of 6 8 outs] r(3) by auto
  have M: "6 * length ?e = 8 * length outs + k"
    using arg_cong [OF k(2), of length] by simp
  have "length r < 6" by (rule leftover_bits [OF L r(2) len])
  then have "length s = length ?e" using L M k(1) by linarith
  with L M have "length r = k" by linarith
  with r(1,4) k(2) have "stream 6 ?x @ [] = stream 6 ?e @ []" by simp
  then have "?x = ?e"
    using stream_prefix_unique [of 6 ?x "[]" ?e "[]"] x6 e6 by (auto simp: fits_bits_def)
  then show "encode_text (transcode_encode 8 6 (map ucast (map ucast outs :: bytes))) = s"
    using encode_text_sextets(1) [OF s] by (simp add: ucast_8_32 [OF r(3)] del: map_map)
qed

lemma length_encode_text:
  "length (transcode_encode 8 6 (map ucast (d :: bytes))) mod 4 \<noteq> 1"
proof -
  let ?e = "transcode_encode 8 6 (map ucast d :: u32 list)"
  obtain k where k: "k < 6" "stream 6 ?e = stream 8 (map ucast d :: u32 list) @ replicate k False"
    using transcode_encode_stream [of 6 8 "map ucast d"] fits_8_ucast [of d] by auto
  have len: "6 * length ?e = 8 * length d + k" using arg_cong [OF k(2), of length] by simp
  show ?thesis
  proof
    assume "length ?e mod 4 = 1"
    then obtain q where "length ?e = 4 * q + 1" by (metis mult_div_mod_eq)
    with len have "24 * q + 6 = 8 * length d + k" by simp
    with k(1) show False by presburger
  qed
qed

end

section \<open>Padding\<close>

lemma unpad_pad:
  assumes "CHR ''='' \<notin> set t" "p \<le> 2"
  shows "unpadBase64 (t @ replicate p CHR ''='') = (t, p)"
proof -
  have t: "t = [] \<or> last t \<noteq> CHR ''=''" using assms(1) last_in_set by fastforce
  consider "p = 0" | "p = 1" | "p = 2" using assms(2) by linarith
  then show ?thesis
    using t by cases (auto simp: unpadBase64_def drop_pad_def numeral_2_eq_2 butlast_append)
qed

lemma unpad_split:
  assumes "unpadBase64 s = (t, p)"
  shows "s = t @ replicate p CHR ''=''" and "p \<le> 2"
proof -
  have one: "u = fst (drop_pad u n) @ replicate (snd (drop_pad u n) - n) CHR ''=''"
    "n \<le> snd (drop_pad u n)" "snd (drop_pad u n) \<le> n + 1" for u n
    by (auto simp: drop_pad_def) (metis append_butlast_last_id)
  obtain u n where un: "drop_pad s 0 = (u, n)" by fastforce
  have tp: "drop_pad u n = (t, p)" using assms un by (simp add: unpadBase64_def)
  show "p \<le> 2" using one(3) [of s 0] one(3) [of u n] un tp by simp
  have "s = u @ replicate n CHR ''=''" using one(1) [of s 0] un by simp
  also have "u = t @ replicate (p - n) CHR ''=''" using one(1) [of u n] tp by simp
  finally show "s = t @ replicate p CHR ''=''"
    using one(2) [of n u] tp by (simp add: replicate_add [symmetric])
qed

lemma padBase64_replicate:
  "length t mod 4 \<noteq> 1 \<Longrightarrow> padBase64 t = Ok (t @ replicate ((4 - length t mod 4) mod 4) CHR ''='')"
  by (auto simp: padBase64_def numeral_2_eq_2 numeral_3_eq_3)

lemma base64Table_eq:
  "base64Table c62 c63 =
     ''ABCDEFGHIJKLMNOPQRSTUVWXYZabcdefghijklmnopqrstuvwxyz0123456789'' @ [c62, c63]"
  by (simp add: base64Table_def upt_rec_numeral char_of_def bit_Suc_0_iff)

interpretation std64: base64_alphabet base64tab
  by unfold_locales (simp_all add: base64tab_def base64Table_eq)

interpretation url64: base64_alphabet base64url_tab
  by unfold_locales (simp_all add: base64url_tab_def base64Table_eq)

section \<open>Properties\<close>

lemma fromBase64_unfold:
  assumes "unpadBase64 s = (t, p)" "transcode_decode 6 8 (sextets base64invtab t) = (outs, okay)"
  shows "fromBase64 s = (if length s mod 4 = 0 \<and> set t \<subseteq> set base64tab \<and> okay
    then Ok (map ucast outs) else Err (Abort ''Invalid base64 encoding''))"
proof -
  have "(\<forall>ch \<in> set t. base64invtab ! of_char ch \<noteq> -1) \<longleftrightarrow> set t \<subseteq> set base64tab"
    using std64.invert_bad by (auto simp: base64invtab_def)
  then show ?thesis by (simp add: fromBase64_def assms result_simps)
qed

lemma pad_count:
  fixes n p :: nat
  assumes "(n + p) mod 4 = 0" "p \<le> 2"
  shows "n mod 4 \<noteq> 1 \<and> (4 - n mod 4) mod 4 = p"
proof -
  have m: "(n mod 4 + p) mod 4 = 0" using assms(1) by (simp add: mod_add_left_eq)
  have "n mod 4 = 0 \<or> n mod 4 = 1 \<or> n mod 4 = 2 \<or> n mod 4 = 3" "p = 0 \<or> p = 1 \<or> p = 2"
    using assms(2) by linarith+
  then show ?thesis using m by (elim disjE) simp_all
qed

lemma pad_fills:
  fixes n :: nat
  assumes "n mod 4 \<noteq> 1"
  shows "(n + (4 - n mod 4) mod 4) mod 4 = 0" "(4 - n mod 4) mod 4 \<le> 2"
proof -
  have "n mod 4 = 0 \<or> n mod 4 = 2 \<or> n mod 4 = 3" using assms by linarith
  then have "(n mod 4 + (4 - n mod 4) mod 4) mod 4 = 0 \<and> (4 - n mod 4) mod 4 \<le> 2"
    by (elim disjE) simp_all
  then show "(n + (4 - n mod 4) mod 4) mod 4 = 0" "(4 - n mod 4) mod 4 \<le> 2"
    by (simp_all only: mod_add_left_eq)
qed

lemma decoded_size:
  fixes n p k :: nat
  assumes "(n + p) mod 4 = 0" "p \<le> 2" "6 * n < 8 * k + 8" "8 * k \<le> 6 * n"
  shows "(n + p) div 4 * 3 - p = k"
proof -
  obtain q where q: "n + p = 4 * q" using assms(1) by auto
  consider "p = 0" | "p = 1" | "p = 2" using assms(2) by linarith
  then have "4 * q div 4 * 3 - p = k" using q assms(3,4) by cases auto
  then show ?thesis by (simp add: q)
qed

text \<open>
  C30. Decoding accepts exactly the output of encoding: \<open>fromBase64 s\<close> succeeds with \<open>d\<close> if and
  only if \<open>toBase64 d\<close> is \<open>s\<close>. So encoding never fails, decoding inverts it, and no second
  spelling of the same data (wrong padding, non-zero trailing bits) is accepted.
\<close>

theorem fromBase64_iff_toBase64: "fromBase64 s = Ok d \<longleftrightarrow> toBase64 d = Ok s"
proof
  assume f: "fromBase64 s = Ok d"
  obtain t p where tp: "unpadBase64 s = (t, p)" by fastforce
  obtain outs okay where dec: "transcode_decode 6 8 (sextets base64invtab t) = (outs, okay)"
    by fastforce
  have len: "length s mod 4 = 0" and t: "set t \<subseteq> set base64tab" and ok: "okay" and d: "d = map ucast outs"
    using f by (auto simp: fromBase64_unfold [OF tp dec] split: if_splits)
  have s: "s = t @ replicate p CHR ''=''" and p: "p \<le> 2" using unpad_split [OF tp] .
  have "length t mod 4 \<noteq> 1 \<and> (4 - length t mod 4) mod 4 = p"
    using pad_count [of "length t" p] len p by (simp add: s)
  moreover from this have "std64.encode_text (transcode_encode 8 6 (map ucast d)) = t"
    using std64.encode_decode_text(1) [OF t] dec ok by (simp add: d base64invtab_def del: map_map)
  ultimately show "toBase64 d = Ok s"
    by (simp add: toBase64_def padBase64_replicate s)
next
  assume e: "toBase64 d = Ok s"
  define t where "t = std64.encode_text (transcode_encode 8 6 (map ucast d))"
  define p where "p = (4 - length t mod 4) mod 4"
  have l: "length t mod 4 \<noteq> 1" using std64.length_encode_text [of d] by (simp add: t_def)
  then have s: "s = t @ replicate p CHR ''=''"
    using e by (simp add: toBase64_def t_def [symmetric] padBase64_replicate p_def)
  have tab: "set t \<subseteq> set base64tab"
    unfolding t_def
    by (rule std64.sextets_encode_text(2))
      (rule transcode_encode_stream(2), use std64.fits_8_ucast [of d] in auto)
  have "p \<le> 2" using pad_fills(2) [OF l] by (simp add: p_def)
  then have tp: "unpadBase64 s = (t, p)"
    unfolding s using tab std64.pad_notin by (intro unpad_pad) auto
  have dec: "transcode_decode 6 8 (sextets base64invtab t) = (map ucast d, True)"
    using std64.decode_encode_text [of d] by (simp add: t_def base64invtab_def)
  have "length s mod 4 = 0" using pad_fills(1) [OF l] by (simp add: s p_def)
  with tab show "fromBase64 s = Ok d"
    by (simp add: fromBase64_unfold [OF tp dec] std64.ucast_32_8 del: map_map)
qed

text \<open>
  C31. \<open>validateBase64\<close> predicts \<open>fromBase64\<close>: it returns a size exactly when the string decodes,
  and the size is the number of decoded bytes.
\<close>

theorem validateBase64_iff_decodes:
  "validateBase64 s = Some n \<longleftrightarrow> (\<exists>d. fromBase64 s = Ok d \<and> length d = n)"
proof -
  obtain t p where tp: "unpadBase64 s = (t, p)" by fastforce
  obtain outs okay where dec: "transcode_decode 6 8 (sextets base64invtab t) = (outs, okay)"
    by fastforce
  have s: "s = t @ replicate p CHR ''=''" and p: "p \<le> 2" using unpad_split [OF tp] .
  have bad: "(\<exists>ch \<in> set t. base64invtab ! of_char ch = -1) \<longleftrightarrow> \<not> set t \<subseteq> set base64tab"
    using std64.invert_bad by (auto simp: base64invtab_def)
  have size: "(length t + p) div 4 * 3 - p = length outs"
    if "length s mod 4 = 0" "set t \<subseteq> set base64tab" "okay"
  proof -
    have lt: "length t mod 4 \<noteq> 1" using pad_count [of "length t" p] that(1) p by (simp add: s)
    then have "6 * length t < 8 * length outs + 8 \<and> 8 * length outs \<le> 6 * length t"
      using std64.encode_decode_text(2) [OF that(2)] dec that(3) by (simp add: base64invtab_def)
    moreover have "(length t + p) mod 4 = 0" using that(1) by (simp add: s)
    ultimately show ?thesis using p by (simp add: decoded_size)
  qed
  show ?thesis
    using size by (auto simp: validateBase64_def tp dec bad fromBase64_unfold [OF tp dec])
qed

text \<open>C32. Base64url round trip: decoding the encoding of any byte string gives it back.\<close>

theorem fromBase64Url_toBase64Url: "fromBase64Url (toBase64Url d) = Ok d"
proof -
  let ?t = "toBase64Url d"
  have tab: "set ?t \<subseteq> set base64url_tab"
    unfolding toBase64Url_def
    by (rule url64.sextets_encode_text(2))
      (rule transcode_encode_stream(2), use url64.fits_8_ucast [of d] in auto)
  have "\<forall>ch \<in> set ?t. base64url_invtab ! of_char ch \<noteq> -1"
    using tab url64.invert_bad by (auto simp: base64url_invtab_def)
  moreover have "transcode_decode 6 8 (sextets base64url_invtab ?t) = (map ucast d, True)"
    using url64.decode_encode_text [of d] by (simp add: toBase64Url_def base64url_invtab_def)
  ultimately show ?thesis
    by (simp add: fromBase64Url_def result_simps url64.ucast_32_8 del: map_map)
qed

end
