(* ===== verification/Ordered_Map.thy ===== *)
theory Ordered_Map
  imports Prelude
begin

text \<open>
  \<open>std::map\<close> as the program uses it: an association list with strictly increasing keys, so that
  iteration is iteration over the list. An iterator is a key of the list, and the range
  \<open>[iter, end)\<close> a suffix of it.
\<close>

type_synonym ('k, 'v) ordered_map = "('k \<times> 'v) list"

definition ordered :: "('k :: linorder, 'v) ordered_map \<Rightarrow> bool" where
  "ordered m = sorted_wrt (<) (map fst m)"

text \<open>\<open>insert\<close> and \<open>try_emplace\<close>: a key that is present keeps its value.\<close>

primrec map_insert :: "'k :: linorder \<Rightarrow> 'v \<Rightarrow> ('k, 'v) ordered_map \<Rightarrow> ('k, 'v) ordered_map" where
  "map_insert k v [] = [(k, v)]"
| "map_insert k v (p # m) =
     (if k < fst p then (k, v) # p # m
      else if k = fst p then p # m
      else p # map_insert k v m)"

definition map_erase :: "'k \<Rightarrow> ('k, 'v) ordered_map \<Rightarrow> ('k, 'v) ordered_map" where
  "map_erase k m = filter (\<lambda>p. fst p \<noteq> k) m"

text \<open>\<open>iter->second = v\<close> for the iterator at \<open>k\<close>.\<close>

definition map_assign :: "'k \<Rightarrow> 'v \<Rightarrow> ('k, 'v) ordered_map \<Rightarrow> ('k, 'v) ordered_map" where
  "map_assign k v m = map (\<lambda>p. if fst p = k then (k, v) else p) m"

text \<open>\<open>erase(find(k), end())\<close>: nothing is erased when the key is not there.\<close>

definition map_erase_from :: "'k \<Rightarrow> ('k, 'v) ordered_map \<Rightarrow> ('k, 'v) ordered_map" where
  "map_erase_from k m = (if k \<in> fst ` set m then takeWhile (\<lambda>p. fst p \<noteq> k) m else m)"

section \<open>Lemmas\<close>

named_theorems omap

lemma ordered_Nil [simp]: "ordered []"
  by (simp add: ordered_def)

lemma ordered_Cons [simp]: "ordered (p # m) \<longleftrightarrow> (\<forall>q \<in> set m. fst p < fst q) \<and> ordered m"
  by (auto simp: ordered_def)

lemma ordered_append:
  "ordered (xs @ ys) \<longleftrightarrow> ordered xs \<and> ordered ys \<and> (\<forall>x \<in> set xs. \<forall>y \<in> set ys. fst x < fst y)"
  by (auto simp: ordered_def sorted_wrt_append)

lemma ordered_distinct: "ordered m \<Longrightarrow> distinct (map fst m)"
  by (induction m) force+

lemma ordered_map_of: "ordered m \<Longrightarrow> map_of m k = Some v \<longleftrightarrow> (k, v) \<in> set m"
  by (simp add: ordered_distinct)

lemma set_map_insert: "ordered m \<Longrightarrow>
  set (map_insert k v m) = (if k \<in> fst ` set m then set m else insert (k, v) (set m))"
  by (induction m) (auto simp: image_iff)

lemma ordered_map_insert [omap]: "ordered m \<Longrightarrow> ordered (map_insert k v m)"
  by (induction m) (auto simp: set_map_insert split: if_splits)

lemma map_of_map_insert [omap]: "ordered m \<Longrightarrow>
  map_of (map_insert k v m) = (case map_of m k of None \<Rightarrow> (map_of m)(k \<mapsto> v) | Some _ \<Rightarrow> map_of m)"
proof (induction m)
  case (Cons p m)
  have "map_of m k = None" if "k < fst p"
  proof (rule ccontr)
    assume "map_of m k \<noteq> None"
    then obtain x where "(k, x) \<in> set m" by (auto dest: map_of_SomeD)
    with Cons.prems that show False by fastforce
  qed
  with Cons show ?case by (auto simp: fun_eq_iff split: option.splits)
qed simp

lemma ordered_filter [omap]: "ordered m \<Longrightarrow> ordered (filter P m)"
  by (simp add: ordered_def sorted_wrt_map sorted_wrt_filter)

lemma ordered_map_erase [omap]: "ordered m \<Longrightarrow> ordered (map_erase k m)"
  by (simp add: map_erase_def ordered_filter)

lemma map_of_map_erase [omap]: "map_of (map_erase k m) = (map_of m)(k := None)"
  by (induction m) (auto simp: map_erase_def fun_eq_iff)

lemma ordered_map_assign [omap]: "ordered m \<Longrightarrow> ordered (map_assign k v m)"
proof -
  have "map fst (map_assign k v m) = map fst m" by (simp add: map_assign_def)
  then show "ordered m \<Longrightarrow> ordered (map_assign k v m)" by (simp add: ordered_def)
qed

lemma map_of_map_assign [omap]:
  "map_of (map_assign k v m) = (case map_of m k of None \<Rightarrow> map_of m | Some _ \<Rightarrow> (map_of m)(k \<mapsto> v))"
  by (induction m) (auto simp: map_assign_def fun_eq_iff split: option.splits)

lemma map_erase_from_split:
  assumes "ordered (xs @ (k, v) # ys)"
  shows "map_erase_from k (xs @ (k, v) # ys) = xs"
proof -
  have "\<forall>p \<in> set xs. fst p \<noteq> k" using assms by (force simp: ordered_append)
  then have "takeWhile (\<lambda>p. fst p \<noteq> k) (xs @ (k, v) # ys) = xs"
    by (simp add: takeWhile_append2)
  then show ?thesis by (simp add: map_erase_from_def)
qed

lemma ordered_in_index [dest]: "map_of m k = Some v \<Longrightarrow> (k, v) \<in> set m"
  by (rule map_of_SomeD)

section \<open>Adopting a sequence\<close>

text \<open>
  What \<open>boost::container::flat_map::adopt_sequence\<close> documents: the map has the keys of the sequence, in
  order and without repetition, each with a value the sequence has for it. \<open>adopt_first\<close> is one function
  that does.
\<close>

definition adopts :: "(('k :: linorder \<times> 'v) list \<Rightarrow> ('k, 'v) ordered_map) \<Rightarrow> bool" where
  "adopts adopt \<longleftrightarrow> (\<forall>xs. ordered (adopt xs) \<and> set (adopt xs) \<subseteq> set xs \<and> fst ` set (adopt xs) = fst ` set xs)"

definition adopt_first :: "('k :: linorder \<times> 'v) list \<Rightarrow> ('k, 'v) ordered_map" where
  "adopt_first xs = foldl (\<lambda>m p. map_insert (fst p) (snd p) m) [] xs"

lemma adopts_adopt_first: "adopts adopt_first"
proof -
  have "ordered m \<Longrightarrow> ordered (foldl (\<lambda>m p. map_insert (fst p) (snd p) m) m xs) \<and>
    set (foldl (\<lambda>m p. map_insert (fst p) (snd p) m) m xs) \<subseteq> set m \<union> set xs \<and>
    fst ` set (foldl (\<lambda>m p. map_insert (fst p) (snd p) m) m xs) = fst ` set m \<union> fst ` set xs"
    for m :: "('a :: linorder, 'b) ordered_map" and xs
  proof (induction xs arbitrary: m)
    case (Cons x xs)
    have "ordered (map_insert (fst x) (snd x) m)" using Cons.prems by (rule ordered_map_insert)
    note IH = Cons.IH [OF this]
    have "fst ` set (map_insert (fst x) (snd x) m) = insert (fst x) (fst ` set m)"
      "set (map_insert (fst x) (snd x) m) \<subseteq> insert x (set m)"
      using Cons.prems by (auto simp: set_map_insert)
    with IH show ?case by (simp only: foldl_Cons list.set image_insert) blast
  qed simp
  from this [of "[]"] show ?thesis by (simp add: adopts_def adopt_first_def)
qed

end
