(* ===== verification/Blocks.thy ===== *)
theory Blocks
  imports Ordered_Map "HOL-Library.Product_Lexorder"
begin

text \<open>
  The block format: libraries/psibase/common/include/psibase/block.hpp, block.cpp, and
  \<open>getBlockNum\<close> of ForkDb.hpp. A \<open>Checksum256\<close> is the list of its bytes, compared
  lexicographically like \<open>std::array<uint8_t, 32>\<close>. The hash of a serialised header is code
  outside this model (fracpack and SHA-256) and a parameter of the definitions that use it.
\<close>

type_synonym account = u64
type_synonym checksum = bytes
type_synonym block_id = checksum
type_synonym block_num = u32
type_synonym term_num = u32

section \<open>Data\<close>

record claim =
  claim_service :: account
  claim_rawData :: bytes

record producer =
  producer_name :: account
  producer_auth :: claim

datatype consensus_data = CftConsensus "producer list" | BftConsensus "producer list"

record auth_account =
  codeNum :: account
  codeHash :: checksum
  vmType :: u8
  vmVersion :: u8

record vm_options =
  max_mutable_global_bytes :: u32
  max_pages :: u32
  max_table_elements :: u32
  max_stack_bytes :: u32

record wasm_config =
  numExecutionMemories :: u32
  vmOptions :: vm_options

definition default_wasm_config :: wasm_config where
  "default_wasm_config = \<lparr>numExecutionMemories = 0, vmOptions =
     \<lparr>max_mutable_global_bytes = 0, max_pages = 0, max_table_elements = 0, max_stack_bytes = 0\<rparr>\<rparr>"

record consensus =
  consensus_data :: consensus_data
  consensus_services :: "auth_account list"
  consensus_wasmConfig :: wasm_config

record header_code =
  hc_vmType :: u8
  hc_vmVersion :: u8
  hc_code :: bytes

record pending_consensus =
  pending_consensus :: consensus
  pending_blockNum :: block_num

record joint_consensus =
  jc_current :: consensus
  jc_next :: "pending_consensus option"

record block_header =
  previous :: block_id
  blockNum :: block_num
  blockTime :: u64
  header_producer :: account
  termNum :: term_num
  commitNum :: block_num
  consensusState :: checksum
  trxMerkleRoot :: checksum
  eventMerkleRoot :: checksum
  newConsensus :: "consensus option"
  authCode :: "header_code list option"

text \<open>Transactions are kept in their serialised form, which the block only carries.\<close>

record block =
  block_header :: block_header
  block_transactions :: "bytes list"

record signed_block =
  signed_block :: block
  block_signature :: bytes
  auxConsensusData :: "bytes option"

record block_info =
  info_header :: block_header
  info_blockId :: block_id

type_synonym block_order = "term_num \<times> block_num \<times> block_id"

record xid =
  xid_id :: block_id
  xid_num :: block_num

section \<open>Block ids\<close>

text \<open>The number is stored in the first four bytes of the id, most significant byte first.\<close>

definition getBlockNum :: "block_id \<Rightarrow> block_num" where
  "getBlockNum bid = foldl (\<lambda>result b. push_bit 8 result OR ucast b) 0 (take 4 bid)"

definition num_bytes :: "block_num \<Rightarrow> bytes" where
  "num_bytes n = [ucast (drop_bit 24 n), ucast (drop_bit 16 n), ucast (drop_bit 8 n), ucast n]"

definition makeBlockId :: "(block_header \<Rightarrow> checksum) \<Rightarrow> block_header \<Rightarrow> block_id" where
  "makeBlockId sha256 h = sha256 (h\<lparr>authCode := None\<rparr>)"

definition mk_block_info :: "(block_header \<Rightarrow> checksum) \<Rightarrow> block_header \<Rightarrow> block_info" where
  "mk_block_info sha256 h =
     \<lparr>info_header = h, info_blockId = num_bytes (blockNum h) @ drop 4 (makeBlockId sha256 h)\<rparr>"

definition BlockSignatureInfo :: "block_info \<Rightarrow> bytes" where
  "BlockSignatureInfo info = [0x00, 0xce, 0xa8, 0x42] @ info_blockId info"

section \<open>Lemmas\<close>

lemma num_bytes_bits:
  "((push_bit 24 (ucast (ucast (drop_bit 24 n) :: u8)) OR push_bit 16 (ucast (ucast (drop_bit 16 n) :: u8)))
     OR push_bit 8 (ucast (ucast (drop_bit 8 n) :: u8))) OR ucast (ucast n :: u8) = (n :: u32)"
  (is "?l = n")
proof (rule bit_word_eqI)
  fix k
  assume k: "k < LENGTH(32)"
  have u: "bit (ucast (ucast x :: u8) :: u32) j \<longleftrightarrow> j < 8 \<and> bit x j" for x :: u32 and j
    by (auto simp: bit_simps)
  consider "k < 8" | "8 \<le> k" "k < 16" | "16 \<le> k" "k < 24" | "24 \<le> k" "k < 32" using k by fastforce
  then show "bit ?l k = bit n k"
    by cases (simp_all add: bit_or_iff bit_push_bit_iff u bit_drop_bit_eq less_diff_conv2)
qed

lemma getBlockNum_num_bytes: "getBlockNum (num_bytes n @ r) = n"
  by (simp add: getBlockNum_def num_bytes_def num_bytes_bits)

lemma mk_block_info_simps [simp]:
  "info_header (mk_block_info sha256 h) = h"
  by (simp add: mk_block_info_def)

lemma getBlockNum_info [simp]: "getBlockNum (info_blockId (mk_block_info sha256 h)) = blockNum h"
  by (simp add: mk_block_info_def getBlockNum_num_bytes)

end
