(* ===== verification/Auth_Services.thy ===== *)
theory Auth_Services
  imports Blocks
begin

text \<open>
  The services that verify block signatures: libraries/psibase/common/include/psibase/headerValidation.hpp
  and \<open>getCodeKeys\<close>, \<open>codeByHashKey\<close> of nativeTables.cpp. The rows of the native database that the code
  reads and writes are one record of three tables. Two things are parameters: \<open>sha256\<close>, and \<open>adopt\<close>,
  which is \<open>boost::container::flat_map::adopt_sequence\<close>.
\<close>

record code_row =
  row_codeNum :: account
  row_flags :: u64
  row_codeHash :: checksum
  row_vmType :: u8
  row_vmVersion :: u8

type_synonym code_key = "checksum \<times> u8 \<times> u8"

record code_by_hash_row =
  cbh_codeHash :: checksum
  cbh_vmType :: u8
  cbh_vmVersion :: u8
  cbh_code :: bytes

record auth_db =
  codeTable :: "account \<rightharpoonup> code_row"
  codeByHashTable :: "code_key \<rightharpoonup> code_by_hash_row"
  proofWasmConfig :: "wasm_config option"

definition empty_auth_db :: auth_db where
  "empty_auth_db = \<lparr>codeTable = Map.empty, codeByHashTable = Map.empty, proofWasmConfig = None\<rparr>"

definition isVerify :: u64 where
  "isVerify = push_bit 1 1"

definition codeByHashKey :: "checksum \<Rightarrow> u8 \<Rightarrow> u8 \<Rightarrow> code_key" where
  "codeByHashKey h ty ver = (h, ty, ver)"

definition getCodeKeys :: "auth_account list \<Rightarrow> code_key list" where
  "getCodeKeys services =
     remdups_adj (sort (map (\<lambda>s. codeByHashKey (codeHash s) (vmType s) (vmVersion s)) services))"

definition code_row_of :: "auth_account \<Rightarrow> code_row" where
  "code_row_of a = \<lparr>row_codeNum = codeNum a, row_flags = isVerify, row_codeHash = codeHash a,
     row_vmType = vmType a, row_vmVersion = vmVersion a\<rparr>"

definition writeCode :: "auth_db \<Rightarrow> auth_account list \<Rightarrow> auth_db" where
  "writeCode db accounts =
     foldl (\<lambda>db a. db\<lparr>codeTable := (codeTable db)(codeNum a \<mapsto> code_row_of a)\<rparr>) db accounts"

text \<open>\<open>std::ranges::set_difference\<close> and \<open>std::ranges::includes\<close>: one pass over both ranges.\<close>

fun set_difference :: "'a :: linorder list \<Rightarrow> 'a list \<Rightarrow> 'a list" where
  "set_difference [] ys = []"
| "set_difference (x # xs) [] = x # xs"
| "set_difference (x # xs) (y # ys) =
     (if x < y then x # set_difference xs (y # ys)
      else if y < x then set_difference (x # xs) ys
      else set_difference xs ys)"

fun ranges_includes :: "'a :: linorder list \<Rightarrow> 'a list \<Rightarrow> bool" where
  "ranges_includes xs [] = True"
| "ranges_includes [] (y # ys) = False"
| "ranges_includes (x # xs) (y # ys) =
     (if y < x then False
      else if x < y then ranges_includes xs (y # ys)
      else ranges_includes xs ys)"

definition updateCode :: "auth_db \<Rightarrow> auth_account list \<Rightarrow> auth_account list \<Rightarrow> auth_db" where
  "updateCode db oldServices services =
     (let removedAccounts = set_difference (map codeNum oldServices) (map codeNum services);
          db' = foldl (\<lambda>db a. db\<lparr>codeTable := (codeTable db)(a := None)\<rparr>) db removedAccounts
      in writeCode db' services)"

type_synonym adopt_code = "(code_key \<times> header_code) list \<Rightarrow> (code_key, header_code) ordered_map"

definition makeCodeIndex ::
  "(bytes \<Rightarrow> checksum) \<Rightarrow> adopt_code \<Rightarrow> header_code list \<Rightarrow> (code_key, header_code) ordered_map" where
  "makeCodeIndex sha256 adopt acode =
     adopt (map (\<lambda>code. (codeByHashKey (sha256 (hc_code code)) (hc_vmType code) (hc_vmVersion code), code)) acode)"

definition copyCodeByHash :: "auth_db \<Rightarrow> auth_db \<Rightarrow> auth_account list \<Rightarrow> auth_db result" where
  "copyCodeByHash dest src services =
     foldl (\<lambda>r key. bind_result r (\<lambda>dest.
         case codeByHashTable src key of
           Some row \<Rightarrow> Ok (dest\<lparr>codeByHashTable := (codeByHashTable dest)(key \<mapsto> row)\<rparr>)
         | None \<Rightarrow> Err (Abort ''Missing code for auth service'')))
       (Ok dest) (getCodeKeys services)"

definition add_code :: "(code_key, header_code) ordered_map \<Rightarrow> auth_db result \<Rightarrow> code_key \<Rightarrow> auth_db result" where
  "add_code code r a = bind_result r (\<lambda>db.
     case map_of code a of
       None \<Rightarrow> Err (Abort ''Missing required code'')
     | Some c \<Rightarrow> (case a of (h, ty, ver) \<Rightarrow>
         Ok (db\<lparr>codeByHashTable := (codeByHashTable db)(a \<mapsto>
           \<lparr>cbh_codeHash = h, cbh_vmType = ty, cbh_vmVersion = ver, cbh_code = hc_code c\<rparr>)\<rparr>)))"

definition updateCodeByHash ::
  "(bytes \<Rightarrow> checksum) \<Rightarrow> adopt_code \<Rightarrow> auth_db \<Rightarrow> auth_account list \<Rightarrow> auth_account list \<Rightarrow> header_code list \<Rightarrow> auth_db result"
where
  "updateCodeByHash sha256 adopt db oldServices newServices acode =
     (let prevKeys = getCodeKeys oldServices;
          nextKeys = getCodeKeys newServices;
          removed = set_difference prevKeys nextKeys;
          added = set_difference nextKeys prevKeys;
          code = makeCodeIndex sha256 adopt acode
      in bind_result (check (ranges_includes nextKeys (map fst code)) ''Wrong code'') (\<lambda>_.
           let db' = foldl (\<lambda>db r. db\<lparr>codeByHashTable := (codeByHashTable db)(r := None)\<rparr>) db removed
           in foldl (add_code code) (Ok db') added))"

definition writeWasmConfig :: "auth_db \<Rightarrow> wasm_config \<Rightarrow> auth_db" where
  "writeWasmConfig dest cfg = dest\<lparr>proofWasmConfig := Some cfg\<rparr>"

definition copyServices :: "auth_db \<Rightarrow> auth_db \<Rightarrow> auth_account list \<Rightarrow> wasm_config \<Rightarrow> auth_db result" where
  "copyServices dest src services cfg =
     bind_result (copyCodeByHash dest src services) (\<lambda>dest.
       Ok (writeWasmConfig (writeCode dest services) cfg))"

definition updateServices ::
  "(bytes \<Rightarrow> checksum) \<Rightarrow> adopt_code \<Rightarrow> auth_db \<Rightarrow> auth_account list \<Rightarrow> wasm_config \<Rightarrow>
   auth_account list \<Rightarrow> wasm_config \<Rightarrow> header_code list \<Rightarrow> auth_db result"
where
  "updateServices sha256 adopt db oldServices oldWasmConfig newServices newWasmConfig acode =
     bind_result (updateCodeByHash sha256 adopt db oldServices newServices acode) (\<lambda>db.
       let db = updateCode db oldServices newServices
       in Ok (if oldWasmConfig \<noteq> newWasmConfig then writeWasmConfig db newWasmConfig else db))"

section \<open>Merging\<close>

lemma set_set_difference:
  "sorted xs \<Longrightarrow> sorted ys \<Longrightarrow> distinct xs \<Longrightarrow> distinct ys \<Longrightarrow> set (set_difference xs ys) = set xs - set ys"
  by (induction xs ys rule: set_difference.induct) (force simp: not_less)+

lemma ranges_includes_iff:
  "sorted xs \<Longrightarrow> sorted ys \<Longrightarrow> distinct xs \<Longrightarrow> distinct ys \<Longrightarrow> ranges_includes xs ys \<longleftrightarrow> set ys \<subseteq> set xs"
proof (induction xs ys rule: ranges_includes.induct)
  case (3 x xs y ys)
  have "y \<notin> set (x # xs)" if "y < x" using that 3(3) by fastforce
  moreover have "set (y # ys) \<subseteq> set (x # xs) \<longleftrightarrow> set (y # ys) \<subseteq> set xs" if "x < y" using that 3(4) by force
  moreover have "set (y # ys) \<subseteq> set (x # xs) \<longleftrightarrow> set ys \<subseteq> set xs" if "x = y" using that 3(5,6) by auto
  ultimately show ?case using 3 by (cases x y rule: linorder_cases) auto
qed auto

lemma distinct_remdups_adj_sorted: "sorted xs \<Longrightarrow> distinct (remdups_adj xs)"
  by (induction xs rule: remdups_adj.induct) force+

lemma getCodeKeys_props:
  "sorted (getCodeKeys services)" "distinct (getCodeKeys services)"
  "set (getCodeKeys services) = (\<lambda>s. (codeHash s, vmType s, vmVersion s)) ` set services"
  by (simp_all add: getCodeKeys_def codeByHashKey_def sorted_remdups_adj distinct_remdups_adj_sorted)

section \<open>The tables\<close>

lemma writeCode_simps:
  "codeTable (writeCode db as) = codeTable db ++ map_of (rev (map (\<lambda>a. (codeNum a, code_row_of a)) as))"
  "codeByHashTable (writeCode db as) = codeByHashTable db"
  "proofWasmConfig (writeCode db as) = proofWasmConfig db"
  unfolding writeCode_def by (induction as arbitrary: db) simp_all

lemma remove_code_simps:
  "codeTable (foldl (\<lambda>db a. db\<lparr>codeTable := (codeTable db)(a := None)\<rparr>) db as) = codeTable db |` (- set as)"
  "codeByHashTable (foldl (\<lambda>db a. db\<lparr>codeTable := (codeTable db)(a := None)\<rparr>) db as) = codeByHashTable db"
  "proofWasmConfig (foldl (\<lambda>db a. db\<lparr>codeTable := (codeTable db)(a := None)\<rparr>) db as) = proofWasmConfig db"
  by (induction as arbitrary: db) (auto simp: restrict_map_def fun_eq_iff)

lemma remove_hash_simps:
  "codeByHashTable (foldl (\<lambda>db r. db\<lparr>codeByHashTable := (codeByHashTable db)(r := None)\<rparr>) db ks) =
     codeByHashTable db |` (- set ks)"
  "codeTable (foldl (\<lambda>db r. db\<lparr>codeByHashTable := (codeByHashTable db)(r := None)\<rparr>) db ks) = codeTable db"
  "proofWasmConfig (foldl (\<lambda>db r. db\<lparr>codeByHashTable := (codeByHashTable db)(r := None)\<rparr>) db ks) = proofWasmConfig db"
  by (induction ks arbitrary: db) (auto simp: restrict_map_def fun_eq_iff)

lemma foldl_add_code_Err: "foldl (add_code code) (Err e) ks = Err e"
  by (induction ks) (simp_all add: add_code_def result_simps)

definition hash_row :: "code_key \<Rightarrow> bytes \<Rightarrow> code_by_hash_row" where
  "hash_row a c = \<lparr>cbh_codeHash = fst a, cbh_vmType = fst (snd a), cbh_vmVersion = snd (snd a), cbh_code = c\<rparr>"

lemma foldl_add_code:
  "foldl (add_code code) (Ok db) ks =
     (if set ks \<subseteq> dom (map_of code)
      then Ok (db\<lparr>codeByHashTable := codeByHashTable db ++
        (\<lambda>a. if a \<in> set ks then map_option (\<lambda>c. hash_row a (hc_code c)) (map_of code a) else None)\<rparr>)
      else Err (Abort ''Missing required code''))"
proof (induction ks arbitrary: db)
  case Nil
  then show ?case by (simp add: map_add_def)
next
  case (Cons k ks)
  show ?case
  proof (cases "map_of code k")
    case None
    then have "add_code code (Ok db) k = Err (Abort ''Missing required code'')"
      by (simp add: add_code_def result_simps)
    with None show ?thesis by (simp add: foldl_add_code_Err domIff)
  next
    case (Some c)
    have "add_code code (Ok db) k = Ok (db\<lparr>codeByHashTable := (codeByHashTable db)(k \<mapsto> hash_row k (hc_code c))\<rparr>)"
      using Some by (cases k) (simp add: add_code_def result_simps hash_row_def)
    with Cons.IH Some show ?thesis
      by (auto simp: fun_eq_iff map_add_def split: option.splits intro!: arg_cong2 [where f = codeByHashTable_update])
  qed
qed

section \<open>What the database of the verifying services holds\<close>

text \<open>
  The rows are exactly those of the given services and configuration: one code row per service, and
  for each code key used a row that holds code with that hash.
\<close>

definition holds_services ::
  "(bytes \<Rightarrow> checksum) \<Rightarrow> auth_account list \<Rightarrow> wasm_config \<Rightarrow> auth_db \<Rightarrow> bool" where
  "holds_services sha256 services cfg db \<longleftrightarrow>
     codeTable db = map_of (map (\<lambda>a. (codeNum a, code_row_of a)) services) \<and>
     dom (codeByHashTable db) = set (getCodeKeys services) \<and>
     (\<forall>k row. codeByHashTable db k = Some row \<longrightarrow> row = hash_row k (cbh_code row) \<and> sha256 (cbh_code row) = fst k) \<and>
     proofWasmConfig db = Some cfg"

text \<open>The services of a consensus in order of their account, as the merge of \<open>updateCode\<close> needs them.\<close>

definition services_sorted :: "auth_account list \<Rightarrow> bool" where
  "services_sorted services = sorted_wrt (<) (map codeNum services)"

lemma services_sorted_distinct: "services_sorted s \<Longrightarrow> distinct (map codeNum s) \<and> sorted (map codeNum s)"
  by (auto simp: services_sorted_def strict_sorted_iff)

lemma map_of_rev_services:
  "services_sorted s \<Longrightarrow>
   map_of (rev (map (\<lambda>a. (codeNum a, code_row_of a)) s)) = map_of (map (\<lambda>a. (codeNum a, code_row_of a)) s)"
  by (intro map_of_inject_set [THEN iffD2]) (auto dest: services_sorted_distinct simp: comp_def rev_map [symmetric])

lemma updateCode_table:
  assumes "services_sorted old" "services_sorted new"
    and "codeTable db = map_of (map (\<lambda>a. (codeNum a, code_row_of a)) old)"
  shows "codeTable (updateCode db old new) = map_of (map (\<lambda>a. (codeNum a, code_row_of a)) new)"
proof -
  let ?m = "\<lambda>s. map_of (map (\<lambda>a. (codeNum a, code_row_of a)) s)"
  have dom: "dom (?m s) = codeNum ` set s" for s by (force simp: dom_map_of_conv_image_fst)
  have diff: "set (set_difference (map codeNum old) (map codeNum new)) = codeNum ` set old - codeNum ` set new"
    using assms(1,2) services_sorted_distinct by (subst set_set_difference) auto
  have "codeTable (updateCode db old new) = (?m old |` (- (codeNum ` set old - codeNum ` set new))) ++ ?m new"
    by (simp add: updateCode_def Let_def writeCode_simps remove_code_simps diff assms map_of_rev_services)
  also have "\<dots> = ?m new"
  proof
    fix a
    have "?m new a = None \<longrightarrow> (?m old |` (- (codeNum ` set old - codeNum ` set new))) a = None"
      using dom [of old] dom [of new] by (auto simp: restrict_map_def)
    then show "((?m old |` (- (codeNum ` set old - codeNum ` set new))) ++ ?m new) a = ?m new a"
      by (simp add: map_add_def split: option.splits)
  qed
  finally show ?thesis .
qed

lemma makeCodeIndex_hash:
  assumes "adopts adopt" "map_of (makeCodeIndex sha256 adopt acode) k = Some c"
  shows "sha256 (hc_code c) = fst k"
proof -
  let ?xs = "map (\<lambda>code. (codeByHashKey (sha256 (hc_code code)) (hc_vmType code) (hc_vmVersion code), code)) acode"
  have "(k, c) \<in> set (adopt ?xs)" using assms(2) by (auto simp: makeCodeIndex_def dest: map_of_SomeD)
  then have "(k, c) \<in> set ?xs" using assms(1) unfolding adopts_def by blast
  then show ?thesis by (auto simp: codeByHashKey_def)
qed

lemma updateCodeByHash_table:
  assumes adopt: "adopts adopt"
    and old: "dom (codeByHashTable db) = set (getCodeKeys old)"
      "\<forall>k row. codeByHashTable db k = Some row \<longrightarrow> row = hash_row k (cbh_code row) \<and> sha256 (cbh_code row) = fst k"
    and upd: "updateCodeByHash sha256 adopt db old new acode = Ok db'"
  shows "dom (codeByHashTable db') = set (getCodeKeys new)"
    and "\<forall>k row. codeByHashTable db' k = Some row \<longrightarrow> row = hash_row k (cbh_code row) \<and> sha256 (cbh_code row) = fst k"
    and "codeTable db' = codeTable db" and "proofWasmConfig db' = proofWasmConfig db"
proof -
  let ?code = "makeCodeIndex sha256 adopt acode"
  let ?old = "set (getCodeKeys old)" and ?new = "set (getCodeKeys new)"
  have rem: "set (set_difference (getCodeKeys old) (getCodeKeys new)) = ?old - ?new"
    and add: "set (set_difference (getCodeKeys new) (getCodeKeys old)) = ?new - ?old"
    by (simp_all add: set_set_difference getCodeKeys_props)
  have cov: "?new - ?old \<subseteq> dom (map_of ?code)"
    and t: "codeByHashTable db' = (codeByHashTable db |` (- (?old - ?new))) ++
      (\<lambda>a. if a \<in> ?new - ?old then map_option (\<lambda>c. hash_row a (hc_code c)) (map_of ?code a) else None)"
    and eq: "codeTable db' = codeTable db" "proofWasmConfig db' = proofWasmConfig db"
    using upd
    by (auto simp: updateCodeByHash_def Let_def check_def result_simps foldl_add_code rem add
        remove_hash_simps split: if_splits)
  show "codeTable db' = codeTable db" "proofWasmConfig db' = proofWasmConfig db" by (rule eq)+
  have row: "codeByHashTable db' k =
      (if k \<in> ?new - ?old then map_option (\<lambda>c. hash_row k (hc_code c)) (map_of ?code k)
       else if k \<in> ?new then codeByHashTable db k else None)" for k
    using old(1) cov by (auto simp: t map_add_def restrict_map_def split: option.splits)
  show "dom (codeByHashTable db') = ?new"
    using cov old(1) by (auto simp: row dom_def set_eq_iff subset_iff split: if_splits)
  show "\<forall>k row. codeByHashTable db' k = Some row \<longrightarrow> row = hash_row k (cbh_code row) \<and> sha256 (cbh_code row) = fst k"
    using old(2) makeCodeIndex_hash [OF adopt] by (auto simp: row hash_row_def split: if_splits)
qed

text \<open>
  C23. Changing the services that verify block signatures keeps the signature database exact: if it
  held exactly the rows of the old services and \<open>updateServices\<close> succeeds, it holds exactly the rows of
  the new ones, every stored code having the hash it is stored under.
\<close>

theorem updateServices_exact:
  assumes "adopts adopt" "services_sorted old" "services_sorted new"
    and "holds_services sha256 old oldCfg db"
    and "updateServices sha256 adopt db old oldCfg new newCfg acode = Ok db'"
  shows "holds_services sha256 new newCfg db'"
proof -
  obtain db1 where u: "updateCodeByHash sha256 adopt db old new acode = Ok db1"
    and db': "db' = (if oldCfg \<noteq> newCfg then writeWasmConfig (updateCode db1 old new) newCfg else updateCode db1 old new)"
    using assms(5) by (cases "updateCodeByHash sha256 adopt db old new acode")
      (simp_all add: updateServices_def result_simps Let_def)
  have h: "codeTable db = map_of (map (\<lambda>a. (codeNum a, code_row_of a)) old)"
    "dom (codeByHashTable db) = set (getCodeKeys old)"
    "\<forall>k row. codeByHashTable db k = Some row \<longrightarrow> row = hash_row k (cbh_code row) \<and> sha256 (cbh_code row) = fst k"
    "proofWasmConfig db = Some oldCfg"
    using assms(4) by (auto simp: holds_services_def)
  note one = updateCodeByHash_table [OF assms(1) h(2,3) u]
  have "codeTable (updateCode db1 old new) = map_of (map (\<lambda>a. (codeNum a, code_row_of a)) new)"
    by (rule updateCode_table [OF assms(2,3)]) (simp add: one h)
  moreover have "codeByHashTable (updateCode db1 old new) = codeByHashTable db1"
    "proofWasmConfig (updateCode db1 old new) = Some oldCfg"
    by (simp_all add: updateCode_def Let_def writeCode_simps remove_code_simps one h)
  ultimately show ?thesis
    using one(1,2) by (auto simp: holds_services_def db' writeWasmConfig_def)
qed

theorem updateServices_exact_witness:
  "holds_services (\<lambda>_. [1]) [\<lparr>codeNum = 5, codeHash = [1], vmType = 0, vmVersion = 0\<rparr>] default_wasm_config
     (case updateServices (\<lambda>_. [1]) adopt_first
        (empty_auth_db\<lparr>proofWasmConfig := Some default_wasm_config\<rparr>) [] default_wasm_config
        [\<lparr>codeNum = 5, codeHash = [1], vmType = 0, vmVersion = 0\<rparr>] default_wasm_config
        [\<lparr>hc_vmType = 0, hc_vmVersion = 0, hc_code = [7]\<rparr>] of Ok db \<Rightarrow> db)"
  by (rule updateServices_exact [OF adopts_adopt_first, where old = "[]" and oldCfg = default_wasm_config
        and db = "empty_auth_db\<lparr>proofWasmConfig := Some default_wasm_config\<rparr>"
        and acode = "[\<lparr>hc_vmType = 0, hc_vmVersion = 0, hc_code = [7]\<rparr>]"])
    (simp_all add: services_sorted_def holds_services_def empty_auth_db_def updateServices_def
      updateCodeByHash_def getCodeKeys_def codeByHashKey_def makeCodeIndex_def adopt_first_def
      check_def result_simps add_code_def Let_def)

end
