(* ===== verification/Producer_Sets.thy ===== *)
theory Producer_Sets
  imports Auth_Services
begin

text \<open>
  Producer sets and their quorums: \<open>ConsensusAlgorithm\<close>, \<open>split\<close>, \<open>ProducerSet\<close> and \<open>BlockAuthState\<close> of
  libraries/psibase/native/include/psibase/ForkDb.hpp. A \<open>shared_ptr<BlockAuthState>\<close> is an address in
  a list of authentication states, since the code shares them and compares the pointers.
\<close>

section \<open>Producers\<close>

datatype consensus_algorithm = cft | bft

primrec split_consensus :: "consensus_data \<Rightarrow> consensus_algorithm \<times> producer list" where
  "split_consensus (CftConsensus prods) = (cft, prods)"
| "split_consensus (BftConsensus prods) = (bft, prods)"

record producer_set =
  algorithm :: consensus_algorithm
  activeProducers :: "(account, claim) ordered_map"
  ps_authState :: "nat option"

type_synonym adopt_producers = "(account \<times> claim) list \<Rightarrow> (account, claim) ordered_map"

definition empty_producers :: producer_set where
  "empty_producers = \<lparr>algorithm = cft, activeProducers = [], ps_authState = None\<rparr>"

definition mk_producer_set :: "adopt_producers \<Rightarrow> consensus_data \<Rightarrow> producer_set" where
  "mk_producer_set adopt c =
     (let (alg, prods) = split_consensus c
      in \<lparr>algorithm = alg, activeProducers = adopt (map (\<lambda>p. (producer_name p, producer_auth p)) prods),
          ps_authState = None\<rparr>)"

definition isProducer :: "producer_set \<Rightarrow> account \<Rightarrow> bool" where
  "isProducer ps p = (map_of (activeProducers ps) p \<noteq> None)"

text \<open>\<open>iter - begin()\<close>: the position of a key.\<close>

primrec key_index :: "'k \<Rightarrow> ('k \<times> 'v) list \<Rightarrow> nat" where
  "key_index k [] = 0"
| "key_index k (p # m) = (if fst p = k then 0 else Suc (key_index k m))"

definition getIndex :: "producer_set \<Rightarrow> account \<Rightarrow> nat option" where
  "getIndex ps p =
     (if map_of (activeProducers ps) p \<noteq> None then Some (key_index p (activeProducers ps)) else None)"

definition getIndex_claim :: "producer_set \<Rightarrow> account \<Rightarrow> claim \<Rightarrow> nat option" where
  "getIndex_claim ps p c =
     (if map_of (activeProducers ps) p = Some c then Some (key_index p (activeProducers ps)) else None)"

definition getClaim :: "producer_set \<Rightarrow> account \<Rightarrow> claim option" where
  "getClaim ps p = map_of (activeProducers ps) p"

definition num_producers :: "producer_set \<Rightarrow> nat" where
  "num_producers ps = length (activeProducers ps)"

definition threshold :: "producer_set \<Rightarrow> nat" where
  "threshold ps =
     (case algorithm ps of
        cft \<Rightarrow> num_producers ps div 2 + 1
      | bft \<Rightarrow> num_producers ps * 2 div 3 + 1)"

definition weak_threshold :: "producer_set \<Rightarrow> nat" where
  "weak_threshold ps =
     (case algorithm ps of
        cft \<Rightarrow> 1
      | bft \<Rightarrow> (num_producers ps + 2) div 3)"

section \<open>Authentication states\<close>

record auth_state =
  as_revision :: auth_db
  as_services :: "auth_account list"
  as_wasmConfig :: wasm_config

definition getUpdatedAuthServices :: "auth_state \<Rightarrow> block_header \<Rightarrow> consensus option" where
  "getUpdatedAuthServices s h =
     (case newConsensus h of
        None \<Rightarrow> None
      | Some c \<Rightarrow>
          if consensus_services c \<noteq> as_services s \<or> consensus_wasmConfig c \<noteq> as_wasmConfig s then Some c else None)"

text \<open>The constructor that updates a previous state.\<close>

definition updated_auth_state ::
  "(bytes \<Rightarrow> checksum) \<Rightarrow> adopt_code \<Rightarrow> auth_state \<Rightarrow> block_header \<Rightarrow> auth_account list \<Rightarrow> wasm_config \<Rightarrow> auth_state result"
where
  "updated_auth_state sha256 adopt prev h newServices newWasmConfig =
     (case authCode h of
        None \<Rightarrow> Err (Abort ''code must be provided when changing auth services'')
      | Some code \<Rightarrow>
          bind_result (updateServices sha256 adopt (as_revision prev) (as_services prev) (as_wasmConfig prev)
            newServices newWasmConfig code)
            (\<lambda>db. Ok \<lparr>as_revision = db, as_services = newServices, as_wasmConfig = newWasmConfig\<rparr>))"

text \<open>
  \<open>BlockAuthState::next\<close>: the address of the state for the successor, which is the old address when
  nothing changes and that of a new state otherwise.
\<close>

definition auth_next ::
  "(bytes \<Rightarrow> checksum) \<Rightarrow> adopt_code \<Rightarrow> auth_state list \<Rightarrow> nat \<Rightarrow> block_header \<Rightarrow> (auth_state list \<times> nat) result"
where
  "auth_next sha256 adopt heap prev h =
     (case getUpdatedAuthServices (heap ! prev) h of
        Some c \<Rightarrow>
          bind_result (check (authCode h \<noteq> None) ''code must be provided when changing auth services'') (\<lambda>_.
            bind_result (updated_auth_state sha256 adopt (heap ! prev) h (consensus_services c) (consensus_wasmConfig c))
              (\<lambda>s. Ok (heap @ [s], length heap)))
      | None \<Rightarrow>
          bind_result (check (authCode h = None) ''authCode unexpected'') (\<lambda>_. Ok (heap, prev)))"

section \<open>Quorums\<close>

text \<open>
  A rule for sets of \<open>n\<close> producers: \<open>q\<close> of them are a quorum and \<open>w\<close> a weak quorum; up to \<open>f\<close> may stop,
  and of these up to \<open>b\<close> may lie. The producers that run reach a quorum alone, two quorums share a
  producer that does not lie, and every weak quorum has one.
\<close>

locale quorum_rule =
  fixes q w f b :: "nat \<Rightarrow> nat"
  assumes available: "0 < n \<Longrightarrow> q n + f n \<le> n"
    and overlap: "n + b n < 2 * q n"
    and honest: "0 < n \<Longrightarrow> b n < w n"
begin

lemma quorums_share:
  assumes "finite P" "A \<subseteq> P" "B \<subseteq> P" "q (card P) \<le> card A" "q (card P) \<le> card B" "finite F" "card F \<le> b (card P)"
  shows "\<exists>p \<in> A \<inter> B. p \<notin> F"
proof (rule ccontr)
  assume "\<not> (\<exists>p \<in> A \<inter> B. p \<notin> F)"
  then have "card (A \<inter> B) \<le> card F" using assms(6) by (intro card_mono) auto
  moreover have "card A + card B = card (A \<union> B) + card (A \<inter> B)"
    using assms(1,2,3) by (intro card_Un_Int) (auto intro: finite_subset)
  moreover have "card (A \<union> B) \<le> card P" using assms(1,2,3) by (intro card_mono) auto
  ultimately show False using assms(4,5,7) overlap [of "card P"] by linarith
qed

lemma weak_honest:
  assumes "finite P" "A \<subseteq> P" "P \<noteq> {}" "w (card P) \<le> card A" "finite F" "card F \<le> b (card P)"
  shows "\<exists>p \<in> A. p \<notin> F"
proof (rule ccontr)
  assume "\<not> (\<exists>p \<in> A. p \<notin> F)"
  then have "card A \<le> card F" using assms(5) by (intro card_mono) auto
  with assms honest [of "card P"] show False by (simp add: card_gt_0_iff)
qed

lemma quorum_remains:
  assumes "finite P" "P \<noteq> {}" "F \<subseteq> P" "card F \<le> f (card P)"
  shows "q (card P) \<le> card (P - F)"
proof -
  have "card (P - F) = card P - card F" using assms by (intro card_Diff_subset) (auto intro: finite_subset)
  with assms available [of "card P"] show ?thesis by (simp add: card_gt_0_iff)
qed

end

text \<open>How many producers may stop, and how many may lie, for each algorithm.\<close>

definition max_stopped :: "consensus_algorithm \<Rightarrow> nat \<Rightarrow> nat" where
  "max_stopped alg n = (case alg of cft \<Rightarrow> (n - 1) div 2 | bft \<Rightarrow> (n - 1) div 3)"

definition max_lying :: "consensus_algorithm \<Rightarrow> nat \<Rightarrow> nat" where
  "max_lying alg n = (case alg of cft \<Rightarrow> 0 | bft \<Rightarrow> (n - 1) div 3)"

definition quorum_size :: "consensus_algorithm \<Rightarrow> nat \<Rightarrow> nat" where
  "quorum_size alg n = (case alg of cft \<Rightarrow> n div 2 + 1 | bft \<Rightarrow> n * 2 div 3 + 1)"

definition weak_size :: "consensus_algorithm \<Rightarrow> nat \<Rightarrow> nat" where
  "weak_size alg n = (case alg of cft \<Rightarrow> 1 | bft \<Rightarrow> (n + 2) div 3)"

interpretation rule_of: quorum_rule "quorum_size alg" "weak_size alg" "max_stopped alg" "max_lying alg" for alg
  by unfold_locales
    (cases alg; simp add: quorum_size_def weak_size_def max_stopped_def max_lying_def; linarith)+

lemma threshold_size: "threshold ps = quorum_size (algorithm ps) (num_producers ps)"
  by (simp add: threshold_def quorum_size_def)

lemma weak_threshold_size: "weak_threshold ps = weak_size (algorithm ps) (num_producers ps)"
  by (simp add: weak_threshold_def weak_size_def)

abbreviation producers_of :: "producer_set \<Rightarrow> account set" where
  "producers_of ps \<equiv> fst ` set (activeProducers ps)"

lemma card_producers: "ordered (activeProducers ps) \<Longrightarrow> card (producers_of ps) = num_producers ps"
  unfolding num_producers_def using distinct_card [OF ordered_distinct, of "activeProducers ps"] by simp

lemma isProducer_iff: "isProducer ps p \<longleftrightarrow> p \<in> producers_of ps"
  by (simp add: isProducer_def map_of_eq_None_iff)

lemma key_index_nth: "k \<in> fst ` set m \<Longrightarrow> key_index k m < length m \<and> fst (m ! key_index k m) = k"
  by (induction m) auto

lemma getIndex_Some: "getIndex ps p = Some i \<Longrightarrow> i < num_producers ps \<and> fst (activeProducers ps ! i) = p"
  using key_index_nth [of p "activeProducers ps"]
  by (simp add: getIndex_def num_producers_def map_of_eq_None_iff split: if_splits)

lemma getIndex_iff: "getIndex ps p \<noteq> None \<longleftrightarrow> isProducer ps p"
  by (simp add: getIndex_def isProducer_def)

text \<open>
  C15. Quorums of \<open>ProducerSet::threshold\<close> are safe: whatever set \<open>F\<close> of producers lies, within the number
  the algorithm tolerates (none for CFT, fewer than a third for BFT), two sets of at least \<open>threshold()\<close>
  producers share one that does not.
\<close>

theorem threshold_quorums_intersect:
  assumes "ordered (activeProducers ps)" "A \<subseteq> producers_of ps" "B \<subseteq> producers_of ps"
    and "threshold ps \<le> card A" "threshold ps \<le> card B"
    and "finite F" "card F \<le> max_lying (algorithm ps) (num_producers ps)"
  shows "\<exists>p \<in> A \<inter> B. p \<notin> F"
  using assms rule_of.quorums_share [of "producers_of ps" A B "algorithm ps" F]
  by (simp add: threshold_size card_producers)

theorem threshold_quorums_intersect_witness:
  "\<exists>p \<in> {1, 2, 3} \<inter> {2, 3, 4}. p \<notin> {2 :: account}"
proof -
  let ?c = "\<lparr>claim_service = 0, claim_rawData = []\<rparr>"
  let ?ps = "\<lparr>algorithm = bft, activeProducers = [(1, ?c), (2, ?c), (3, ?c), (4, ?c)], ps_authState = None\<rparr>"
  show ?thesis
    by (rule threshold_quorums_intersect [of ?ps])
      (simp_all add: threshold_def num_producers_def max_lying_def)
qed

text \<open>
  C16. \<open>ProducerSet::weak_threshold\<close> producers include one that does not lie, and the producers left when
  the tolerated number of them stops still reach \<open>threshold()\<close>.
\<close>

theorem thresholds_live_and_honest:
  assumes "ordered (activeProducers ps)" "activeProducers ps \<noteq> []" "F \<subseteq> producers_of ps"
  shows "(card F \<le> max_stopped (algorithm ps) (num_producers ps) \<longrightarrow> threshold ps \<le> card (producers_of ps - F)) \<and>
    (card F \<le> max_lying (algorithm ps) (num_producers ps) \<longrightarrow>
      (\<forall>A \<subseteq> producers_of ps. weak_threshold ps \<le> card A \<longrightarrow> (\<exists>p \<in> A. p \<notin> F)))"
proof -
  have "finite F" using assms(3) by (rule finite_subset) simp
  with assms rule_of.quorum_remains [of "producers_of ps" F "algorithm ps"]
    rule_of.weak_honest [of "producers_of ps" _ "algorithm ps" F]
  show ?thesis by (simp add: threshold_size weak_threshold_size card_producers)
qed

theorem thresholds_live_and_honest_witness:
  "\<exists>p \<in> {2, 3}. p \<notin> {2 :: account}"
proof -
  let ?c = "\<lparr>claim_service = 0, claim_rawData = []\<rparr>"
  let ?ps = "\<lparr>algorithm = bft, activeProducers = [(1, ?c), (2, ?c), (3, ?c), (4, ?c)], ps_authState = None\<rparr>"
  show ?thesis
    using thresholds_live_and_honest [of ?ps "{2}"]
    by (auto simp: weak_threshold_def num_producers_def max_lying_def dest!: spec [of _ "{2, 3}"])
qed

end
