(* ===== verification/Header_States.thy ===== *)
theory Header_States
  imports Producer_Sets
begin

text \<open>
  What the fork database knows of a block: \<open>BlockHeaderState\<close> of
  libraries/psibase/native/include/psibase/ForkDb.hpp, with \<open>BlockAuthState\<close>'s constructors that read the
  database. A database revision is a number that names it, as the pointer does in the code.

  Everything outside the model is collected in \<open>env\<close>: hashing, serialisation, the rows of a database
  revision, the proof check of the authentication services (WebAssembly), and block execution.
\<close>

type_synonym revision = nat

record status_row =
  status_head :: "block_info option"
  status_consensus :: joint_consensus

record env =
  env_header_hash :: "block_header \<Rightarrow> checksum"
  env_code_hash :: "bytes \<Rightarrow> checksum"
  env_state_hash :: "joint_consensus \<Rightarrow> checksum"
  env_adopt_code :: adopt_code
  env_adopt_producers :: adopt_producers
  env_prove :: "auth_db \<Rightarrow> bytes \<Rightarrow> claim \<Rightarrow> bytes \<Rightarrow> bool"
  env_execute :: "revision \<Rightarrow> signed_block \<Rightarrow> claim \<Rightarrow> auth_db \<Rightarrow> (revision \<times> block_id) option"
  env_produce :: "block \<Rightarrow> claim \<Rightarrow> auth_db \<Rightarrow> (revision \<times> block_info) option"
  env_status :: "revision \<Rightarrow> status_row option"
  env_auth_rows :: "revision \<Rightarrow> auth_db"
  env_prev_auth :: "revision \<Rightarrow> auth_db option"
  env_block_log :: "revision \<Rightarrow> block_num \<Rightarrow> block option"
  env_block_proof :: "revision \<Rightarrow> block_num \<Rightarrow> bytes option"

abbreviation the_info :: "env \<Rightarrow> block_header \<Rightarrow> block_info" where
  "the_info E h \<equiv> mk_block_info (env_header_hash E) h"

section \<open>Authentication states from the database\<close>

text \<open>The state for the next or current consensus, copied from the chain's database.\<close>

definition read_auth_state :: "env \<Rightarrow> revision \<Rightarrow> auth_state result" where
  "read_auth_state E r =
     (case env_status E r of
        None \<Rightarrow> Ok \<lparr>as_revision = empty_auth_db, as_services = [], as_wasmConfig = default_wasm_config\<rparr>
      | Some status \<Rightarrow>
          let c = (case jc_next (status_consensus status) of
                     Some n \<Rightarrow> pending_consensus n
                   | None \<Rightarrow> jc_current (status_consensus status))
          in bind_result (copyServices empty_auth_db (env_auth_rows E r) (consensus_services c) (consensus_wasmConfig c))
               (\<lambda>db. Ok \<lparr>as_revision = db, as_services = consensus_services c, as_wasmConfig = consensus_wasmConfig c\<rparr>))"

text \<open>The state of the current consensus, whose database was saved when the change began.\<close>

definition read_current_auth_state :: "env \<Rightarrow> revision \<Rightarrow> auth_db option \<Rightarrow> auth_state" where
  "read_current_auth_state E r saved =
     \<lparr>as_revision = (case saved of Some db \<Rightarrow> db | None \<Rightarrow> empty_auth_db),
      as_services = (case env_status E r of
         Some status \<Rightarrow> consensus_services (jc_current (status_consensus status)) | None \<Rightarrow> []),
      as_wasmConfig = default_wasm_config\<rparr>"

section \<open>Header states\<close>

record header_state =
  hs_info :: block_info
  hs_revision :: "revision option"
  hs_producers :: producer_set
  hs_nextProducers :: "producer_set option"
  hs_nextProducersBlockNum :: block_num
  hs_invalid :: bool

abbreviation hs_header :: "header_state \<Rightarrow> block_header" where
  "hs_header s \<equiv> info_header (hs_info s)"

abbreviation hs_num :: "header_state \<Rightarrow> block_num" where
  "hs_num s \<equiv> blockNum (hs_header s)"

abbreviation hs_id :: "header_state \<Rightarrow> block_id" where
  "hs_id s \<equiv> info_blockId (hs_info s)"

definition hs_order :: "header_state \<Rightarrow> block_order" where
  "hs_order s = (termNum (hs_header s), hs_num s, hs_id s)"

definition hs_xid :: "header_state \<Rightarrow> xid" where
  "hs_xid s = \<lparr>xid_id = hs_id s, xid_num = hs_num s\<rparr>"

definition empty_header :: block_header where
  "empty_header = \<lparr>previous = replicate 32 0, blockNum = 0, blockTime = 0, header_producer = 0, termNum = 0,
     commitNum = 0, consensusState = replicate 32 0, trxMerkleRoot = replicate 32 0,
     eventMerkleRoot = replicate 32 0, newConsensus = None, authCode = None\<rparr>"

definition initial_header_state :: header_state where
  "initial_header_state =
     \<lparr>hs_info = \<lparr>info_header = empty_header\<lparr>blockNum := 1\<rparr>, info_blockId = replicate 32 0\<rparr>,
      hs_revision = None, hs_producers = empty_producers, hs_nextProducers = None,
      hs_nextProducersBlockNum = 0, hs_invalid = False\<rparr>"

text \<open>The constructor that loads a state from the database.\<close>

definition loaded_header_state :: "env \<Rightarrow> block_info \<Rightarrow> revision \<Rightarrow> header_state" where
  "loaded_header_state E info r =
     (let s = \<lparr>hs_info = info, hs_revision = Some r, hs_producers = empty_producers,
                hs_nextProducers = None, hs_nextProducersBlockNum = 0, hs_invalid = False\<rparr>;
          mk = (\<lambda>c. mk_producer_set (env_adopt_producers E) (consensus_data c))
      in case env_status E r of
           None \<Rightarrow> s
         | Some status \<Rightarrow>
             let s = s\<lparr>hs_producers := mk (jc_current (status_consensus status))\<rparr>
             in case jc_next (status_consensus status) of
                  None \<Rightarrow> s
                | Some n \<Rightarrow> s\<lparr>hs_nextProducers := Some (mk (pending_consensus n)),
                    hs_nextProducersBlockNum := pending_blockNum n\<rparr>)"

definition endsJointConsensus :: "header_state \<Rightarrow> bool" where
  "endsJointConsensus s \<longleftrightarrow> hs_nextProducers s \<noteq> None \<and> hs_nextProducersBlockNum s \<le> commitNum (hs_header s)"

text \<open>
  \<open>loadAuthState\<close> allocates the state of the next consensus, and that of the current one when they differ.
  The database is the state's own revision; without one there is nothing to read.
\<close>

definition loadAuthState :: "env \<Rightarrow> auth_state list \<Rightarrow> header_state \<Rightarrow> (auth_state list \<times> header_state) result" where
  "loadAuthState E heap s =
     (case hs_revision s of
        None \<Rightarrow> Err Undefined
      | Some r \<Rightarrow>
          bind_result (read_auth_state E r) (\<lambda>a.
            case hs_nextProducers s of
              None \<Rightarrow> Ok (heap @ [a], s\<lparr>hs_producers := (hs_producers s)\<lparr>ps_authState := Some (length heap)\<rparr>\<rparr>)
            | Some next \<Rightarrow>
                Ok (heap @ [a, read_current_auth_state E r (env_prev_auth E r)],
                    s\<lparr>hs_nextProducers := Some (next\<lparr>ps_authState := Some (length heap)\<rparr>),
                      hs_producers := (hs_producers s)\<lparr>ps_authState := Some (length heap + 1)\<rparr>\<rparr>)))"

text \<open>The constructor for a successor of \<open>prev\<close>.\<close>

definition next_header_state ::
  "env \<Rightarrow> auth_state list \<Rightarrow> header_state \<Rightarrow> block_info \<Rightarrow> revision option \<Rightarrow> (auth_state list \<times> header_state) result"
where
  "next_header_state E heap prev info r =
     (let (prods, nextProds) =
            (case hs_nextProducers prev of
               Some next \<Rightarrow> if endsJointConsensus prev then (next, None) else (hs_producers prev, Some next)
             | None \<Rightarrow> (hs_producers prev, None));
          s = \<lparr>hs_info = info, hs_revision = r, hs_producers = prods, hs_nextProducers = nextProds,
                hs_nextProducersBlockNum = hs_nextProducersBlockNum prev, hs_invalid = False\<rparr>
      in case newConsensus (info_header info) of
           None \<Rightarrow> Ok (heap, s)
         | Some c \<Rightarrow>
             let next = mk_producer_set (env_adopt_producers E) (consensus_data c);
                 s' = s\<lparr>hs_nextProducers := Some next, hs_nextProducersBlockNum := blockNum (info_header info)\<rparr>
             in case ps_authState prods of
                  Some a \<Rightarrow>
                    bind_result (auth_next (env_code_hash E) (env_adopt_code E) heap a (info_header info))
                      (\<lambda>(heap', a'). Ok (heap', s'\<lparr>hs_nextProducers := Some (next\<lparr>ps_authState := Some a'\<rparr>)\<rparr>))
                | None \<Rightarrow> loadAuthState E heap s')"

definition initAuthState ::
  "env \<Rightarrow> auth_state list \<Rightarrow> header_state \<Rightarrow> header_state \<Rightarrow> (auth_state list \<times> header_state) result"
where
  "initAuthState E heap prev s =
     (let a = (if endsJointConsensus prev
               then ps_authState (the (hs_nextProducers prev)) else ps_authState (hs_producers prev));
          s' = s\<lparr>hs_producers := (hs_producers s)\<lparr>ps_authState := a\<rparr>\<rparr>
      in case hs_nextProducers s of
           Some next \<Rightarrow>
             if a \<noteq> None
             then case ps_authState (case hs_nextProducers prev of Some p \<Rightarrow> p | None \<Rightarrow> hs_producers prev) of
                    None \<Rightarrow> Err Undefined
                  | Some prevAuth \<Rightarrow>
                      bind_result (auth_next (env_code_hash E) (env_adopt_code E) heap prevAuth (hs_header s))
                        (\<lambda>(heap', a'). Ok (heap', s'\<lparr>hs_nextProducers := Some (next\<lparr>ps_authState := Some a'\<rparr>)\<rparr>))
             else loadAuthState E heap s'
         | None \<Rightarrow>
             bind_result (check (authCode (hs_header s) = None) ''Unexpected authCode'') (\<lambda>_. Ok (heap, s')))"

definition empty_joint_consensus :: joint_consensus where
  "empty_joint_consensus = \<lparr>jc_current = \<lparr>consensus_data = CftConsensus [], consensus_services = [],
     consensus_wasmConfig = default_wasm_config\<rparr>, jc_next = None\<rparr>"

definition readState :: "env \<Rightarrow> header_state \<Rightarrow> joint_consensus result" where
  "readState E s =
     (case hs_revision s of
        None \<Rightarrow> Err Undefined
      | Some r \<Rightarrow> (case env_status E r of
          Some status \<Rightarrow> Ok (status_consensus status) | None \<Rightarrow> Ok empty_joint_consensus))"

definition getNextProducerClaim :: "header_state \<Rightarrow> account \<Rightarrow> claim option" where
  "getNextProducerClaim s p =
     (let current = hs_nextProducers s = None \<or> commitNum (hs_header s) < hs_nextProducersBlockNum s;
          next = (case hs_nextProducers s of Some n \<Rightarrow> getClaim n p | None \<Rightarrow> None)
      in if current
         then if num_producers (hs_producers s) = 0 \<and> hs_nextProducers s = None
              then Some \<lparr>claim_service = 0, claim_rawData = []\<rparr>
              else case getClaim (hs_producers s) p of
                     Some c \<Rightarrow> Some c
                   | None \<Rightarrow> next
         else next)"

definition getProdsAuthRevision :: "auth_state list \<Rightarrow> header_state \<Rightarrow> auth_db result" where
  "getProdsAuthRevision heap s =
     (case ps_authState (hs_producers s) of
        None \<Rightarrow> Err (Abort ''Auth services not loaded (this should only be possible for blocks that are already committed, which we shouldn't need signatures for...)'')
      | Some a \<Rightarrow> Ok (as_revision (heap ! a)))"

definition getNextAuthRevision :: "auth_state list \<Rightarrow> header_state \<Rightarrow> auth_db result" where
  "getNextAuthRevision heap s =
     (if endsJointConsensus s
      then case hs_nextProducers s of
             Some next \<Rightarrow> (case ps_authState next of Some a \<Rightarrow> Ok (as_revision (heap ! a)) | None \<Rightarrow> Err Undefined)
           | None \<Rightarrow> Err Undefined
      else getProdsAuthRevision heap s)"

definition getAuthRevision :: "auth_state list \<Rightarrow> header_state \<Rightarrow> account \<Rightarrow> claim \<Rightarrow> auth_db result" where
  "getAuthRevision heap s p c =
     (if getIndex_claim (hs_producers s) p c \<noteq> None then getProdsAuthRevision heap s
      else case hs_nextProducers s of
             Some next \<Rightarrow>
               if getIndex_claim next p c \<noteq> None
               then case ps_authState next of Some a \<Rightarrow> Ok (as_revision (heap ! a)) | None \<Rightarrow> Err Undefined
               else Err (Abort ''not an active producer'')
           | None \<Rightarrow> Err (Abort ''not an active producer''))"

definition needsIrreversibleSignature :: "header_state \<Rightarrow> bool" where
  "needsIrreversibleSignature s \<longleftrightarrow> hs_nextProducers s \<noteq> None \<and> hs_nextProducersBlockNum s \<le> commitNum (hs_header s)"

definition singleProducer :: "header_state \<Rightarrow> bool" where
  "singleProducer s =
     (if num_producers (hs_producers s) = 1 then hs_nextProducers s = None
      else if num_producers (hs_producers s) = 0
      then (case hs_nextProducers s of
              None \<Rightarrow> True
            | Some next \<Rightarrow> num_producers next = 1 \<and> isProducer next (header_producer (hs_header s)))
      else False)"

end
