(* ===== verification/Fork_Db.thy ===== *)
theory Fork_Db
  imports Header_States
begin

text \<open>
  The fork database: class \<open>ForkDb\<close> of libraries/psibase/native/include/psibase/ForkDb.hpp. A
  \<open>BlockHeaderState*\<close> is the id under which the state is stored, a map iterator the key it points to.
  An operation that can throw returns the outcome beside the database it leaves behind, so that what an
  exception does not undo is visible. Assertions are compiled out of the program and are not tests of the
  model. The calls of \<open>onCommitFn\<close> are recorded in the order they are made.
\<close>

record pending_block =
  pb_block :: block
  pb_needGenesisAction :: bool

record fork_db =
  blockContext :: "pending_block option"
  commitIndex :: block_num
  logStart :: block_num
  currentTerm :: term_num
  fd_head :: block_id
  blocks :: "(block_id, signed_block) ordered_map"
  states :: "(block_id, header_state) ordered_map"
  byOrderIndex :: "(block_order, block_id) ordered_map"
  byBlocknumIndex :: "(block_num, block_id) ordered_map"
  authStates :: "auth_state list"
  blockData :: "(block_id, bytes) ordered_map"
  headRevision :: "revision option"
  onCommit_calls :: "block_id list"

type_synonym 'a outcome = "'a result \<times> fork_db"

section \<open>Lookup\<close>

definition get_state :: "fork_db \<Rightarrow> block_id \<Rightarrow> header_state option" where
  "get_state db i = map_of (states db) i"

abbreviation the_state :: "fork_db \<Rightarrow> block_id \<Rightarrow> header_state" where
  "the_state db i \<equiv> the (get_state db i)"

definition get_head_state :: "fork_db \<Rightarrow> header_state" where
  "get_head_state db = the_state db (fd_head db)"

definition getBlockData :: "fork_db \<Rightarrow> block_id \<Rightarrow> bytes option" where
  "getBlockData db i = map_of (blockData db) i"

definition setBlockData :: "fork_db \<Rightarrow> block_id \<Rightarrow> bytes \<Rightarrow> fork_db" where
  "setBlockData db i d = db\<lparr>blockData := map_insert i d (map_erase i (blockData db))\<rparr>"

definition log_block :: "env \<Rightarrow> fork_db \<Rightarrow> block_num \<Rightarrow> block option" where
  "log_block E db n = (case hs_revision (get_head_state db) of Some r \<Rightarrow> env_block_log E r n | None \<Rightarrow> None)"

definition log_proof :: "env \<Rightarrow> fork_db \<Rightarrow> block_num \<Rightarrow> bytes" where
  "log_proof E db n =
     (case hs_revision (get_head_state db) of
        Some r \<Rightarrow> (case env_block_proof E r n of Some p \<Rightarrow> p | None \<Rightarrow> [])
      | None \<Rightarrow> [])"

definition get_block :: "env \<Rightarrow> fork_db \<Rightarrow> block_id \<Rightarrow> signed_block option" where
  "get_block E db i =
     (case map_of (blocks db) i of
        Some b \<Rightarrow> Some b
      | None \<Rightarrow>
          (let n = getBlockNum i
           in case log_block E db n of
                Some b \<Rightarrow>
                  if info_blockId (the_info E (block_header b)) = i
                  then Some \<lparr>signed_block = b, block_signature = log_proof E db n, auxConsensusData = getBlockData db i\<rparr>
                  else None
              | None \<Rightarrow> None))"

definition get_block_id :: "env \<Rightarrow> fork_db \<Rightarrow> block_num \<Rightarrow> block_id" where
  "get_block_id E db n =
     (case map_of (byBlocknumIndex db) n of
        Some i \<Rightarrow> i
      | None \<Rightarrow>
          (case log_block E db (n + 1) of
             Some next \<Rightarrow> previous (block_header next)
           | None \<Rightarrow>
               (case log_block E db n of
                  Some b \<Rightarrow> info_blockId (the_info E (block_header b))
                | None \<Rightarrow> replicate 32 0)))"

definition get_block_by_num :: "env \<Rightarrow> fork_db \<Rightarrow> block_num \<Rightarrow> signed_block option" where
  "get_block_by_num E db n =
     (case map_of (byBlocknumIndex db) n of
        Some i \<Rightarrow> get_block E db i
      | None \<Rightarrow>
          (case log_block E db n of
             Some b \<Rightarrow> Some \<lparr>signed_block = b, block_signature = log_proof E db n,
               auxConsensusData = getBlockData db (info_blockId (the_info E (block_header b)))\<rparr>
           | None \<Rightarrow> None))"

text \<open>The block must be known: the code dereferences the pointer.\<close>

definition get_prev_id :: "env \<Rightarrow> fork_db \<Rightarrow> block_id \<Rightarrow> block_id option" where
  "get_prev_id E db i = map_option (\<lambda>b. previous (block_header (signed_block b))) (get_block E db i)"

definition in_best_chain :: "fork_db \<Rightarrow> xid \<Rightarrow> bool" where
  "in_best_chain db t = (map_of (byBlocknumIndex db) (xid_num t) = Some (xid_id t))"

definition getProducers :: "fork_db \<Rightarrow> producer_set option \<times> producer_set option" where
  "getProducers db =
     (let h = get_head_state db
      in if endsJointConsensus h then (hs_nextProducers h, None)
         else (Some (hs_producers h), hs_nextProducers h))"

section \<open>Insertion\<close>

definition validateBlockSignature ::
  "env \<Rightarrow> auth_state list \<Rightarrow> header_state \<Rightarrow> block_info \<Rightarrow> bytes \<Rightarrow> claim result" where
  "validateBlockSignature E heap prev info sig =
     bind_result (getNextAuthRevision heap prev) (\<lambda>auth.
       case getNextProducerClaim prev (header_producer (info_header info)) of
         None \<Rightarrow> Err (Runtime_Error ''Invalid producer for block'')
       | Some c \<Rightarrow>
           bind_result (check (env_prove E auth (BlockSignatureInfo info) c sig) ''proof invalid'') (\<lambda>_. Ok c))"

definition insert_block :: "env \<Rightarrow> fork_db \<Rightarrow> signed_block \<Rightarrow> (block_id option \<times> bool) outcome" where
  "insert_block E db b =
     (let info = the_info E (block_header (signed_block b));
          i = info_blockId info
      in if blockNum (info_header info) \<le> commitIndex db then (Ok (None, False), db)
         else if map_of (blocks db) i \<noteq> None
         then (Ok (if get_state db i \<noteq> None then Some i else None, False), db)
         else
           let db1 = db\<lparr>blocks := map_insert i b (blocks db)\<rparr>
           in case get_state db1 (previous (info_header info)) of
                None \<Rightarrow> (Ok (None, False), db)
              | Some prev \<Rightarrow>
                  (case validateBlockSignature E (authStates db1) prev info (block_signature b) of
                     Err e \<Rightarrow> (Err e, db)
                   | Ok _ \<Rightarrow>
                       (case next_header_state E (authStates db1) prev info None of
                          Err e \<Rightarrow> (Err e, db1)
                        | Ok (heap, s) \<Rightarrow>
                            let s' = (if hs_invalid prev then s\<lparr>hs_invalid := True\<rparr> else s);
                                db2 = db1\<lparr>authStates := heap, states := map_insert i s' (states db1)\<rparr>
                            in if \<not> hs_invalid prev \<and> map_of (byOrderIndex db) (hs_order prev) \<noteq> None
                               then (Ok (Some i, True), db2\<lparr>byOrderIndex := map_insert (hs_order s') i (byOrderIndex db2)\<rparr>)
                               else (Ok (Some i, True), db2))))"

definition erase_block :: "fork_db \<Rightarrow> block_id \<Rightarrow> fork_db" where
  "erase_block db i =
     db\<lparr>byOrderIndex := map_erase (hs_order (the_state db i)) (byOrderIndex db),
        blocks := map_erase (hs_id (the_state db i)) (blocks db),
        states := map_erase (hs_id (the_state db i)) (states db)\<rparr>"

definition setTerm :: "fork_db \<Rightarrow> term_num \<Rightarrow> fork_db" where
  "setTerm db t = db\<lparr>currentTerm := t\<rparr>"

section \<open>Subtrees\<close>

text \<open>The index of all valid blocks, built from the states in the order of their ids.\<close>

definition refill_index :: "(block_id, header_state) ordered_map \<Rightarrow> (block_order, block_id) ordered_map" where
  "refill_index sts =
     foldl (\<lambda>idx (i, s). if hs_invalid s then idx else map_insert (hs_order s) i idx) [] sts"

text \<open>The pruning pass: \<open>ids\<close> are the descendants of the root found so far.\<close>

fun prune_scan ::
  "(block_id, header_state) ordered_map \<Rightarrow> block_id \<Rightarrow> block_id set \<Rightarrow> (block_order, block_id) ordered_map \<Rightarrow>
   (block_order, block_id) ordered_map"
where
  "prune_scan sts root ids [] = []"
| "prune_scan sts root ids ((k, i) # idx) =
     (if i = root \<or> previous (hs_header (the (map_of sts i))) \<in> ids
      then (k, i) # prune_scan sts root (insert i ids) idx
      else prune_scan sts root ids idx)"

definition set_subtree :: "fork_db \<Rightarrow> block_id \<Rightarrow> unit outcome" where
  "set_subtree db root =
     (let s = the_state db root
      in if hs_invalid s then (Err Consensus_Failure, db)
         else
           let idx = (if map_of (byOrderIndex db) (hs_order s) = None then refill_index (states db) else byOrderIndex db)
           in (Ok (), db\<lparr>byOrderIndex := prune_scan (states db) (hs_id s) {} idx\<rparr>))"

fun blacklist_scan ::
  "(block_id, header_state) ordered_map \<Rightarrow> (block_order, block_id) ordered_map \<Rightarrow>
   (block_id, header_state) ordered_map \<times> (block_order, block_id) ordered_map"
where
  "blacklist_scan sts [] = (sts, [])"
| "blacklist_scan sts ((k, i) # idx) =
     (let current = the (map_of sts i);
          current' = (case map_of sts (previous (hs_header current)) of
                        Some prev \<Rightarrow> if hs_invalid prev then current\<lparr>hs_invalid := True\<rparr> else current
                      | None \<Rightarrow> current);
          sts' = map_assign i current' sts
      in if hs_invalid current' then blacklist_scan sts' idx
         else let (sts'', idx') = blacklist_scan sts' idx in (sts'', (k, i) # idx'))"

definition blacklist_subtree :: "fork_db \<Rightarrow> block_id \<Rightarrow> fork_db" where
  "blacklist_subtree db root =
     (let s = the_state db root;
          sts = map_assign root (s\<lparr>hs_invalid := True\<rparr>) (states db);
          before = takeWhile (\<lambda>p. fst p \<noteq> hs_order s) (byOrderIndex db);
          (sts', idx) = blacklist_scan sts (dropWhile (\<lambda>p. fst p \<noteq> hs_order s) (byOrderIndex db))
      in db\<lparr>states := sts', byOrderIndex := before @ idx\<rparr>)"

section \<open>Switching forks\<close>

type_synonym accept = "block_id \<Rightarrow> fork_db \<Rightarrow> fork_db"

text \<open>
  \<open>execute_block\<close>: every exception of the checks and of the execution makes the block fail. \<open>accept\<close> is the
  callback \<open>on_accept_block\<close>, whose exceptions are logged and dropped.
\<close>

definition execute_block :: "env \<Rightarrow> accept \<Rightarrow> fork_db \<Rightarrow> block_id \<Rightarrow> block_id \<Rightarrow> bool \<times> fork_db" where
  "execute_block E accept db prev i =
     (let s = the_state db i; p = the_state db prev
      in if hs_revision s \<noteq> None then (True, db)
         else
           let b = the (get_block E db (hs_id s))
           in case validateBlockSignature E (authStates db) p (hs_info s) (block_signature b) of
                Err _ \<Rightarrow> (False, db)
              | Ok c \<Rightarrow>
                  (case getProdsAuthRevision (authStates db) s of
                     Err _ \<Rightarrow> (False, db)
                   | Ok auth \<Rightarrow>
                       (case env_execute E (the (hs_revision p)) b c auth of
                          None \<Rightarrow> (False, db)
                        | Some (r, j) \<Rightarrow>
                            if j \<noteq> hs_id s then (False, db)
                            else (True, accept i (db\<lparr>states := map_assign i (s\<lparr>hs_revision := Some r\<rparr>) (states db)\<rparr>)))))"

text \<open>\<open>execute_fork\<close> from the block \<open>prev\<close>, with the entries of \<open>byBlocknumIndex\<close> after it.\<close>

fun execute_fork :: "env \<Rightarrow> accept \<Rightarrow> fork_db \<Rightarrow> block_id \<Rightarrow> (block_num \<times> block_id) list \<Rightarrow> bool \<times> fork_db" where
  "execute_fork E accept db prev [] = (True, db)"
| "execute_fork E accept db prev ((n, i) # rest) =
     (case execute_block E accept db prev i of
        (False, db1) \<Rightarrow>
          (False, (blacklist_subtree (db1\<lparr>byBlocknumIndex := map_erase_from n (byBlocknumIndex db1)\<rparr>) i)\<lparr>fd_head := prev\<rparr>)
      | (True, db1) \<Rightarrow>
          execute_fork E accept (db1\<lparr>headRevision := hs_revision (the_state db1 i)\<rparr>) i rest)"

text \<open>
  The first loop of \<open>trySetHead\<close>: the entries above the old head, from the new head downwards. \<open>cnt\<close> is the
  number of entries to add.
\<close>

fun extend_index ::
  "env \<Rightarrow> fork_db \<Rightarrow> nat \<Rightarrow> block_num \<Rightarrow> block_id \<Rightarrow> (block_num, block_id) ordered_map \<Rightarrow>
   ((block_num, block_id) ordered_map \<times> block_id) option"
where
  "extend_index E db 0 n i idx = Some (idx, i)"
| "extend_index E db (Suc cnt) n i idx =
     (case get_prev_id E db i of
        None \<Rightarrow> None
      | Some p \<Rightarrow> extend_index E db cnt (n - 1) p (map_insert n i idx))"

datatype relinked = Found block_num "(block_num, block_id) ordered_map"
  | Conflict "(block_num, block_id) ordered_map"
  | Off_End

text \<open>
  The second loop: \<open>todo\<close> are the entries from the iterator down to the first one, \<open>done\<close> those already
  passed. An entry of another fork is overwritten unless it is committed.
\<close>

fun relink ::
  "env \<Rightarrow> fork_db \<Rightarrow> (block_num \<times> block_id) list \<Rightarrow> block_id \<Rightarrow> (block_num \<times> block_id) list \<Rightarrow> relinked"
where
  "relink E db [] i passed = Off_End"
| "relink E db ((n, x) # todo) i passed =
     (if x = i then Found n (rev todo @ (n, x) # passed)
      else if n \<le> commitIndex db then Conflict (rev todo @ (n, x) # passed)
      else case get_prev_id E db i of
             None \<Rightarrow> Off_End
           | Some p \<Rightarrow> relink E db todo p ((n, i) # passed))"

definition trySetHead :: "env \<Rightarrow> accept \<Rightarrow> fork_db \<Rightarrow> block_id \<Rightarrow> bool outcome" where
  "trySetHead E accept db new_head =
     (if fd_head db = new_head then (Ok True, db)
      else
        let h = hs_num (get_head_state db);
            n = hs_num (the_state db new_head)
        in if n < h \<and> n < commitIndex db then (Err Consensus_Failure, db)
           else
             let idx0 = (if n < h then map_erase_from (n + 1) (byBlocknumIndex db) else byBlocknumIndex db)
             in case extend_index E db (unat n - unat h) n (hs_id (the_state db new_head)) idx0 of
                  None \<Rightarrow> (Err Undefined, db)
                | Some (idx, i) \<Rightarrow>
                    (case relink E db (rev (takeWhile (\<lambda>p. fst p \<le> min n h) idx)) i
                        (dropWhile (\<lambda>p. fst p \<le> min n h) idx) of
                       Off_End \<Rightarrow> (Err Undefined, db)
                     | Conflict idx' \<Rightarrow> (Err Consensus_Failure, db\<lparr>byBlocknumIndex := idx'\<rparr>)
                     | Found m idx' \<Rightarrow>
                         (case execute_fork E accept (db\<lparr>byBlocknumIndex := idx'\<rparr>) (the (map_of idx' m))
                             (dropWhile (\<lambda>p. fst p \<le> m) idx') of
                            (True, db') \<Rightarrow> (Ok True, db'\<lparr>fd_head := new_head\<rparr>)
                          | (False, db') \<Rightarrow> (Ok False, db'))))"

text \<open>
  The best block that may become head: the greatest entry of \<open>byOrderIndex\<close> below
  \<open>(currentTerm + 1, 0, Checksum256{})\<close>.
\<close>

definition best_block :: "fork_db \<Rightarrow> block_id option" where
  "best_block db =
     (let pos = takeWhile (\<lambda>p. fst p < (currentTerm db + 1, 0, replicate 32 0)) (byOrderIndex db)
      in if pos = [] then None else Some (snd (last pos)))"

text \<open>A block being built is kept when it is certain to be better than the best block.\<close>

definition keep_pending :: "fork_db \<Rightarrow> block_id \<Rightarrow> block_id \<Rightarrow> bool" where
  "keep_pending db original_head new_head =
     (case blockContext db of
        None \<Rightarrow> False
      | Some bc \<Rightarrow>
          \<not> pb_needGenesisAction bc \<and>
          map_of (byOrderIndex db) (hs_order (the_state db original_head)) \<noteq> None \<and>
          hs_order (the_state db new_head) <
            (termNum (block_header (pb_block bc)), blockNum (block_header (pb_block bc)), replicate 32 0))"

partial_function (option) switch_loop :: "env \<Rightarrow> accept \<Rightarrow> block_id \<Rightarrow> fork_db \<Rightarrow> (bool outcome) option" where
  "switch_loop E accept original_head db =
     (case best_block db of
        None \<Rightarrow> Some (Err Consensus_Failure, db)
      | Some new_head \<Rightarrow>
          if keep_pending db original_head new_head
          then Some (if original_head \<noteq> fd_head db
                     then (case trySetHead E accept db original_head of (Ok _, db') \<Rightarrow> (Ok False, db') | (Err e, db') \<Rightarrow> (Err e, db'))
                     else (Ok False, db))
          else (case trySetHead E accept db new_head of
                  (Err e, db') \<Rightarrow> Some (Err e, db')
                | (Ok b, db') \<Rightarrow> if b then Some (Ok True, db') else switch_loop E accept original_head db'))"

declare switch_loop.simps [code]

text \<open>The result says whether \<open>callback\<close> is called: the loop was left by \<open>break\<close> and the head has changed.\<close>

definition async_switch_fork :: "env \<Rightarrow> accept \<Rightarrow> fork_db \<Rightarrow> (bool outcome) option" where
  "async_switch_fork E accept db =
     map_option (\<lambda>(r, db'). (case r of Ok b \<Rightarrow> Ok (b \<and> fd_head db' \<noteq> fd_head db) | Err e \<Rightarrow> Err e, db'))
       (switch_loop E accept (fd_head db) db)"

section \<open>Committing and garbage collection\<close>

text \<open>One step of the loop over the blocks that become irreversible.\<close>

definition commit_block :: "env \<Rightarrow> fork_db \<Rightarrow> block_num \<Rightarrow> fork_db" where
  "commit_block E db n =
     (let i = get_block_id E db n;
          s = the_state db i;
          db1 = (if needsIrreversibleSignature s \<and> getBlockData db i = None
                 then case auxConsensusData (the (map_of (blocks db) i)) of
                        Some d \<Rightarrow> setBlockData db i d
                      | None \<Rightarrow> db
                 else db)
      in db1\<lparr>onCommit_calls := onCommit_calls db1 @ [i]\<rparr>)"

definition commit :: "env \<Rightarrow> fork_db \<Rightarrow> block_num \<Rightarrow> bool outcome" where
  "commit E db num =
     (let new = max (min num (hs_num (get_head_state db))) (commitIndex db);
          db1 = foldl (commit_block E) db (map of_nat [unat (commitIndex db)..<unat new])
      in case (if fst (snd (fst (hd (byOrderIndex db1)))) < new then set_subtree db1 (get_block_id E db1 new) else (Ok (), db1)) of
           (Err e, db2) \<Rightarrow> (Err e, db2)
         | (Ok _, db2) \<Rightarrow> (Ok (new \<noteq> commitIndex db), db2\<lparr>commitIndex := new\<rparr>))"

text \<open>The pass of \<open>gc\<close> over the blocks. The ids given to its callback are returned in order.\<close>

definition gc_remove :: "fork_db \<Rightarrow> block_id \<Rightarrow> signed_block \<Rightarrow> bool" where
  "gc_remove db i b =
     (let n = getBlockNum i
      in n < commitIndex db \<or>
         n = commitIndex db \<and> \<not> in_best_chain db \<lparr>xid_id = i, xid_num = n\<rparr> \<or>
         commitIndex db < n \<and> get_state db (previous (block_header (signed_block b))) = None)"

fun gc_scan :: "fork_db \<Rightarrow> (block_id \<times> signed_block) list \<Rightarrow> fork_db \<times> block_id list" where
  "gc_scan db [] = (db, [])"
| "gc_scan db ((i, b) # rest) =
     (if gc_remove db i b
      then
        let db1 = (case get_state db i of
                     Some s \<Rightarrow> db\<lparr>byOrderIndex := map_erase (hs_order s) (byOrderIndex db), states := map_erase i (states db)\<rparr>
                   | None \<Rightarrow> db);
            (db2, erased) = gc_scan (db1\<lparr>blocks := map_erase i (blocks db1)\<rparr>) rest
        in (db2, i # erased)
      else gc_scan db rest)"

definition gc :: "fork_db \<Rightarrow> fork_db \<times> block_id list" where
  "gc db =
     (let (db1, erased) = gc_scan db (blocks db)
      in (db1\<lparr>byBlocknumIndex := dropWhile (\<lambda>p. fst p \<noteq> commitIndex db1) (byBlocknumIndex db1)\<rparr>, erased))"

section \<open>Ancestors\<close>

fun get_ancestor :: "env \<Rightarrow> fork_db \<Rightarrow> block_id \<Rightarrow> nat \<Rightarrow> block_id option" where
  "get_ancestor E db i 0 = Some i"
| "get_ancestor E db i (Suc n) =
     (case get_prev_id E db i of None \<Rightarrow> None | Some p \<Rightarrow> get_ancestor E db p n)"

text \<open>The last loop of \<open>get_common_ancestor\<close>, over the entries from the iterator down.\<close>

fun common_ancestor_scan :: "env \<Rightarrow> fork_db \<Rightarrow> (block_num \<times> block_id) list \<Rightarrow> block_id \<Rightarrow> xid result" where
  "common_ancestor_scan E db [] i = Err Undefined"
| "common_ancestor_scan E db ((n, x) # todo) i =
     (if x = i then Ok \<lparr>xid_id = x, xid_num = n\<rparr>
      else if todo = [] then Err (Runtime_Error ''no common ancestor'')
      else case get_prev_id E db i of
             None \<Rightarrow> Err Undefined
           | Some p \<Rightarrow> common_ancestor_scan E db todo p)"

definition get_common_ancestor :: "env \<Rightarrow> fork_db \<Rightarrow> xid \<Rightarrow> xid result" where
  "get_common_ancestor E db t =
     (case map_of (byBlocknumIndex db) (xid_num t) of
        Some _ \<Rightarrow> common_ancestor_scan E db (rev (takeWhile (\<lambda>p. fst p \<le> xid_num t) (byBlocknumIndex db))) (xid_id t)
      | None \<Rightarrow>
          (let top = fst (last (byBlocknumIndex db))
           in if top < xid_num t
              then case get_ancestor E db (xid_id t) (unat (xid_num t - top)) of
                     None \<Rightarrow> Err Undefined
                   | Some i \<Rightarrow> common_ancestor_scan E db (rev (byBlocknumIndex db)) i
              else
                let existing = get_block_id E db (xid_num t)
                in if existing = xid_id t then Ok t
                   else if existing \<noteq> replicate 32 0
                   then Err (Runtime_Error ''Cannot find common ancestor for block because it has been irreversibly forked'')
                   else Err (Runtime_Error ''Cannot find common ancestor for block because it is not known'')))"

text \<open>\<open>cnt\<close> is the number of values that the loop variable of \<open>is_ancestor\<close> takes.\<close>

fun ancestor_scan :: "env \<Rightarrow> fork_db \<Rightarrow> block_id \<Rightarrow> block_id \<Rightarrow> nat \<Rightarrow> bool" where
  "ancestor_scan E db a i 0 = False"
| "ancestor_scan E db a i (Suc cnt) =
     (if i = a then True
      else case get_prev_id E db i of None \<Rightarrow> False | Some p \<Rightarrow> ancestor_scan E db a p cnt)"

definition is_ancestor :: "env \<Rightarrow> fork_db \<Rightarrow> xid \<Rightarrow> xid \<Rightarrow> bool" where
  "is_ancestor E db a d = ancestor_scan E db (xid_id a) (xid_id d) (Suc (unat (xid_num d)) - unat (xid_num a))"

section \<open>Block production\<close>

definition start_block :: "fork_db \<Rightarrow> pending_block \<Rightarrow> fork_db" where
  "start_block db bc = db\<lparr>blockContext := Some bc\<rparr>"

definition abort_block :: "fork_db \<Rightarrow> fork_db" where
  "abort_block db = db\<lparr>blockContext := None\<rparr>"

definition finish_block :: "env \<Rightarrow> (header_state \<Rightarrow> bytes option) \<Rightarrow> fork_db \<Rightarrow> block_id option \<times> fork_db" where
  "finish_block E makeData db =
     (case blockContext db of
        None \<Rightarrow> (None, db)
      | Some bc \<Rightarrow>
          if pb_needGenesisAction bc then (None, abort_block db)
          else
            let h = get_head_state db;
                failed = (None, db\<lparr>blockContext := None\<rparr>)
            in case getNextProducerClaim h (header_producer (block_header (pb_block bc))) of
                 None \<Rightarrow> failed
               | Some c \<Rightarrow>
                   (case getNextAuthRevision (authStates db) h of
                      Err _ \<Rightarrow> failed
                    | Ok auth \<Rightarrow>
                        (case env_produce E (pb_block bc) c auth of
                           None \<Rightarrow> failed
                         | Some (r, info) \<Rightarrow>
                             (case next_header_state E (authStates db) h info (Some r) of
                                Err _ \<Rightarrow> (None, db\<lparr>blockContext := None, headRevision := Some r\<rparr>)
                              | Ok (heap, s) \<Rightarrow>
                                  let i = info_blockId info;
                                      b = \<lparr>signed_block = (pb_block bc)\<lparr>block_header := info_header info\<rparr>,
                                           block_signature = (case env_block_proof E r (blockNum (info_header info)) of
                                              Some p \<Rightarrow> p | None \<Rightarrow> []),
                                           auxConsensusData = makeData s\<rparr>
                                  in (Some i, db\<lparr>blockContext := None, headRevision := Some r, authStates := heap,
                                        states := map_insert i s (states db),
                                        byOrderIndex := map_insert (hs_order s) i (byOrderIndex db),
                                        fd_head := i,
                                        byBlocknumIndex := map_insert (blockNum (info_header info)) i (byBlocknumIndex db),
                                        blocks := map_insert i b (blocks db)\<rparr>)))))"

section \<open>A new chain\<close>

text \<open>
  The constructor for an empty database: \<open>r\<close> is its revision, and the only state that of block 1. Its
  authentication state is read from the database.
\<close>

definition new_chain :: "env \<Rightarrow> revision \<Rightarrow> fork_db result" where
  "new_chain E r =
     bind_result (loadAuthState E [] (initial_header_state\<lparr>hs_revision := Some r\<rparr>)) (\<lambda>(heap, s).
       Ok \<lparr>blockContext = None, commitIndex = hs_num s, logStart = 0, currentTerm = termNum (hs_header s),
           fd_head = hs_id s, blocks = [], states = [(hs_id s, s)],
           byOrderIndex = [(hs_order s, hs_id s)], byBlocknumIndex = [(hs_num s, hs_id s)],
           authStates = heap, blockData = [], headRevision = Some r, onCommit_calls = []\<rparr>)"

end
