(* ===== verification/Fork_Tree.thy ===== *)
theory Fork_Tree
  imports Fork_Db
begin

text \<open>
  The tree of blocks in the fork database: descent, the invariant of the states and of \<open>byOrderIndex\<close>, and
  what the two single-pass scans \<open>set_subtree\<close> and \<open>blacklist_subtree\<close> compute. Both rely on a block being
  after its parent in the order of \<open>byOrderIndex\<close>.
\<close>

declare split_paired_All [simp del] split_paired_Ex [simp del]

section \<open>Descent\<close>

definition prev_of :: "fork_db \<Rightarrow> block_id \<Rightarrow> block_id" where
  "prev_of db i = previous (hs_header (the_state db i))"

text \<open>The state of block 1 is its own predecessor, and has no parent.\<close>

definition child_of :: "fork_db \<Rightarrow> block_id \<Rightarrow> block_id \<Rightarrow> bool" where
  "child_of db i p \<longleftrightarrow> get_state db i \<noteq> None \<and> get_state db p \<noteq> None \<and> prev_of db i = p \<and> p \<noteq> i"

definition descends :: "fork_db \<Rightarrow> block_id \<Rightarrow> block_id \<Rightarrow> bool" where
  "descends db i r \<longleftrightarrow> (child_of db)\<^sup>*\<^sup>* i r"

lemma descends_refl [simp]: "descends db i i"
  by (simp add: descends_def)

lemma descends_step: "descends db i r \<longleftrightarrow> i = r \<or> child_of db i (prev_of db i) \<and> descends db (prev_of db i) r"
proof
  assume "descends db i r"
  then show "i = r \<or> child_of db i (prev_of db i) \<and> descends db (prev_of db i) r"
    unfolding descends_def by (cases rule: converse_rtranclpE) (auto simp: child_of_def)
next
  assume "i = r \<or> child_of db i (prev_of db i) \<and> descends db (prev_of db i) r"
  then show "descends db i r"
    unfolding descends_def by (auto intro: converse_rtranclp_into_rtranclp)
qed

lemma descends_trans: "descends db i j \<Longrightarrow> descends db j k \<Longrightarrow> descends db i k"
  unfolding descends_def by (rule rtranclp_trans)

section \<open>The invariant\<close>

text \<open>What a header says of its position: producers number their blocks one after the other, never
  lower the term, and never claim that a later block is irreversible.\<close>

definition extends :: "header_state \<Rightarrow> header_state \<Rightarrow> bool" where
  "extends p s \<longleftrightarrow>
     unat (hs_num s) = Suc (unat (hs_num p)) \<and> termNum (hs_header p) \<le> termNum (hs_header s) \<and>
     commitNum (hs_header s) \<le> hs_num s"

definition valid_at :: "fork_db \<Rightarrow> block_id \<Rightarrow> bool" where
  "valid_at db i \<longleftrightarrow> (\<exists>s. get_state db i = Some s \<and> \<not> hs_invalid s)"

definition indexed :: "fork_db \<Rightarrow> block_id \<Rightarrow> bool" where
  "indexed db i \<longleftrightarrow> i \<in> snd ` set (byOrderIndex db)"

definition states_inv :: "fork_db \<Rightarrow> bool" where
  "states_inv db \<longleftrightarrow>
     ordered (states db) \<and>
     (\<forall>i s. get_state db i = Some s \<longrightarrow> hs_id s = i) \<and>
     (\<forall>i p. child_of db i p \<longrightarrow> extends (the_state db p) (the_state db i)) \<and>
     (\<forall>i p. child_of db i p \<longrightarrow> hs_invalid (the_state db p) \<longrightarrow> hs_invalid (the_state db i))"

definition index_inv :: "fork_db \<Rightarrow> bool" where
  "index_inv db \<longleftrightarrow>
     ordered (byOrderIndex db) \<and>
     (\<forall>k i. (k, i) \<in> set (byOrderIndex db) \<longrightarrow> valid_at db i \<and> k = hs_order (the_state db i)) \<and>
     (\<forall>i p. child_of db i p \<longrightarrow> indexed db p \<longrightarrow> valid_at db i \<longrightarrow> indexed db i)"

lemma states_invD:
  assumes "states_inv db"
  shows "ordered (states db)"
    and "get_state db i = Some s \<Longrightarrow> hs_id s = i"
    and "child_of db i p \<Longrightarrow> extends (the_state db p) (the_state db i)"
    and "child_of db i p \<Longrightarrow> hs_invalid (the_state db p) \<Longrightarrow> hs_invalid (the_state db i)"
  using assms by (auto simp: states_inv_def)

lemma index_invD:
  assumes "index_inv db"
  shows "ordered (byOrderIndex db)"
    and "(k, i) \<in> set (byOrderIndex db) \<Longrightarrow> valid_at db i \<and> k = hs_order (the_state db i)"
    and "child_of db i p \<Longrightarrow> indexed db p \<Longrightarrow> valid_at db i \<Longrightarrow> indexed db i"
  using assms unfolding index_inv_def by blast+

lemma order_less_child:
  assumes "states_inv db" "child_of db i p"
  shows "hs_order (the_state db p) < hs_order (the_state db i)"
proof -
  have "extends (the_state db p) (the_state db i)" by (rule states_invD(3) [OF assms])
  then have "termNum (hs_header (the_state db p)) \<le> termNum (hs_header (the_state db i))"
    "hs_num (the_state db p) < hs_num (the_state db i)"
    by (auto simp: extends_def word_less_nat_alt)
  then show ?thesis by (auto simp: hs_order_def less_prod_def order_le_less)
qed

lemma order_inject:
  assumes "states_inv db" "get_state db i = Some s" "get_state db j = Some t" "hs_order s = hs_order t"
  shows "i = j"
  using assms(4) states_invD(2) [OF assms(1,2)] states_invD(2) [OF assms(1,3)] by (simp add: hs_order_def)

lemma valid_parent: "states_inv db \<Longrightarrow> child_of db i p \<Longrightarrow> valid_at db i \<Longrightarrow> valid_at db p"
  by (fastforce simp: valid_at_def child_of_def dest: states_invD(4))

lemma indexed_iff:
  assumes "index_inv db"
  shows "indexed db i \<longleftrightarrow> (hs_order (the_state db i), i) \<in> set (byOrderIndex db)"
  using index_invD(2) [OF assms] by (force simp: indexed_def)

lemma indexed_find:
  assumes "states_inv db" "index_inv db" "get_state db i = Some s"
  shows "map_of (byOrderIndex db) (hs_order s) \<noteq> None \<longleftrightarrow> indexed db i"
proof
  assume "map_of (byOrderIndex db) (hs_order s) \<noteq> None"
  then obtain j where j: "(hs_order s, j) \<in> set (byOrderIndex db)" by (auto dest: map_of_SomeD)
  then obtain t where t: "get_state db j = Some t" "hs_order s = hs_order t"
    using index_invD(2) [OF assms(2) j] by (auto simp: valid_at_def)
  with order_inject [OF assms(1,3) t(1)] j show "indexed db i" by (force simp: indexed_def)
next
  assume "indexed db i"
  then have "(hs_order s, i) \<in> set (byOrderIndex db)" using assms(3) by (simp add: indexed_iff [OF assms(2)])
  then show "map_of (byOrderIndex db) (hs_order s) \<noteq> None"
    by (metis map_of_eq_None_iff fst_conv image_eqI)
qed

section \<open>Setting the root\<close>

lemma prune_scan_filter:
  assumes "ordered idx"
    and "\<forall>k i. (k, i) \<in> set idx \<longrightarrow>
      (Q i \<longleftrightarrow> i = root \<or> prv i \<in> ids \<or> Q (prv i) \<and> (\<exists>k'. (k', prv i) \<in> set idx \<and> k' < k))"
    and "\<forall>k i. (k, i) \<in> set idx \<longrightarrow> prv i = previous (hs_header (the (map_of sts i)))"
  shows "prune_scan sts root ids idx = filter (\<lambda>(k, i). Q i) idx"
  using assms
proof (induction idx arbitrary: ids)
  case (Cons e idx)
  obtain k0 i0 where e: "e = (k0, i0)" by fastforce
  have "\<forall>q \<in> set idx. k0 < fst q" using Cons.prems(1) by (simp add: e)
  then have less: "k0 < k" if "(k, i) \<in> set idx" for k i using that by (metis fst_conv)
  have "\<not> (\<exists>k'. (k', prv i0) \<in> set (e # idx) \<and> k' < k0)"
    using less by (auto simp: e dest: less_asym)
  moreover have "(k0, i0) \<in> set (e # idx)" by (simp add: e)
  ultimately have head: "Q i0 \<longleftrightarrow> i0 = root \<or> prv i0 \<in> ids"
    using Cons.prems(2) by blast
  define ids' where "ids' = (if Q i0 then insert i0 ids else ids)"
  have "Q i \<longleftrightarrow> i = root \<or> prv i \<in> ids' \<or> Q (prv i) \<and> (\<exists>k'. (k', prv i) \<in> set idx \<and> k' < k)"
    if i: "(k, i) \<in> set idx" for k i
  proof -
    have "Q i \<longleftrightarrow> i = root \<or> prv i \<in> ids \<or> Q (prv i) \<and> (\<exists>k'. (k', prv i) \<in> set (e # idx) \<and> k' < k)"
      using Cons.prems(2) i by simp
    with less [OF i] show ?thesis by (auto simp: ids'_def e)
  qed
  then have "prune_scan sts root ids' idx = filter (\<lambda>(k, i). Q i) idx"
    using Cons.prems by (intro Cons.IH) auto
  with head Cons.prems(3) show ?case by (auto simp: e ids'_def)
qed simp

lemma refill_fold:
  assumes "ordered idx" "\<forall>p \<in> set sts. hs_id (snd p) = fst p" "\<forall>p \<in> set idx. snd (snd (fst p)) = snd p"
  shows "ordered (foldl (\<lambda>idx (i, s). if hs_invalid s then idx else map_insert (hs_order s) i idx) idx sts) \<and>
    set (foldl (\<lambda>idx (i, s). if hs_invalid s then idx else map_insert (hs_order s) i idx) idx sts) =
      set idx \<union> {(hs_order s, i) | i s. (i, s) \<in> set sts \<and> \<not> hs_invalid s}"
  using assms
proof (induction sts arbitrary: idx)
  case (Cons e sts)
  obtain i s where e: "e = (i, s)" by fastforce
  let ?idx = "if hs_invalid s then idx else map_insert (hs_order s) i idx"
  have i: "snd (snd (hs_order s)) = i" using Cons.prems by (simp add: e hs_order_def)
  have ord: "ordered ?idx" using Cons.prems by (simp add: ordered_map_insert)
  have "hs_order s \<in> fst ` set idx \<Longrightarrow> (hs_order s, i) \<in> set idx"
    using Cons.prems(3) i by (metis (no_types, lifting) image_iff prod.collapse)
  then have st: "set ?idx = set idx \<union> (if hs_invalid s then {} else {(hs_order s, i)})"
    using Cons.prems(1) by (cases "hs_order s \<in> fst ` set idx") (simp_all add: set_map_insert insert_absorb)
  have "\<forall>p \<in> set ?idx. snd (snd (fst p)) = snd p" using Cons.prems(3) i unfolding st by auto
  then have "ordered (foldl (\<lambda>idx (i, s). if hs_invalid s then idx else map_insert (hs_order s) i idx) ?idx sts) \<and>
    set (foldl (\<lambda>idx (i, s). if hs_invalid s then idx else map_insert (hs_order s) i idx) ?idx sts) =
      set ?idx \<union> {(hs_order s, i) | i s. (i, s) \<in> set sts \<and> \<not> hs_invalid s}"
    using Cons.prems(2) by (intro Cons.IH ord) auto
  then show ?case unfolding st by (auto simp: e)
qed simp

lemma refill_index_props:
  assumes "states_inv db"
  shows "ordered (refill_index (states db))"
    and "(k, i) \<in> set (refill_index (states db)) \<longleftrightarrow> valid_at db i \<and> k = hs_order (the_state db i)"
proof -
  have mem: "(i, s) \<in> set (states db) \<longleftrightarrow> get_state db i = Some s" for i s
    using ordered_map_of [OF states_invD(1) [OF assms]] by (simp add: get_state_def)
  have "\<forall>p \<in> set (states db). hs_id (snd p) = fst p"
    using states_invD(2) [OF assms] mem by (metis prod.collapse)
  then have f: "ordered (refill_index (states db)) \<and> set (refill_index (states db)) =
      {(hs_order s, i) | i s. (i, s) \<in> set (states db) \<and> \<not> hs_invalid s}"
    using refill_fold [of "[]" "states db"] by (simp add: refill_index_def)
  show "ordered (refill_index (states db))" using f by simp
  show "(k, i) \<in> set (refill_index (states db)) \<longleftrightarrow> valid_at db i \<and> k = hs_order (the_state db i)"
    using f by (auto simp: mem valid_at_def)
qed

text \<open>An index over valid blocks that is closed under valid children of the root's tree is pruned to that tree.\<close>

lemma prune_index:
  assumes st: "states_inv db" and root: "valid_at db root"
    and ord: "ordered idx"
    and sub: "\<And>k i. (k, i) \<in> set idx \<Longrightarrow> valid_at db i \<and> k = hs_order (the_state db i)"
    and cov: "\<And>i. valid_at db i \<Longrightarrow> descends db i root \<Longrightarrow> (hs_order (the_state db i), i) \<in> set idx"
  shows "prune_scan (states db) root {} idx = filter (\<lambda>(k, i). descends db i root) idx"
proof (rule prune_scan_filter [where prv = "prev_of db"])
  show "ordered idx" by (rule ord)
  show "\<forall>k i. (k, i) \<in> set idx \<longrightarrow> prev_of db i = previous (hs_header (the (map_of (states db) i)))"
    by (simp add: prev_of_def get_state_def)
  show "\<forall>k i. (k, i) \<in> set idx \<longrightarrow> (descends db i root \<longleftrightarrow> i = root \<or> prev_of db i \<in> {} \<or>
      descends db (prev_of db i) root \<and> (\<exists>k'. (k', prev_of db i) \<in> set idx \<and> k' < k))"
  proof (intro allI impI)
    fix k i
    assume "(k, i) \<in> set idx"
    then have i: "valid_at db i" "k = hs_order (the_state db i)" using sub by auto
    have "child_of db i (prev_of db i)" if "(k', prev_of db i) \<in> set idx" "k' < k" for k'
      using sub [OF that(1)] that(2) i by (auto simp: child_of_def valid_at_def)
    moreover have "\<exists>k'. (k', prev_of db i) \<in> set idx \<and> k' < k"
      if c: "child_of db i (prev_of db i)" "descends db (prev_of db i) root"
      using cov [OF valid_parent [OF st c(1) i(1)] c(2)] order_less_child [OF st c(1)] i(2) by auto
    ultimately show "descends db i root \<longleftrightarrow> i = root \<or> prev_of db i \<in> {} \<or>
      descends db (prev_of db i) root \<and> (\<exists>k'. (k', prev_of db i) \<in> set idx \<and> k' < k)"
      by (subst descends_step) blast
  qed
qed

lemma indexed_descendants:
  assumes "states_inv db" "index_inv db" "indexed db root" "valid_at db i" "descends db i root"
  shows "indexed db i"
proof -
  have "(child_of db)\<^sup>*\<^sup>* i root" using assms(5) by (simp add: descends_def)
  then show ?thesis using assms(4)
  proof (induction rule: converse_rtranclp_induct)
    case base
    show ?case by (rule assms(3))
  next
    case (step i p)
    with index_invD(3) [OF assms(2)] valid_parent [OF assms(1)] show ?case by blast
  qed
qed

lemma set_subtree_index:
  assumes "states_inv db" "index_inv db" "valid_at db root"
  obtains idx where "set_subtree db root = (Ok (), db\<lparr>byOrderIndex := idx\<rparr>)" "ordered idx"
    "\<And>k i. (k, i) \<in> set idx \<longleftrightarrow> valid_at db i \<and> descends db i root \<and> k = hs_order (the_state db i)"
proof -
  obtain s where s: "get_state db root = Some s" "\<not> hs_invalid s" using assms(3) by (auto simp: valid_at_def)
  have id: "hs_id s = root" by (rule states_invD(2) [OF assms(1) s(1)])
  define idx0 where
    "idx0 = (if map_of (byOrderIndex db) (hs_order s) = None then refill_index (states db) else byOrderIndex db)"
  have found: "map_of (byOrderIndex db) (hs_order s) \<noteq> None \<longleftrightarrow> indexed db root"
    by (rule indexed_find [OF assms(1,2) s(1)])
  have ord: "ordered idx0" using refill_index_props(1) [OF assms(1)] index_invD(1) [OF assms(2)] by (simp add: idx0_def)
  have sub: "valid_at db i \<and> k = hs_order (the_state db i)" if "(k, i) \<in> set idx0" for k i
    using that refill_index_props(2) [OF assms(1)] index_invD(2) [OF assms(2)] by (auto simp: idx0_def split: if_splits)
  have cov: "(hs_order (the_state db i), i) \<in> set idx0" if "valid_at db i" "descends db i root" for i
  proof (cases "indexed db root")
    case True
    then show ?thesis
      using indexed_descendants [OF assms(1,2) _ that] indexed_iff [OF assms(2), of i] found by (auto simp: idx0_def)
  next
    case False
    with found that(1) show ?thesis by (simp add: idx0_def refill_index_props(2) [OF assms(1)])
  qed
  have "set_subtree db root = (Ok (), db\<lparr>byOrderIndex := prune_scan (states db) root {} idx0\<rparr>)"
    by (simp add: set_subtree_def s id idx0_def Let_def)
  moreover have p: "prune_scan (states db) root {} idx0 = filter (\<lambda>(k, i). descends db i root) idx0"
    using prune_index [OF assms(1,3) ord sub cov] .
  ultimately show thesis
    using sub cov by (intro that [of "filter (\<lambda>(k, i). descends db i root) idx0"]) (auto simp: ordered_filter [OF ord])
qed

section \<open>Blacklisting\<close>

definition mark_invalid :: "block_id set \<Rightarrow> (block_id, header_state) ordered_map \<Rightarrow> (block_id, header_state) ordered_map" where
  "mark_invalid S sts = map (\<lambda>(i, s). (i, if i \<in> S then s\<lparr>hs_invalid := True\<rparr> else s)) sts"

lemma map_of_mark_invalid [simp]:
  "map_of (mark_invalid S sts) i = map_option (\<lambda>s. if i \<in> S then s\<lparr>hs_invalid := True\<rparr> else s) (map_of sts i)"
  by (induction sts) (auto simp: mark_invalid_def)

lemma ordered_mark_invalid [simp]: "ordered (mark_invalid S sts) = ordered sts"
  by (simp add: ordered_def mark_invalid_def comp_def case_prod_beta)

lemma mark_invalid_mark_invalid [simp]: "mark_invalid S (mark_invalid T sts) = mark_invalid (S \<union> T) sts"
  by (auto simp: mark_invalid_def)

lemma mark_invalid_empty [simp]: "mark_invalid {} sts = sts"
  by (simp add: mark_invalid_def)

lemma invalid_update_same: "hs_invalid s \<Longrightarrow> s\<lparr>hs_invalid := True\<rparr> = s"
  by (cases s) simp

lemma mark_invalid_cong:
  "(\<And>i s. (i, s) \<in> set sts \<Longrightarrow> \<not> hs_invalid s \<Longrightarrow> i \<in> S \<longleftrightarrow> i \<in> T) \<Longrightarrow> mark_invalid S sts = mark_invalid T sts"
  unfolding mark_invalid_def by (rule map_cong) (auto simp: invalid_update_same; metis invalid_update_same)+

lemma ordered_unique: "ordered m \<Longrightarrow> (k, v) \<in> set m \<Longrightarrow> (k, w) \<in> set m \<Longrightarrow> v = w"
  by (metis ordered_map_of option.inject)

lemma map_assign_mark:
  "ordered sts \<Longrightarrow> map_of sts i = Some s \<Longrightarrow> map_assign i (s\<lparr>hs_invalid := True\<rparr>) sts = mark_invalid {i} sts"
  by (auto simp: map_assign_def mark_invalid_def ordered_map_of dest: ordered_unique)

lemma map_assign_same: "ordered sts \<Longrightarrow> map_of sts i = Some s \<Longrightarrow> map_assign i s sts = sts"
  by (auto simp: map_assign_def ordered_map_of intro!: map_idI dest: ordered_unique)

definition parent_invalid :: "(block_id, header_state) ordered_map \<Rightarrow> block_id \<Rightarrow> bool" where
  "parent_invalid sts p = (case map_of sts p of Some s \<Rightarrow> hs_invalid s | None \<Rightarrow> False)"

lemma blacklist_scan_step:
  assumes "ordered sts" "map_of sts i = Some s"
    and "i \<in> B \<longleftrightarrow> hs_invalid s \<or> parent_invalid sts (previous (hs_header s))"
  shows "blacklist_scan sts ((k, i) # idx) =
    (let (sts', idx') = blacklist_scan (mark_invalid (B \<inter> {i}) sts) idx
     in (sts', if i \<in> B then idx' else (k, i) # idx'))"
proof (cases "i \<in> B")
  case True
  let ?p = "map_of sts (previous (hs_header s))"
  have "(case ?p of Some prev \<Rightarrow> if hs_invalid prev then s\<lparr>hs_invalid := True\<rparr> else s | None \<Rightarrow> s) = s\<lparr>hs_invalid := True\<rparr>"
    using True assms(3) by (auto simp: parent_invalid_def invalid_update_same split: option.splits)
  with True assms(1,2) show ?thesis by (simp add: Let_def map_assign_mark case_prod_beta)
next
  case False
  then have "(case map_of sts (previous (hs_header s)) of
      Some prev \<Rightarrow> if hs_invalid prev then s\<lparr>hs_invalid := True\<rparr> else s | None \<Rightarrow> s) = s" "\<not> hs_invalid s"
    using assms(3) by (auto simp: parent_invalid_def split: option.splits)
  with False assms(1,2) show ?thesis by (simp add: Let_def map_assign_same)
qed

lemma blacklist_scan_mark:
  assumes "ordered idx" "ordered sts" "\<forall>p \<in> set idx. map_of sts (snd p) \<noteq> None"
    and "\<forall>k i. (k, i) \<in> set idx \<longrightarrow> prv i = previous (hs_header (the (map_of sts i)))"
    and "\<forall>k i. (k, i) \<in> set idx \<longrightarrow>
      (i \<in> B \<longleftrightarrow> hs_invalid (the (map_of sts i)) \<or> parent_invalid sts (prv i) \<or>
        prv i \<in> B \<and> (\<exists>k'. (k', prv i) \<in> set idx \<and> k' < k))"
  shows "blacklist_scan sts idx = (mark_invalid (B \<inter> snd ` set idx) sts, filter (\<lambda>(k, i). i \<notin> B) idx)"
  using assms
proof (induction idx arbitrary: sts)
  case (Cons e idx)
  obtain k0 i0 where e: "e = (k0, i0)" by fastforce
  obtain s0 where s0: "map_of sts i0 = Some s0" using Cons.prems(3) by (auto simp: e)
  have "\<forall>q \<in> set idx. k0 < fst q" using Cons.prems(1) by (simp add: e)
  then have less: "k0 < k" if "(k, i) \<in> set idx" for k i using that by (metis fst_conv)
  have mem: "(k0, i0) \<in> set (e # idx)" by (simp add: e)
  have "\<not> (\<exists>k'. (k', prv i0) \<in> set (e # idx) \<and> k' < k0)"
    using less by (auto simp: e dest: less_asym)
  moreover have "prv i0 = previous (hs_header s0)" using Cons.prems(4) mem s0 by (metis option.sel)
  ultimately have head: "i0 \<in> B \<longleftrightarrow> hs_invalid s0 \<or> parent_invalid sts (previous (hs_header s0))"
    using Cons.prems(5) mem s0 by (metis option.sel)
  define sts' where "sts' = mark_invalid (B \<inter> {i0}) sts"
  have "blacklist_scan sts' idx = (mark_invalid (B \<inter> snd ` set idx) sts', filter (\<lambda>(k, i). i \<notin> B) idx)"
  proof (rule Cons.IH)
    show "ordered idx" "ordered sts'" "\<forall>p \<in> set idx. map_of sts' (snd p) \<noteq> None"
      using Cons.prems by (simp_all add: sts'_def)
    show "\<forall>k i. (k, i) \<in> set idx \<longrightarrow> prv i = previous (hs_header (the (map_of sts' i)))"
      using Cons.prems(3,4) by (fastforce simp: sts'_def)
    show "\<forall>k i. (k, i) \<in> set idx \<longrightarrow>
      (i \<in> B \<longleftrightarrow> hs_invalid (the (map_of sts' i)) \<or> parent_invalid sts' (prv i) \<or>
        prv i \<in> B \<and> (\<exists>k'. (k', prv i) \<in> set idx \<and> k' < k))"
    proof (intro allI impI)
      fix k i
      assume i: "(k, i) \<in> set idx"
      have "i \<in> B \<longleftrightarrow> hs_invalid (the (map_of sts i)) \<or> parent_invalid sts (prv i) \<or>
        prv i \<in> B \<and> (\<exists>k'. (k', prv i) \<in> set (e # idx) \<and> k' < k)"
        using Cons.prems(5) i by simp
      moreover have "hs_invalid (the (map_of sts' i)) \<longleftrightarrow> hs_invalid (the (map_of sts i)) \<or> i = i0 \<and> i0 \<in> B"
      proof -
        obtain s where "map_of sts i = Some s" using Cons.prems(3) i by fastforce
        then show ?thesis by (auto simp: sts'_def)
      qed
      moreover have "parent_invalid sts' (prv i) \<longleftrightarrow> parent_invalid sts (prv i) \<or> prv i = i0 \<and> i0 \<in> B"
        using s0 by (auto simp: sts'_def parent_invalid_def split: option.splits)
      ultimately show "i \<in> B \<longleftrightarrow> hs_invalid (the (map_of sts' i)) \<or> parent_invalid sts' (prv i) \<or>
        prv i \<in> B \<and> (\<exists>k'. (k', prv i) \<in> set idx \<and> k' < k)"
        using less [OF i] by (auto simp: e)
    qed
  qed
  moreover have "mark_invalid (B \<inter> snd ` set idx) sts' = mark_invalid (B \<inter> snd ` set (e # idx)) sts"
    by (auto simp: sts'_def e intro!: arg_cong [where f = "\<lambda>S. mark_invalid S sts"])
  moreover have "blacklist_scan sts (e # idx) = (let (sts2, idx2) = blacklist_scan sts' idx
     in (sts2, if i0 \<in> B then idx2 else e # idx2))"
    unfolding e sts'_def by (rule blacklist_scan_step [OF Cons.prems(2) s0 head])
  ultimately show ?case by (simp add: e)
qed simp

lemma descends_order:
  assumes "states_inv db" "descends db i r"
  shows "hs_order (the_state db r) \<le> hs_order (the_state db i)"
proof -
  have "(child_of db)\<^sup>*\<^sup>* i r" using assms(2) by (simp add: descends_def)
  then show ?thesis
    by (induction rule: converse_rtranclp_induct) (auto dest: order_less_child [OF assms(1)])
qed

lemma ordered_split_key:
  assumes "ordered m" "(k, v) \<in> set m"
  shows "\<forall>p \<in> set (takeWhile (\<lambda>p. fst p \<noteq> k) m). fst p < k" and "\<forall>p \<in> set (dropWhile (\<lambda>p. fst p \<noteq> k) m). k \<le> fst p"
    and "(k, v) \<in> set (dropWhile (\<lambda>p. fst p \<noteq> k) m)"
  using assms by (induction m) auto

lemma parent_invalid_mark:
  assumes st: "states_inv db" and i: "valid_at db i" and root: "get_state db root \<noteq> None"
  shows "parent_invalid (mark_invalid {root} (states db)) (prev_of db i) \<longleftrightarrow> prev_of db i = root"
proof
  assume "prev_of db i = root"
  then show "parent_invalid (mark_invalid {root} (states db)) (prev_of db i)"
    using root by (auto simp: parent_invalid_def get_state_def)
next
  assume p: "parent_invalid (mark_invalid {root} (states db)) (prev_of db i)"
  show "prev_of db i = root"
  proof (rule ccontr)
    assume "prev_of db i \<noteq> root"
    with p obtain u where u: "get_state db (prev_of db i) = Some u" "hs_invalid u"
      by (auto simp: parent_invalid_def get_state_def split: option.splits if_splits)
    with i have "child_of db i (prev_of db i)" by (auto simp: child_of_def valid_at_def)
    from states_invD(4) [OF st this] u i show False by (auto simp: valid_at_def)
  qed
qed

text \<open>A block of an index suffix descends from the root if it is the root, or its parent is marked or was passed.\<close>

lemma descends_in_suffix:
  assumes st: "states_inv db" and root: "get_state db root \<noteq> None"
    and at: "\<And>k i. (k, i) \<in> set suf \<Longrightarrow> valid_at db i \<and> k = hs_order (the_state db i)"
    and cov: "\<And>i. descends db i root \<Longrightarrow> valid_at db i \<Longrightarrow> (hs_order (the_state db i), i) \<in> set suf"
    and i: "(k, i) \<in> set suf"
  shows "descends db i root \<longleftrightarrow>
    hs_invalid (the (map_of (mark_invalid {root} (states db)) i)) \<or>
    parent_invalid (mark_invalid {root} (states db)) (prev_of db i) \<or>
    descends db (prev_of db i) root \<and> (\<exists>k'. (k', prev_of db i) \<in> set suf \<and> k' < k)"
proof -
  have iv: "valid_at db i" and k: "k = hs_order (the_state db i)" using at [OF i] by auto
  obtain t where t: "get_state db i = Some t" "\<not> hs_invalid t" using iv by (auto simp: valid_at_def)
  have "hs_invalid (the (map_of (mark_invalid {root} (states db)) i)) \<longleftrightarrow> i = root"
    using t by (auto simp: get_state_def)
  moreover have "child_of db i (prev_of db i)" if "(k', prev_of db i) \<in> set suf" "k' < k" for k'
    using t that at [OF that(1)] k by (auto simp: child_of_def valid_at_def)
  moreover have "child_of db i root" if "prev_of db i = root" "i \<noteq> root"
    using that root t by (auto simp: child_of_def)
  moreover have "\<exists>k'. (k', prev_of db i) \<in> set suf \<and> k' < k"
    if c: "child_of db i (prev_of db i)" "descends db (prev_of db i) root"
    using cov [OF c(2) valid_parent [OF st c(1) iv]] order_less_child [OF st c(1)] k by auto
  ultimately show ?thesis
    using parent_invalid_mark [OF st iv root] descends_step [of db i root] by auto
qed

lemma blacklist_subtree_exact:
  assumes st: "states_inv db" and ix: "index_inv db" and root: "indexed db root"
  shows "blacklist_subtree db root =
    db\<lparr>states := mark_invalid {i. descends db i root} (states db),
       byOrderIndex := filter (\<lambda>(k, i). \<not> descends db i root) (byOrderIndex db)\<rparr>"
proof -
  have rk: "(hs_order (the_state db root), root) \<in> set (byOrderIndex db)" using root by (simp add: indexed_iff [OF ix])
  obtain s where s: "get_state db root = Some s" using index_invD(2) [OF ix rk] by (auto simp: valid_at_def)
  let ?B = "{i. descends db i root}"
  define pre where "pre = takeWhile (\<lambda>p. fst p \<noteq> hs_order s) (byOrderIndex db)"
  define suf where "suf = dropWhile (\<lambda>p. fst p \<noteq> hs_order s) (byOrderIndex db)"
  define sts where "sts = mark_invalid {root} (states db)"
  have split: "byOrderIndex db = pre @ suf" by (simp add: pre_def suf_def)
  have rk': "(hs_order s, root) \<in> set (byOrderIndex db)" using rk s by simp
  note key = ordered_split_key [OF index_invD(1) [OF ix] rk', folded pre_def suf_def]
  have at: "valid_at db i \<and> k = hs_order (the_state db i)" if "(k, i) \<in> set suf" for k i
    using index_invD(2) [OF ix, of k i] that split by auto
  have pre: "\<not> descends db i root" if "(k, i) \<in> set pre" for k i
  proof
    assume "descends db i root"
    moreover have "k = hs_order (the_state db i)" using index_invD(2) [OF ix, of k i] that split by auto
    ultimately show False using key(1) that descends_order [OF st, of i root] s by fastforce
  qed
  have suf: "(hs_order (the_state db i), i) \<in> set suf" if "descends db i root" "valid_at db i" for i
    using indexed_descendants [OF st ix root that(2,1)] pre [of "hs_order (the_state db i)" i] that(1)
    unfolding indexed_iff [OF ix] split set_append by blast
  have "blacklist_scan sts suf = (mark_invalid (?B \<inter> snd ` set suf) sts, filter (\<lambda>(k, i). i \<notin> ?B) suf)"
  proof (rule blacklist_scan_mark [where prv = "prev_of db"])
    show "ordered suf" using index_invD(1) [OF ix] by (simp add: split ordered_append)
    show "ordered sts" by (simp add: sts_def states_invD(1) [OF st])
    show "\<forall>p \<in> set suf. map_of sts (snd p) \<noteq> None"
      using at by (fastforce simp: sts_def valid_at_def get_state_def)
    show "\<forall>k i. (k, i) \<in> set suf \<longrightarrow> prev_of db i = previous (hs_header (the (map_of sts i)))"
      using at by (fastforce simp: sts_def valid_at_def get_state_def prev_of_def)
  qed (use descends_in_suffix [OF st _ at suf] s in \<open>simp add: sts_def\<close>)
  moreover have "mark_invalid (?B \<inter> snd ` set suf) sts = mark_invalid ?B (states db)"
    unfolding sts_def mark_invalid_mark_invalid
  proof (rule mark_invalid_cong)
    fix i t
    assume "(i, t) \<in> set (states db)" "\<not> hs_invalid t"
    then have "valid_at db i" using ordered_map_of [OF states_invD(1) [OF st]] by (auto simp: valid_at_def get_state_def)
    with suf show "i \<in> ?B \<inter> snd ` set suf \<union> {root} \<longleftrightarrow> i \<in> ?B" by force
  qed
  moreover have "filter (\<lambda>(k, i). \<not> descends db i root) (byOrderIndex db) =
      pre @ filter (\<lambda>(k, i). \<not> descends db i root) suf"
    using pre by (auto simp: split filter_id_conv)
  moreover have "map_assign root (s\<lparr>hs_invalid := True\<rparr>) (states db) = sts"
    using s states_invD(1) [OF st] by (simp add: sts_def map_assign_mark get_state_def)
  ultimately show ?thesis
    by (simp add: blacklist_subtree_def s pre_def [symmetric] suf_def [symmetric])
qed

end
