(* ===== verification/Fork_Inv.thy ===== *)
theory Fork_Inv
  imports Fork_Tree
begin

text \<open>
  The invariant of the fork database and its preservation by the operations that change the best chain:
  \<open>trySetHead\<close> with \<open>execute_fork\<close>, and \<open>async_switch_fork\<close>.
\<close>

section \<open>Chains\<close>

definition at_num :: "fork_db \<Rightarrow> block_num \<times> block_id \<Rightarrow> bool" where
  "at_num db p \<longleftrightarrow> (\<exists>s. get_state db (snd p) = Some s \<and> hs_num s = fst p)"

definition link :: "fork_db \<Rightarrow> block_num \<times> block_id \<Rightarrow> block_num \<times> block_id \<Rightarrow> bool" where
  "link db p q \<longleftrightarrow> unat (fst q) = Suc (unat (fst p)) \<and> child_of db (snd q) (snd p)"

text \<open>A list of numbered blocks, each one the parent of the next.\<close>

definition chain :: "fork_db \<Rightarrow> (block_num \<times> block_id) list \<Rightarrow> bool" where
  "chain db xs \<longleftrightarrow> successively (link db) xs \<and> (\<forall>p \<in> set xs. at_num db p)"

lemma chain_simps [simp]:
  "chain db []" "chain db [p] \<longleftrightarrow> at_num db p"
  "chain db (p # q # xs) \<longleftrightarrow> at_num db p \<and> link db p q \<and> chain db (q # xs)"
  by (auto simp: chain_def)

lemma chain_append:
  "chain db (xs @ ys) \<longleftrightarrow> chain db xs \<and> chain db ys \<and> (xs \<noteq> [] \<longrightarrow> ys \<noteq> [] \<longrightarrow> link db (last xs) (hd ys))"
  by (auto simp: chain_def successively_append_iff)

lemma chain_Cons: "chain db (p # xs) \<longleftrightarrow> at_num db p \<and> chain db xs \<and> (xs \<noteq> [] \<longrightarrow> link db p (hd xs))"
  by (cases xs) auto

lemma chain_nums: "chain db (p # xs) \<Longrightarrow> q \<in> set xs \<Longrightarrow> fst p < fst q"
proof (induction xs arbitrary: p)
  case (Cons r xs)
  have pr: "fst p < fst r" using Cons.prems(1) by (simp add: link_def word_less_nat_alt)
  show ?case
  proof (cases "q = r")
    case False
    then have "fst r < fst q" using Cons.prems by (intro Cons.IH) auto
    with pr show ?thesis by simp
  qed (use pr in simp)
qed simp

lemma chain_ordered: "chain db xs \<Longrightarrow> ordered xs"
  by (induction xs) (auto simp: chain_nums, auto simp: chain_Cons)

lemma chain_descends: "chain db (p # xs) \<Longrightarrow> q \<in> set (p # xs) \<Longrightarrow> descends db (snd q) (snd p)"
proof (induction xs arbitrary: p)
  case (Cons r xs)
  have "child_of db (snd r) (snd p)" using Cons.prems(1) by (simp add: link_def)
  then have r: "descends db (snd r) (snd p)" by (auto simp: descends_def)
  show ?case
  proof (cases "q = p")
    case False
    then have "descends db (snd q) (snd r)" using Cons by (intro Cons.IH) auto
    from descends_trans [OF this r] show ?thesis .
  qed simp
qed simp

lemma chain_take: "chain db xs \<Longrightarrow> chain db (takeWhile P xs)"
  by (metis takeWhile_dropWhile_id chain_append)

lemma chain_drop: "chain db xs \<Longrightarrow> chain db (dropWhile P xs)"
  by (metis takeWhile_dropWhile_id chain_append)

lemma chain_contiguous:
  assumes "chain db (p # xs)" "fst p \<le> n" "n \<le> fst (last (p # xs))"
  shows "n \<in> fst ` set (p # xs)"
  using assms
proof (induction xs arbitrary: p)
  case (Cons r xs)
  show ?case
  proof (cases "n = fst p")
    case False
    then have "fst r \<le> n" using Cons.prems by (auto simp: link_def word_le_nat_alt word_unat_eq_iff)
    then have "n \<in> fst ` set (r # xs)" using Cons.prems by (intro Cons.IH) auto
    then show ?thesis by simp
  qed simp
qed auto

text \<open>Chains only depend on the states up to execution and validity.\<close>

definition same_tree :: "fork_db \<Rightarrow> fork_db \<Rightarrow> bool" where
  "same_tree db db' \<longleftrightarrow> (\<forall>i. map_option hs_info (get_state db' i) = map_option hs_info (get_state db i))"

lemma same_tree_simps:
  assumes "same_tree db db'"
  shows "get_state db' i = None \<longleftrightarrow> get_state db i = None"
    and "prev_of db' i = prev_of db i \<or> get_state db i = None"
    and "child_of db' i p \<longleftrightarrow> child_of db i p"
    and "descends db' i p \<longleftrightarrow> descends db i p"
    and "at_num db' q \<longleftrightarrow> at_num db q"
    and "chain db' xs \<longleftrightarrow> chain db xs"
proof -
  have i: "map_option hs_info (get_state db' i) = map_option hs_info (get_state db i)" for i
    using assms by (simp add: same_tree_def)
  show 1: "get_state db' i = None \<longleftrightarrow> get_state db i = None" for i using i [of i] by auto
  show 2: "prev_of db' i = prev_of db i \<or> get_state db i = None" for i
    using i [of i] by (auto simp: prev_of_def)
  show 3: "child_of db' i p \<longleftrightarrow> child_of db i p" for i p using 1 2 [of i] by (auto simp: child_of_def)
  then have "child_of db' = child_of db" by (simp add: fun_eq_iff)
  then show "descends db' i p \<longleftrightarrow> descends db i p" by (simp add: descends_def)
  show 4: "at_num db' q \<longleftrightarrow> at_num db q" for q 
    using i [of "snd q"] by (cases "get_state db (snd q)"; cases "get_state db' (snd q)") (auto simp: at_num_def)
  have "link db' = link db" using 3 by (simp add: fun_eq_iff link_def)
  then show "chain db' xs \<longleftrightarrow> chain db xs" using 4 by (simp add: chain_def)
qed

section \<open>The invariant\<close>

definition executed :: "fork_db \<Rightarrow> block_id \<Rightarrow> bool" where
  "executed db i \<longleftrightarrow> (\<exists>s. get_state db i = Some s \<and> hs_revision s \<noteq> None)"

text \<open>Every block after the commit index has its parent, and is stored with the header its state has.\<close>

definition store_inv :: "env \<Rightarrow> fork_db \<Rightarrow> bool" where
  "store_inv E db \<longleftrightarrow>
     (\<forall>i s. get_state db i = Some s \<longrightarrow> commitIndex db < hs_num s \<longrightarrow>
        child_of db i (prev_of db i) \<and>
        (\<exists>b. map_of (blocks db) i = Some b \<and> block_header (signed_block b) = hs_header s))"

text \<open>
  Ancestors of executed blocks are executed, and a block that may become head has only executed blocks
  below the root of the index.
\<close>

definition exec_inv :: "fork_db \<Rightarrow> bool" where
  "exec_inv db \<longleftrightarrow>
     (\<forall>i p. child_of db i p \<longrightarrow> executed db i \<longrightarrow> executed db p) \<and>
     (\<forall>i p. child_of db i p \<longrightarrow> indexed db i \<longrightarrow> indexed db p \<or> executed db p)"

definition chain_inv :: "fork_db \<Rightarrow> bool" where
  "chain_inv db \<longleftrightarrow>
     chain db (byBlocknumIndex db) \<and>
     (\<forall>p \<in> set (byBlocknumIndex db). valid_at db (snd p)) \<and>
     commitIndex db \<in> fst ` set (byBlocknumIndex db)"

definition head_inv :: "fork_db \<Rightarrow> bool" where
  "head_inv db \<longleftrightarrow>
     byBlocknumIndex db \<noteq> [] \<and> last (byBlocknumIndex db) = (hs_num (get_head_state db), fd_head db) \<and>
     (\<forall>p \<in> set (byBlocknumIndex db). executed db (snd p))"

text \<open>
  The index of candidates has one root, at or after the commit index, and no header commits a block after
  itself. An id starts with the number of its block, except that of the initial state.
\<close>

definition root_inv :: "fork_db \<Rightarrow> bool" where
  "root_inv db \<longleftrightarrow> 
     (\<exists>r. \<forall>i. indexed db i \<longrightarrow> indexed db r \<and> descends db i r \<and> commitIndex db \<le> hs_num (the_state db i))"

definition commit_inv :: "fork_db \<Rightarrow> bool" where
  "commit_inv db \<longleftrightarrow> (\<forall>i s. get_state db i = Some s \<longrightarrow> commitNum (hs_header s) \<le> hs_num s)"

definition id_inv :: "fork_db \<Rightarrow> bool" where
  "id_inv db \<longleftrightarrow> ordered (blocks db) \<and>
     (\<forall>i s. get_state db i = Some s \<longrightarrow> getBlockNum i \<le> hs_num s \<and> getBlockNum (previous (hs_header s)) < hs_num s) \<and>
     (\<forall>i b. map_of (blocks db) i = Some b \<longrightarrow>
        take 4 i = num_bytes (blockNum (block_header (signed_block b))) \<and>
        getBlockNum (previous (block_header (signed_block b))) < blockNum (block_header (signed_block b)) \<and>
        (\<forall>s. get_state db i = Some s \<longrightarrow> hs_header s = block_header (signed_block b)))"

definition tree_inv :: "env \<Rightarrow> fork_db \<Rightarrow> bool" where
  "tree_inv E db \<longleftrightarrow> states_inv db \<and> index_inv db \<and> store_inv E db \<and> exec_inv db \<and> chain_inv db \<and> root_inv db \<and> commit_inv db \<and> id_inv db"

definition fork_inv :: "env \<Rightarrow> fork_db \<Rightarrow> bool" where
  "fork_inv E db \<longleftrightarrow> tree_inv E db \<and> head_inv db"

lemma tree_invD:
  assumes "tree_inv E db"
  shows "states_inv db" "index_inv db" "store_inv E db" "exec_inv db" "chain_inv db" "root_inv db" "commit_inv db" "id_inv db"
  using assms by (simp_all add: tree_inv_def)

lemma get_prev_id_store:
  assumes "store_inv E db" "get_state db i = Some s" "commitIndex db < hs_num s"
  shows "get_prev_id E db i = Some (prev_of db i)" "child_of db i (prev_of db i)"
proof -
  obtain b where b: "map_of (blocks db) i = Some b" "block_header (signed_block b) = hs_header s"
    and c: "child_of db i (prev_of db i)"
    using assms by (auto simp: store_inv_def)
  show "get_prev_id E db i = Some (prev_of db i)"
    using assms(2) b by (simp add: get_prev_id_def get_block_def prev_of_def)
  show "child_of db i (prev_of db i)" by (rule c)
qed

lemma child_num:
  assumes "states_inv db" "child_of db i p"
  shows "unat (hs_num (the_state db i)) = Suc (unat (hs_num (the_state db p)))"
  using states_invD(3) [OF assms] by (simp add: extends_def)

lemma link_parent:
  assumes "states_inv db" "at_num db (n, i)" "child_of db i p"
  shows "link db (hs_num (the_state db p), p) (n, i)" "at_num db (hs_num (the_state db p), p)"
  using child_num [OF assms(1,3)] assms(2,3) by (auto simp: link_def at_num_def child_of_def)

lemma same_tree_state:
  assumes "same_tree db db'" "get_state db' i = Some s'"
  obtains s where "get_state db i = Some s" "hs_info s = hs_info s'"
proof -
  have "map_option hs_info (get_state db i) = Some (hs_info s')" using assms unfolding same_tree_def by (metis option.map(2))
  then show thesis using that by auto
qed

lemma commit_inv_same_tree:
  assumes "same_tree db db'" "commit_inv db"
  shows "commit_inv db'"
  unfolding commit_inv_def
proof (intro allI impI)
  fix i s'
  assume "get_state db' i = Some s'"
  with assms(1) obtain s where "get_state db i = Some s" "hs_info s = hs_info s'" by (rule same_tree_state)
  then show "commitNum (hs_header s') \<le> hs_num s'" using assms(2) unfolding commit_inv_def by metis
qed

lemma id_inv_same_tree:
  assumes t: "same_tree db db'" and b: "blocks db' = blocks db" and "id_inv db"
  shows "id_inv db'"
proof -
  have "getBlockNum i \<le> hs_num s' \<and> getBlockNum (previous (hs_header s')) < hs_num s' \<and>
      (\<forall>b. map_of (blocks db) i = Some b \<longrightarrow> hs_header s' = block_header (signed_block b))" if s': "get_state db' i = Some s'" for i s'
  proof -
    obtain s where "get_state db i = Some s" "hs_info s = hs_info s'" using same_tree_state [OF t s'] .
    with assms(3) show ?thesis unfolding id_inv_def by metis
  qed
  with assms(3) b show ?thesis unfolding id_inv_def by simp
qed

section \<open>The loops of trySetHead\<close>

fun path :: "fork_db \<Rightarrow> nat \<Rightarrow> block_num \<Rightarrow> block_id \<Rightarrow> (block_num \<times> block_id) list" where
  "path db 0 n i = []"
| "path db (Suc cnt) n i = path db cnt (n - 1) (prev_of db i) @ [(n, i)]"

lemma map_insert_middle:
  "\<forall>p \<in> set xs. fst p < n \<Longrightarrow> \<forall>p \<in> set ys. n < fst p \<Longrightarrow> map_insert n i (xs @ ys) = xs @ (n, i) # ys"
proof (induction xs)
  case Nil
  then show ?case by (cases ys) auto
qed auto

lemma extend_index_path:
  assumes "store_inv E db" "states_inv db" "at_num db (n, i)"
    and "unat n = cnt + unat h" "commitIndex db \<le> h"
    and "\<forall>p \<in> set xs. fst p \<le> h" "\<forall>p \<in> set ys. n < fst p" "ys \<noteq> [] \<longrightarrow> link db (n, i) (hd ys)" "chain db ys"
  shows "\<exists>j. extend_index E db cnt n i (xs @ ys) = Some (xs @ path db cnt n i @ ys, j) \<and>
    at_num db (h, j) \<and> chain db ((h, j) # path db cnt n i @ ys)"
  using assms(3-)
proof (induction cnt arbitrary: n i ys)
  case 0
  then have "n = h" by (simp add: word_unat_eq_iff)
  with 0 show ?case by (simp add: chain_Cons)
next
  case (Suc cnt)
  obtain s where s: "get_state db i = Some s" "hs_num s = n" using Suc.prems(1) by (auto simp: at_num_def)
  have hn: "h < n" using Suc.prems(2) by (simp add: word_less_nat_alt)
  then have "commitIndex db < hs_num s" using Suc.prems(3) s(2) by simp
  note prv = get_prev_id_store [OF assms(1) s(1) this]
  have pn: "hs_num (the_state db (prev_of db i)) = n - 1"
    using child_num [OF assms(2) prv(2)] s by (subst word_unat_eq_iff, subst unat_minus_one) (auto simp: unat_eq_zero)
  note lp = link_parent [OF assms(2) Suc.prems(1) prv(2), unfolded pn]
  have "map_insert n i (xs @ ys) = xs @ (n, i) # ys"
    using Suc.prems(4,5) hn by (intro map_insert_middle) auto
  moreover have "\<exists>j. extend_index E db cnt (n - 1) (prev_of db i) (xs @ (n, i) # ys) =
      Some (xs @ path db cnt (n - 1) (prev_of db i) @ (n, i) # ys, j) \<and>
    at_num db (h, j) \<and> chain db ((h, j) # path db cnt (n - 1) (prev_of db i) @ (n, i) # ys)"
  proof (rule Suc.IH [OF lp(2) _ Suc.prems(3,4)])
    show "unat (n - 1) = cnt + unat h"
      using lp(1) Suc.prems(2) by (simp add: link_def)
    show "\<forall>p \<in> set ((n, i) # ys). n - 1 < fst p"
      using Suc.prems(5) lp(1) by (auto simp: link_def word_less_nat_alt)
    show "chain db ((n, i) # ys)" using Suc.prems by (simp add: chain_Cons)
  qed (use lp(1) in simp)
  ultimately show ?case by (simp add: prv)
qed

lemma descends_num:
  assumes "states_inv db" "descends db i r" "i \<noteq> r"
  shows "hs_num (the_state db r) < hs_num (the_state db i)"
proof -
  have "(child_of db)\<^sup>*\<^sup>* i r" using assms(2) by (simp add: descends_def)
  then have "hs_num (the_state db r) < hs_num (the_state db i) \<or> i = r"
  proof (induction rule: converse_rtranclp_induct)
    case (step i p)
    have "hs_num (the_state db p) < hs_num (the_state db i)"
      using child_num [OF assms(1) step(1)] by (simp add: word_less_nat_alt)
    with step(3) show ?case by auto
  qed simp
  with assms(3) show ?thesis by simp
qed

lemma relink_found:
  assumes inv: "store_inv E db" "states_inv db"
    and "chain db (rev todo)" "todo = (n, x) # below" "at_num db (n, i)" "chain db ((n, i) # passed)"
    and "commitIndex db \<in> fst ` set todo"
  shows "(\<exists>m y below' passed' above. relink E db todo i passed = Found m (rev below' @ (m, y) # passed') \<and>
      todo = above @ (m, y) # below' \<and> chain db ((m, y) # passed') \<and> descends db i y \<and>
      last ((m, y) # passed') = last ((n, i) # passed) \<and> commitIndex db \<le> m) \<or>
    (\<exists>idx c. relink E db todo i passed = Conflict idx \<and> (commitIndex db, c) \<in> set todo \<and> \<not> descends db i c)"
  using assms(3-)
proof (induction todo arbitrary: n x below i passed)
  case (Cons p todo)
  have p: "p = (n, x)" and todo: "todo = below" using Cons.prems(2) by auto
  obtain s where s: "get_state db i = Some s" "hs_num s = n" using Cons.prems(3) by (auto simp: at_num_def)
  have num: "hs_num (the_state db c) = m" if "(m, c) \<in> set (p # todo)" for m c
    using Cons.prems(1) that by (auto simp: chain_def at_num_def)
  have lower: "fst q < n" if "q \<in> set todo" for q
    using chain_ordered [OF Cons.prems(1)] that by (auto simp: p ordered_append)
  show ?case
  proof (cases "x = i")
    case True
    have "commitIndex db \<le> n" using Cons.prems(5) lower by (auto simp: p intro: less_imp_le)
    with True Cons.prems(4) show ?thesis
      by (intro disjI1 exI [of _ n] exI [of _ i] exI [of _ todo] exI [of _ passed] exI [of _ "[]"]) (simp add: p)
  next
    case ne: False
    show ?thesis
    proof (cases "n \<le> commitIndex db")
      case True
      then have "commitIndex db = n" using Cons.prems(5) lower by (force simp: p)
      moreover have "\<not> descends db i x"
        using descends_num [OF inv(2), of i x] ne s num [of n x] by (auto simp: p)
      ultimately show ?thesis using ne by (auto simp: p)
    next
      case False
      then have gt: "commitIndex db < hs_num s" using s by simp
      note prv = get_prev_id_store [OF inv(1) s(1) gt]
      note lp = link_parent [OF inv(2) Cons.prems(3) prv(2)]
      have com: "commitIndex db \<in> fst ` set todo" using Cons.prems(5) False by (auto simp: p)
      then obtain n' x' below' where b: "todo = (n', x') # below'" by (cases todo) auto
      have ch: "chain db (rev todo)" using Cons.prems(1) by (simp add: chain_append)
      have "link db (n', x') (n, x)" using Cons.prems(1) by (simp add: p b chain_append)
      with lp(1) have n': "hs_num (the_state db (prev_of db i)) = n'" by (simp add: link_def word_unat_eq_iff)
      have re: "relink E db (p # todo) i passed = relink E db todo (prev_of db i) ((n, i) # passed)"
        using ne False prv(1) by (simp add: p)
      have step: "descends db i y \<longleftrightarrow> i = y \<or> descends db (prev_of db i) y" for y
        using prv(2) descends_step [of db i y] by blast
      from Cons.IH [OF ch b, of "prev_of db i" "(n, i) # passed"] lp com Cons.prems(4)
      have "(\<exists>m y below' passed' above. relink E db todo (prev_of db i) ((n, i) # passed) = Found m (rev below' @ (m, y) # passed') \<and>
          todo = above @ (m, y) # below' \<and> chain db ((m, y) # passed') \<and> descends db (prev_of db i) y \<and>
          last ((m, y) # passed') = last ((n, i) # passed) \<and> commitIndex db \<le> m) \<or>
        (\<exists>idx c. relink E db todo (prev_of db i) ((n, i) # passed) = Conflict idx \<and> (commitIndex db, c) \<in> set todo \<and>
          \<not> descends db (prev_of db i) c)"
        unfolding n' by simp
      then show ?thesis
      proof (elim disjE exE conjE)
        fix m y below' passed' above
        assume "relink E db todo (prev_of db i) ((n, i) # passed) = Found m (rev below' @ (m, y) # passed')"
          "todo = above @ (m, y) # below'" "chain db ((m, y) # passed')" "descends db (prev_of db i) y"
          "last ((m, y) # passed') = last ((n, i) # passed)" "commitIndex db \<le> m"
        then show ?thesis unfolding re
          by (intro disjI1 exI [of _ m] exI [of _ y] exI [of _ below'] exI [of _ passed'] exI [of _ "p # above"]) (simp add: step)
      next
        fix idx c
        assume *: "relink E db todo (prev_of db i) ((n, i) # passed) = Conflict idx" "(commitIndex db, c) \<in> set todo"
          "\<not> descends db (prev_of db i) c"
        have "i \<noteq> c" using gt num [of "commitIndex db" c] s * (2) by auto
        with * show ?thesis unfolding re by (auto simp: step)
      qed
    qed
  qed
qed simp

section \<open>Executing blocks\<close>

text \<open>What a database may become while forks are switched, whatever the outcome.\<close>

definition evolves :: "fork_db \<Rightarrow> fork_db \<Rightarrow> bool" where
  "evolves db db' \<longleftrightarrow>
     blocks db' = blocks db \<and> currentTerm db' = currentTerm db \<and> blockContext db' = blockContext db \<and>
     same_tree db db' \<and> commitIndex db \<le> commitIndex db' \<and>
     set (byOrderIndex db') \<subseteq> set (byOrderIndex db) \<and> (\<forall>i. executed db i \<longrightarrow> executed db' i)"

lemma evolves_refl [simp]: "evolves db db"
  by (simp add: evolves_def same_tree_def)

lemma evolves_trans: "evolves db db' \<Longrightarrow> evolves db' db'' \<Longrightarrow> evolves db db''"
  by (auto simp: evolves_def same_tree_def)

lemma evolves_indexed: "evolves db db' \<Longrightarrow> indexed db' i \<Longrightarrow> indexed db i"
  by (auto simp: evolves_def indexed_def)

definition record_revision :: "fork_db \<Rightarrow> block_id \<Rightarrow> revision \<Rightarrow> fork_db" where
  "record_revision db i r = db\<lparr>states := map_assign i ((the_state db i)\<lparr>hs_revision := Some r\<rparr>) (states db)\<rparr>"

lemma get_state_record [simp]:
  "get_state (record_revision db i r) j =
     (if j = i then map_option (\<lambda>s. s\<lparr>hs_revision := Some r\<rparr>) (get_state db i) else get_state db j)"
  by (auto simp: record_revision_def get_state_def map_of_map_assign split: option.splits)

lemma record_revision_simps [simp]:
  "byOrderIndex (record_revision db i r) = byOrderIndex db" "byBlocknumIndex (record_revision db i r) = byBlocknumIndex db"
  "commitIndex (record_revision db i r) = commitIndex db" "blocks (record_revision db i r) = blocks db"
  "currentTerm (record_revision db i r) = currentTerm db" "blockContext (record_revision db i r) = blockContext db"
  "fd_head (record_revision db i r) = fd_head db"
  by (simp_all add: record_revision_def)

lemma record_same_tree: "same_tree db (record_revision db i r)"
  by (auto simp: same_tree_def option.map_comp comp_def)

lemma record_facts:
  shows "prev_of (record_revision db i r) j = prev_of db j"
    and "hs_invalid (the_state (record_revision db i r) j) = hs_invalid (the_state db j) \<or> get_state db j = None"
    and "hs_info (the_state (record_revision db i r) j) = hs_info (the_state db j) \<or> get_state db j = None"
    and "valid_at (record_revision db i r) j \<longleftrightarrow> valid_at db j"
    and "indexed (record_revision db i r) j \<longleftrightarrow> indexed db j"
    and "executed (record_revision db i r) j \<longleftrightarrow> executed db j \<or> j = i \<and> get_state db i \<noteq> None"
  by (cases "get_state db i"; auto simp: prev_of_def valid_at_def indexed_def executed_def)+

lemma record_tree_inv:
  assumes inv: "tree_inv E db" and par: "\<And>p. child_of db i p \<Longrightarrow> executed db p"
  shows "tree_inv E (record_revision db i r)" and "evolves db (record_revision db i r)"
proof -
  let ?db = "record_revision db i r"
  note t = same_tree_simps [OF record_same_tree [of db i r]]
  note f = record_facts [of db i r]
  note d = tree_invD [OF inv]
  have st: "get_state db a \<noteq> None \<and> get_state db b \<noteq> None" if "child_of db a b" for a b
    using that by (simp add: child_of_def)
  have "states_inv ?db"
    unfolding states_inv_def
  proof (intro conjI allI impI)
    show "ordered (states ?db)" using states_invD(1) [OF d(1)] by (simp add: record_revision_def ordered_map_assign)
    show "hs_id s = j" if "get_state ?db j = Some s" for j s
      using that states_invD(2) [OF d(1)] by (auto split: if_splits)
    show "extends (the_state ?db b) (the_state ?db a)" if "child_of ?db a b" for a b
      using that states_invD(3) [OF d(1), of a b] f(3) [of a] f(3) [of b] st [of a b] by (auto simp: t extends_def)
    show "hs_invalid (the_state ?db a)" if "child_of ?db a b" "hs_invalid (the_state ?db b)" for a b
      using that states_invD(4) [OF d(1), of a b] f(2) [of a] f(2) [of b] st [of a b] by (auto simp: t)
  qed
  moreover have "index_inv ?db"
    unfolding index_inv_def
  proof (intro conjI allI impI)
    show "ordered (byOrderIndex ?db)" using index_invD(1) [OF d(2)] by simp
    fix k a b
    show "valid_at ?db a" if "(k, a) \<in> set (byOrderIndex ?db)" using that index_invD(2) [OF d(2)] by (simp add: f)
    show "k = hs_order (the_state ?db a)" if "(k, a) \<in> set (byOrderIndex ?db)"
      using that index_invD(2) [OF d(2), of k a] f(3) [of a] by (auto simp: hs_order_def valid_at_def)
    show "indexed ?db a" if "child_of ?db a b" "indexed ?db b" "valid_at ?db a"
      using that index_invD(3) [OF d(2), of a b] by (simp add: t f)
  qed
  moreover have "store_inv E ?db"
    using d(3) by (auto simp: store_inv_def t f split: if_splits)
  moreover have "exec_inv ?db"
    using d(4) par by (auto simp: exec_inv_def t f child_of_def)
  moreover have "chain_inv ?db" using d(5) by (simp add: chain_inv_def t f)
  moreover have "root_inv ?db"
  proof -
    have "hs_num (the_state ?db j) = hs_num (the_state db j)" if "indexed db j" for j
      using that index_invD(2) [OF d(2)] f(3) [of j] by (auto simp: indexed_def valid_at_def)
    with d(6) show ?thesis by (simp add: root_inv_def t f cong: imp_cong conj_cong)
  qed
  moreover have "commit_inv ?db" by (rule commit_inv_same_tree [OF record_same_tree d(7)])
  moreover have "id_inv ?db" by (rule id_inv_same_tree [OF record_same_tree _ d(8)]) simp
  ultimately show "tree_inv E ?db" by (simp add: tree_inv_def)
  show "evolves db ?db" by (simp add: evolves_def record_same_tree f)
qed

lemma states_cong:
  assumes "states db' = states db"
  shows "get_state db' = get_state db" "prev_of db' = prev_of db" "child_of db' = child_of db"
    "descends db' = descends db" "valid_at db' = valid_at db" "executed db' = executed db"
    "at_num db' = at_num db" "chain db' = chain db" "states_inv db' = states_inv db" "same_tree db db'"
proof -
  have 1: "get_state db' = get_state db" by (simp add: fun_eq_iff get_state_def assms)
  then have 2: "prev_of db' = prev_of db" by (simp add: fun_eq_iff prev_of_def)
  with 1 have 3: "child_of db' = child_of db" by (simp add: fun_eq_iff child_of_def)
  show "get_state db' = get_state db" "prev_of db' = prev_of db" "child_of db' = child_of db" by (rule 1 2 3)+
  show "descends db' = descends db" "valid_at db' = valid_at db" "executed db' = executed db" "at_num db' = at_num db"
    by (simp_all add: descends_def [abs_def] valid_at_def [abs_def] executed_def [abs_def] at_num_def [abs_def] 1 3)
  then show "chain db' = chain db" "same_tree db db'" "states_inv db' = states_inv db"
    using 1 3 assms by (simp_all add: fun_eq_iff chain_def link_def [abs_def] same_tree_def states_inv_def)
qed

lemma index_cong:
  assumes "states db' = states db" "byOrderIndex db' = byOrderIndex db"
  shows "indexed db' = indexed db" "index_inv db' = index_inv db" "exec_inv db' = exec_inv db"
    "commitIndex db' = commitIndex db \<Longrightarrow> root_inv db' = root_inv db"
proof -
  show i: "indexed db' = indexed db" by (simp add: fun_eq_iff indexed_def assms)
  show "index_inv db' = index_inv db" "exec_inv db' = exec_inv db"
    "commitIndex db' = commitIndex db \<Longrightarrow> root_inv db' = root_inv db"
    by (simp_all add: index_inv_def exec_inv_def root_inv_def i assms states_cong [OF assms(1)])
qed

lemma store_same_tree:
  assumes t: "same_tree db db'" and "blocks db' = blocks db" "commitIndex db \<le> commitIndex db'" "store_inv E db"
  shows "store_inv E db'"
  unfolding store_inv_def
proof (intro allI impI)
  fix i s'
  assume s': "get_state db' i = Some s'" "commitIndex db' < hs_num s'"
  have "map_option hs_info (get_state db i) = Some (hs_info s')"
    using t s'(1) unfolding same_tree_def by (metis option.map(2))
  then obtain s where s: "get_state db i = Some s" "hs_info s = hs_info s'" by auto
  then have "child_of db i (prev_of db i) \<and> (\<exists>b. map_of (blocks db) i = Some b \<and> block_header (signed_block b) = hs_header s)"
    using assms(3,4) s'(2) unfolding store_inv_def by (metis le_less_trans)
  moreover have "prev_of db' i = prev_of db i" using same_tree_simps(2) [OF t, of i] s(1) by simp
  ultimately show "child_of db' i (prev_of db' i) \<and>
      (\<exists>b. map_of (blocks db') i = Some b \<and> block_header (signed_block b) = hs_header s')"
    using s(2) assms(2) same_tree_simps(3) [OF t] by simp
qed

text \<open>Marking the descendants of an indexed block invalid.\<close>

lemma marked_facts:
  fixes db :: fork_db and B :: "block_id set"
  defines "db' \<equiv> db\<lparr>states := mark_invalid B (states db), byOrderIndex := filter (\<lambda>(k, i). i \<notin> B) (byOrderIndex db)\<rparr>"
  shows "get_state db' j = map_option (\<lambda>s. if j \<in> B then s\<lparr>hs_invalid := True\<rparr> else s) (get_state db j)"
    and "same_tree db db'"
    and "valid_at db' j \<longleftrightarrow> valid_at db j \<and> j \<notin> B"
    and "executed db' j \<longleftrightarrow> executed db j"
    and "indexed db' j \<longleftrightarrow> indexed db j \<and> j \<notin> B"
    and "hs_info (the_state db' j) = hs_info (the_state db j)"
proof -
  show g: "get_state db' j = map_option (\<lambda>s. if j \<in> B then s\<lparr>hs_invalid := True\<rparr> else s) (get_state db j)" for j
    by (simp add: db'_def get_state_def)
  show "same_tree db db'" by (auto simp: same_tree_def g option.map_comp comp_def if_distrib [of hs_info] cong: if_cong)
  show "valid_at db' j \<longleftrightarrow> valid_at db j \<and> j \<notin> B"
    by (cases "get_state db j"; cases "j \<in> B") (simp_all add: valid_at_def g)
  show "executed db' j \<longleftrightarrow> executed db j"
    by (cases "get_state db j"; cases "j \<in> B") (simp_all add: executed_def g)
  show "indexed db' j \<longleftrightarrow> indexed db j \<and> j \<notin> B" by (force simp: indexed_def db'_def)
  show "hs_info (the_state db' j) = hs_info (the_state db j)" by (cases "get_state db j") (auto simp: g)
qed

lemma blacklist_tree_inv:
  assumes inv: "tree_inv E db" and i: "indexed db i"
    and out: "\<And>p. p \<in> set (byBlocknumIndex db) \<Longrightarrow> \<not> descends db (snd p) i"
  shows "tree_inv E (blacklist_subtree db i)" and "evolves db (blacklist_subtree db i)"
    and "\<not> indexed (blacklist_subtree db i) i"
    and "byBlocknumIndex (blacklist_subtree db i) = byBlocknumIndex db"
proof -
  let ?B = "{j. descends db j i}"
  define db' where "db' = db\<lparr>states := mark_invalid ?B (states db), byOrderIndex := filter (\<lambda>(k, j). j \<notin> ?B) (byOrderIndex db)\<rparr>"
  note d = tree_invD [OF inv]
  have bl: "blacklist_subtree db i = db'" using blacklist_subtree_exact [OF d(1,2) i] by (simp add: db'_def)
  note f = marked_facts [where db = db and B = ?B, folded db'_def]
  note t = same_tree_simps [OF f(2)]
  have up: "a \<in> ?B" if "child_of db a b" "b \<in> ?B" for a b
    using that descends_step [of db a i] by (auto simp: child_of_def)
  have iv: "hs_invalid (the_state db' a) \<longleftrightarrow> hs_invalid (the_state db a) \<or> a \<in> ?B" if "get_state db a \<noteq> None" for a
    using that f(1) [of a] by (auto simp: get_state_def)
  have "states_inv db'"
    unfolding states_inv_def
  proof (intro conjI allI impI)
    show "ordered (states db')" using states_invD(1) [OF d(1)] by (simp add: db'_def)
    show "hs_id s = j" if "get_state db' j = Some s" for j s
      using that states_invD(2) [OF d(1), of j] by (auto simp: f(1))
    show "extends (the_state db' b) (the_state db' a)" if "child_of db' a b" for a b
      using that states_invD(3) [OF d(1), of a b] by (simp add: t extends_def f(6))
    show "hs_invalid (the_state db' a)" if c': "child_of db' a b" "hs_invalid (the_state db' b)" for a b
    proof -
      have c: "child_of db a b" using c'(1) by (simp only: t)
      then have "get_state db a \<noteq> None" "get_state db b \<noteq> None" by (auto simp: child_of_def)
      with iv c'(2) states_invD(4) [OF d(1) c] up [OF c] show ?thesis by blast
    qed
  qed
  moreover have "index_inv db'"
    unfolding index_inv_def
  proof (intro conjI allI impI)
    show "ordered (byOrderIndex db')" using index_invD(1) [OF d(2)] by (simp add: db'_def ordered_filter)
    fix k a b
    assume "(k, a) \<in> set (byOrderIndex db')"
    then have ka: "(k, a) \<in> set (byOrderIndex db)" "a \<notin> ?B" by (auto simp: db'_def)
    then show "valid_at db' a" "k = hs_order (the_state db' a)"
      using index_invD(2) [OF d(2) ka(1)] by (auto simp: f(3,6) hs_order_def)
  next
    fix a b
    assume "child_of db' a b" "indexed db' b" "valid_at db' a"
    then show "indexed db' a" using index_invD(3) [OF d(2), of a b] by (simp add: t f(3,5))
  qed
  moreover have "store_inv E db'" by (rule store_same_tree [OF f(2) _ _ d(3)]) (simp_all add: db'_def)
  moreover have "exec_inv db'"
    using d(4) up unfolding exec_inv_def t f by blast
  moreover have "chain_inv db'"
  proof -
    have "byBlocknumIndex db' = byBlocknumIndex db" "commitIndex db' = commitIndex db" by (simp_all add: db'_def)
    with d(5) out show ?thesis by (simp add: chain_inv_def t f(3))
  qed
  moreover have "root_inv db'"
  proof -
    obtain r where r: "\<And>j. indexed db j \<Longrightarrow> indexed db r \<and> descends db j r \<and> commitIndex db \<le> hs_num (the_state db j)"
      using d(6) by (auto simp: root_inv_def)
    have "commitIndex db' = commitIndex db" by (simp add: db'_def)
    then have "indexed db' r \<and> descends db' j r \<and> commitIndex db' \<le> hs_num (the_state db' j)" if "indexed db' j" for j
    proof -
      have j: "indexed db j" "\<not> descends db j i" using that by (simp_all add: f(5))
      then have "\<not> descends db r i" using r descends_trans by blast
      with r [OF j(1)] \<open>commitIndex db' = commitIndex db\<close> show ?thesis by (simp add: f(5,6) t)
    qed
    then show ?thesis by (auto simp: root_inv_def)
  qed
  moreover have "commit_inv db'" by (rule commit_inv_same_tree [OF f(2) d(7)])
  moreover have "id_inv db'" by (rule id_inv_same_tree [OF f(2) _ d(8)]) (simp add: db'_def)
  ultimately show "tree_inv E (blacklist_subtree db i)" by (simp add: tree_inv_def bl)
  show "evolves db (blacklist_subtree db i)"
    using f(2) by (auto simp: evolves_def bl f(4)) (auto simp: db'_def)
  show "\<not> indexed (blacklist_subtree db i) i" by (simp add: bl f(5))
  show "byBlocknumIndex (blacklist_subtree db i) = byBlocknumIndex db" by (simp add: bl db'_def)
qed

text \<open>
  What the fork database relies on in the callback \<open>on_accept_block\<close>: it may make blocks up to the accepted
  one irreversible and prune other forks, and leaves everything else alone.
\<close>

definition under_commit :: "fork_db \<Rightarrow> block_id \<Rightarrow> bool" where
  "under_commit db i \<longleftrightarrow> (\<forall>c. (commitIndex db, c) \<in> set (byBlocknumIndex db) \<longrightarrow> descends db i c)"

definition new_commit :: "fork_db \<Rightarrow> fork_db \<Rightarrow> bool" where
  "new_commit db db' \<longleftrightarrow> commitIndex db' = commitIndex db \<or> (\<forall>i. indexed db' i \<longrightarrow> under_commit db' i)"

lemma new_commit_trans:
  assumes "new_commit db db'" "new_commit db' db''" "evolves db' db''"
    and "set (byBlocknumIndex db'') \<subseteq> set (byBlocknumIndex db')"
  shows "new_commit db db''"
proof (cases "commitIndex db'' = commitIndex db'")
  case True
  have "descends db'' = descends db'" using same_tree_simps(4) [of db' db''] assms(3) by (auto simp: evolves_def fun_eq_iff)
  then have "under_commit db'' i" if "under_commit db' i" for i
    using that True assms(4) by (auto simp: under_commit_def)
  then show ?thesis using assms(1) True evolves_indexed [OF assms(3)] by (auto simp: new_commit_def)
qed (use assms(2) in \<open>auto simp: new_commit_def\<close>)

definition accepted :: "env \<Rightarrow> block_id \<Rightarrow> fork_db \<Rightarrow> fork_db \<Rightarrow> bool" where
  "accepted E i db db' \<longleftrightarrow>
     tree_inv E db' \<and> evolves db db' \<and> states db' = states db \<and>
     byBlocknumIndex db' = byBlocknumIndex db \<and> fd_head db' = fd_head db \<and>
     commitIndex db' \<le> max (commitIndex db) (hs_num (the_state db i)) \<and>
     (\<forall>j. indexed db j \<longrightarrow> descends db j i \<longrightarrow> indexed db' j) \<and> new_commit db db'"

lemma tree_inv_cong:
  assumes "states db' = states db" "byOrderIndex db' = byOrderIndex db" "blocks db' = blocks db"
    "commitIndex db' = commitIndex db" "tree_inv E db" "chain_inv db'"
  shows "tree_inv E db'"
  using assms store_same_tree [OF states_cong(10) [OF assms(1)] assms(3)] states_cong(9) [OF assms(1)] index_cong [OF assms(1,2)]
    commit_inv_same_tree [OF states_cong(10) [OF assms(1)]] id_inv_same_tree [OF states_cong(10) [OF assms(1)] assms(3)]
  by (simp add: tree_inv_def)

lemma chain_inv_cong:
  assumes "states db' = states db" "byBlocknumIndex db' = byBlocknumIndex db" "commitIndex db' = commitIndex db"
  shows "chain_inv db' = chain_inv db"
  by (simp add: chain_inv_def assms states_cong [OF assms(1)])

lemma tree_inv_same:
  assumes "states db' = states db" "byOrderIndex db' = byOrderIndex db" "blocks db' = blocks db"
    "byBlocknumIndex db' = byBlocknumIndex db" "commitIndex db' = commitIndex db"
  shows "tree_inv E db' = tree_inv E db"
  using chain_inv_cong [OF assms(1,4,5)] tree_inv_cong [of db' db E] tree_inv_cong [of db db' E] assms
  by (auto dest: tree_invD(5))

lemma tree_inv_upd [simp]:
  "tree_inv E (db\<lparr>headRevision := r\<rparr>) = tree_inv E db" "tree_inv E (db\<lparr>fd_head := h\<rparr>) = tree_inv E db"
  by (rule tree_inv_same; simp)+

lemma state_upd [simp]:
  "get_state (db\<lparr>headRevision := r\<rparr>) = get_state db" "get_state (db\<lparr>fd_head := h\<rparr>) = get_state db"
  "get_state (db\<lparr>byBlocknumIndex := x\<rparr>) = get_state db"
  "executed (db\<lparr>headRevision := r\<rparr>) = executed db" "executed (db\<lparr>fd_head := h\<rparr>) = executed db"
  "executed (db\<lparr>byBlocknumIndex := x\<rparr>) = executed db"
  "descends (db\<lparr>headRevision := r\<rparr>) = descends db" "descends (db\<lparr>fd_head := h\<rparr>) = descends db"
  "descends (db\<lparr>byBlocknumIndex := x\<rparr>) = descends db"
  by (rule states_cong; simp)+

lemma index_upd [simp]:
  "indexed (db\<lparr>headRevision := r\<rparr>) = indexed db" "indexed (db\<lparr>fd_head := h\<rparr>) = indexed db"
  "indexed (db\<lparr>byBlocknumIndex := x\<rparr>) = indexed db"
  by (rule index_cong; simp)+

lemma evolves_cong:
  assumes "states db' = states db" "byOrderIndex db' = byOrderIndex db" "blocks db' = blocks db"
    "commitIndex db' = commitIndex db" "currentTerm db' = currentTerm db" "blockContext db' = blockContext db"
  shows "evolves db0 db' = evolves db0 db" "evolves db' db0 = evolves db db0"
  by (simp_all add: evolves_def same_tree_def assms states_cong [OF assms(1)])

lemma evolves_upd [simp]:
  "evolves db0 (db\<lparr>headRevision := r\<rparr>) = evolves db0 db" "evolves db0 (db\<lparr>fd_head := h\<rparr>) = evolves db0 db"
  "evolves db0 (db\<lparr>byBlocknumIndex := x\<rparr>) = evolves db0 db"
  "evolves (db\<lparr>headRevision := r\<rparr>) db0 = evolves db db0" "evolves (db\<lparr>byBlocknumIndex := x\<rparr>) db0 = evolves db db0"
  by (rule evolves_cong; simp)+

lemma truncate_tree_inv:
  assumes inv: "tree_inv E db" and idx: "byBlocknumIndex db = xs @ ys" "xs \<noteq> []" "commitIndex db \<le> fst (last xs)"
  shows "tree_inv E (db\<lparr>byBlocknumIndex := xs\<rparr>)"
proof (rule tree_inv_cong [OF _ _ _ _ inv])
  have ch: "chain db (xs @ ys)" and v: "\<forall>p \<in> set (xs @ ys). valid_at db (snd p)" and c: "commitIndex db \<in> fst ` set (xs @ ys)"
    using tree_invD(5) [OF inv] by (simp_all add: chain_inv_def idx)
  have "fst (last xs) < fst p" if "p \<in> set ys" for p
    using chain_ordered [OF ch] that idx(2) last_in_set [of xs] by (auto simp: ordered_append)
  then have "commitIndex db \<in> fst ` set xs" using c idx(3) by fastforce
  moreover have "chain (db\<lparr>byBlocknumIndex := xs\<rparr>) = chain db" "valid_at (db\<lparr>byBlocknumIndex := xs\<rparr>) = valid_at db"
    by (rule states_cong; simp)+
  ultimately show "chain_inv (db\<lparr>byBlocknumIndex := xs\<rparr>)"
    using ch v by (simp add: chain_inv_def chain_append)
qed simp_all

locale accept_callback =
  fixes E :: env and accept :: accept
  assumes accept: "tree_inv E db \<Longrightarrow> executed db i \<Longrightarrow> indexed db i \<Longrightarrow> i \<in> snd ` set (byBlocknumIndex db) \<Longrightarrow> accepted E i db (accept i db)"
begin

lemma execute_block_cases:
  assumes "execute_block E accept db prev i = (b, db')"
  shows "(\<not> b \<and> db' = db \<and> hs_revision (the_state db i) = None) \<or>
    (b \<and> db' = db \<and> hs_revision (the_state db i) \<noteq> None) \<or>
    (b \<and> hs_revision (the_state db i) = None \<and> (\<exists>r. db' = accept i (record_revision db i r)))"
  using assms
  by (auto simp: execute_block_def Let_def record_revision_def split: if_splits result.splits option.splits prod.splits)

text \<open>One block of a fork: a failure changes nothing, and a success leaves it executed.\<close>

lemma execute_block_inv:
  assumes inv: "tree_inv E db" and c: "child_of db i prev" "executed db prev" and i: "(n, i) \<in> set (byBlocknumIndex db)"
    and ix: "executed db i \<or> indexed db i"
    and ex: "execute_block E accept db prev i = (b, db')"
  shows "\<not> b \<Longrightarrow> db' = db \<and> \<not> executed db i"
    and "b \<Longrightarrow> executed db' i \<and> tree_inv E db' \<and> evolves db db' \<and> byBlocknumIndex db' = byBlocknumIndex db \<and>
      fd_head db' = fd_head db \<and> commitIndex db' \<le> max (commitIndex db) n \<and>
      (\<forall>j. indexed db j \<longrightarrow> descends db j i \<longrightarrow> indexed db' j) \<and> new_commit db db'"
proof -
  obtain s where s: "get_state db i = Some s" "hs_num s = n"
    using tree_invD(5) [OF inv] i by (auto simp: chain_inv_def chain_def at_num_def)
  show "\<not> b \<Longrightarrow> db' = db \<and> \<not> executed db i"
    using execute_block_cases [OF ex] s by (auto simp: executed_def)
  assume b
  have par: "executed db p" if "child_of db i p" for p using that c by (simp add: child_of_def)
  consider "db' = db" "hs_revision s \<noteq> None" | r where "db' = accept i (record_revision db i r)" "hs_revision s = None"
    using execute_block_cases [OF ex] s \<open>b\<close> by auto
  then show "executed db' i \<and> tree_inv E db' \<and> evolves db db' \<and> byBlocknumIndex db' = byBlocknumIndex db \<and>
      fd_head db' = fd_head db \<and> commitIndex db' \<le> max (commitIndex db) n \<and>
      (\<forall>j. indexed db j \<longrightarrow> descends db j i \<longrightarrow> indexed db' j) \<and> new_commit db db'"
  proof cases
    case 1
    with inv s show ?thesis by (auto simp: executed_def new_commit_def)
  next
    case (2 r)
    let ?db = "record_revision db i r"
    have t: "tree_inv E ?db" and e: "evolves db ?db" using record_tree_inv [OF inv par] by blast+
    have x: "executed ?db i" using s by (simp add: record_facts)
    have "i \<in> snd ` set (byBlocknumIndex ?db)" using i by force
    moreover have "indexed ?db i" using ix s 2(2) by (auto simp: record_facts executed_def)
    ultimately have a: "accepted E i ?db db'" using accept [OF t x] by (simp add: 2(1))
    have "hs_num (the_state ?db i) = n" using s by simp
    moreover have "executed db' i" using a x by (auto simp: accepted_def evolves_def)
    ultimately show ?thesis
      using a evolves_trans [OF e] same_tree_simps(4) [OF record_same_tree]
      by (simp add: accepted_def record_facts new_commit_def)
  qed
qed

lemma execute_fork_fails:
  assumes inv: "tree_inv E db" and idx: "byBlocknumIndex db = pre @ (n0, prev) # (n, i) # rest"
    and com: "commitIndex db \<le> n0" and ix: "indexed db i"
  defines "db' \<equiv> (blacklist_subtree (db\<lparr>byBlocknumIndex := map_erase_from n (byBlocknumIndex db)\<rparr>) i)\<lparr>fd_head := prev\<rparr>"
  shows "tree_inv E db' \<and> evolves db db' \<and> byBlocknumIndex db' = pre @ [(n0, prev)] \<and> fd_head db' = prev \<and>
    set (byOrderIndex db') \<subset> set (byOrderIndex db) \<and> commitIndex db' = commitIndex db"
proof -
  let ?xs = "pre @ [(n0, prev)]"
  let ?db = "db\<lparr>byBlocknumIndex := ?xs\<rparr>"
  have split: "byBlocknumIndex db = ?xs @ (n, i) # rest" using idx by simp
  have ch: "chain db (?xs @ (n, i) # rest)" using tree_invD(5) [OF inv] by (simp add: chain_inv_def split)
  note ord = chain_ordered [OF ch]
  have er: "map_erase_from n (byBlocknumIndex db) = ?xs" unfolding split by (rule map_erase_from_split [OF ord])
  have t: "tree_inv E ?db" using truncate_tree_inv [OF inv split] com by simp
  have "\<not> descends ?db (snd p) i" if "p \<in> set (byBlocknumIndex ?db)" for p
  proof -
    have p: "p \<in> set ?xs" using that by simp
    then have "fst p < n" using ord unfolding ordered_append by auto
    moreover have "at_num db p" "at_num db (n, i)" using ch p by (auto simp: chain_def)
    ultimately show ?thesis
      using descends_num [OF tree_invD(1) [OF inv], of "snd p" i] by (cases "snd p = i") (auto simp: at_num_def)
  qed
  note b = blacklist_tree_inv [OF t _ this, simplified, OF ix]
  have "\<not> indexed (blacklist_subtree ?db i) i" by (rule b)
  then have "set (byOrderIndex (blacklist_subtree ?db i)) \<noteq> set (byOrderIndex db)"
    using ix unfolding indexed_def by metis
  moreover have "set (byOrderIndex (blacklist_subtree ?db i)) \<subseteq> set (byOrderIndex db)"
    using b(2) by (simp add: evolves_def)
  moreover have "commitIndex (blacklist_subtree ?db i) = commitIndex db"
    by (simp add: blacklist_subtree_def Let_def split_beta)
  ultimately show ?thesis using b by (simp add: db'_def er psubset_eq)
qed

lemma execute_fork_inv:
  assumes "tree_inv E db" "byBlocknumIndex db = pre @ (n0, prev) # rest"
    and "\<forall>p \<in> set (pre @ [(n0, prev)]). executed db (snd p)" "commitIndex db \<le> n0"
    and "\<forall>p \<in> set rest. executed db (snd p) \<or> indexed db (snd p)"
    and "execute_fork E accept db prev rest = (b, db')"
  shows "tree_inv E db' \<and> evolves db db' \<and> new_commit db db' \<and>
    (\<exists>fin todo. rest = fin @ todo \<and> byBlocknumIndex db' = pre @ (n0, prev) # fin \<and>
      (\<forall>p \<in> set (byBlocknumIndex db'). executed db' (snd p)) \<and>
      (if b then todo = [] \<and> fd_head db' = fd_head db \<and> (indexed db (snd (last ((n0, prev) # rest))) \<longrightarrow> indexed db' (snd (last ((n0, prev) # rest))))
       else fd_head db' = snd (last ((n0, prev) # fin)) \<and> set (byOrderIndex db') \<subset> set (byOrderIndex db) \<and>
         (\<exists>p \<in> set rest. \<not> executed db (snd p))))"
  using assms
proof (induction rest arbitrary: pre n0 prev db)
  case Nil
  then show ?case by (auto simp: new_commit_def)
next
  case (Cons p rest)
  obtain n i where p: "p = (n, i)" by fastforce
  obtain b1 db1 where ex: "execute_block E accept db prev i = (b1, db1)" by fastforce
  have ch: "chain db (pre @ (n0, prev) # (n, i) # rest)"
    using tree_invD(5) [OF Cons.prems(1)] by (simp add: chain_inv_def Cons.prems(2) p)
  then have c: "child_of db i prev" by (simp add: chain_append link_def)
  have i: "(n, i) \<in> set (byBlocknumIndex db)" by (simp add: Cons.prems(2) p)
  have "executed db i \<or> indexed db i" using Cons.prems(5) by (simp add: p)
  note one = execute_block_inv [OF Cons.prems(1) c _ i this ex]
  show ?case
  proof (cases b1)
    case False
    then have db1: "db1 = db" "\<not> executed db i" using one(1) Cons.prems(3) by auto
    then have "indexed db i" using Cons.prems(5) by (simp add: p)
    note f = execute_fork_fails [OF Cons.prems(1) Cons.prems(2) [unfolded p] Cons.prems(4) this]
    have b: "b = False" and db': "db' = (blacklist_subtree (db\<lparr>byBlocknumIndex := map_erase_from n (byBlocknumIndex db)\<rparr>) i)\<lparr>fd_head := prev\<rparr>"
      using Cons.prems(6) ex False db1 by (auto simp: p)
    have "\<forall>q \<in> set (byBlocknumIndex db'). executed db' (snd q)"
      using f Cons.prems(3) unfolding db' by (auto simp: evolves_def)
    with f b db1(2) show ?thesis unfolding db' p by (intro conjI exI [of _ "[]"] exI [of _ "(n, i) # rest"]) (auto simp: new_commit_def)
  next
    case True
    have o: "executed db1 i" "tree_inv E db1" "evolves db db1" "byBlocknumIndex db1 = byBlocknumIndex db"
      "fd_head db1 = fd_head db" "commitIndex db1 \<le> max (commitIndex db) n"
      "\<And>j. indexed db j \<Longrightarrow> descends db j i \<Longrightarrow> indexed db1 j" "new_commit db db1"
      using one(2) True Cons.prems(3) by auto
    let ?db = "db1\<lparr>headRevision := hs_revision (the_state db1 i)\<rparr>"
    have d: "descends db (snd q) i" if "q \<in> set ((n, i) # rest)" for q
      using chain_descends [of db "(n, i)" rest q] ch that by (simp add: chain_append)
    have n0: "n0 < n" using chain_ordered [OF ch] by (simp add: ordered_append)
    have "execute_fork E accept ?db i rest = (b, db')"
      using Cons.prems(6) ex True by (simp add: p)
    moreover have "\<forall>q \<in> set ((pre @ [(n0, prev)]) @ [(n, i)]). executed ?db (snd q)"
      using Cons.prems(3) o(1,3) by (auto simp: evolves_def)
    moreover have "\<forall>q \<in> set rest. executed ?db (snd q) \<or> indexed ?db (snd q)"
    proof
      fix q
      assume "q \<in> set rest"
      then have "executed db (snd q) \<or> indexed db (snd q)" "descends db (snd q) i" using Cons.prems(5) d by auto
      then show "executed ?db (snd q) \<or> indexed ?db (snd q)" using o(3,7) by (auto simp: evolves_def)
    qed
    moreover have "byBlocknumIndex ?db = (pre @ [(n0, prev)]) @ (n, i) # rest" by (simp add: o Cons.prems(2) p)
    moreover have "commitIndex ?db \<le> n" using o(6) Cons.prems(4) n0 by (simp add: max_def split: if_splits)
    ultimately have IH: "tree_inv E db' \<and> evolves ?db db' \<and> new_commit ?db db' \<and>
      (\<exists>fin todo. rest = fin @ todo \<and> byBlocknumIndex db' = (pre @ [(n0, prev)]) @ (n, i) # fin \<and>
        (\<forall>p \<in> set (byBlocknumIndex db'). executed db' (snd p)) \<and>
        (if b then todo = [] \<and> fd_head db' = fd_head ?db \<and> (indexed ?db (snd (last ((n, i) # rest))) \<longrightarrow> indexed db' (snd (last ((n, i) # rest))))
         else fd_head db' = snd (last ((n, i) # fin)) \<and> set (byOrderIndex db') \<subset> set (byOrderIndex ?db) \<and>
           (\<exists>p \<in> set rest. \<not> executed ?db (snd p))))"
      using o(2) by (intro Cons.IH) simp_all
    then obtain fin todo where ft: "rest = fin @ todo" "byBlocknumIndex db' = (pre @ [(n0, prev)]) @ (n, i) # fin"
        "\<forall>p \<in> set (byBlocknumIndex db'). executed db' (snd p)"
        "if b then todo = [] \<and> fd_head db' = fd_head ?db \<and> (indexed ?db (snd (last ((n, i) # rest))) \<longrightarrow> indexed db' (snd (last ((n, i) # rest))))
         else fd_head db' = snd (last ((n, i) # fin)) \<and> set (byOrderIndex db') \<subset> set (byOrderIndex ?db) \<and>
           (\<exists>p \<in> set rest. \<not> executed ?db (snd p))"
      by blast
    have ie: "indexed db1 (snd (last ((n, i) # rest)))" if "indexed db (snd (last ((n, i) # rest)))"
      using that d [of "last ((n, i) # rest)"] o(7) by simp
    have ev: "evolves db db'" using IH evolves_trans [OF o(3)] by simp
    have ne: "\<not> executed db j" if "\<not> executed ?db j" for j using that o(3) by (auto simp: evolves_def)
    have ss: "set (byOrderIndex db1) \<subseteq> set (byOrderIndex db)" using o(3) by (simp add: evolves_def)
    have "set (byBlocknumIndex db') \<subseteq> set (byBlocknumIndex db1)" using ft(1,2) by (auto simp: o(4) Cons.prems(2) p)
    then have nc: "new_commit db db'"
      using IH by (intro new_commit_trans [OF o(8)]) (simp_all add: new_commit_def)
    have fin: "if b then todo = [] \<and> fd_head db' = fd_head db \<and>
           (indexed db (snd (last ((n0, prev) # (n, i) # rest))) \<longrightarrow> indexed db' (snd (last ((n0, prev) # (n, i) # rest))))
         else fd_head db' = snd (last ((n0, prev) # (n, i) # fin)) \<and> set (byOrderIndex db') \<subset> set (byOrderIndex db) \<and>
           (\<exists>p \<in> set ((n, i) # rest). \<not> executed db (snd p))"
      using ft(4) ie ne ss o(5) by (cases b) (simp_all, blast)
    show ?thesis unfolding p
      using IH ev nc ft(1-3) fin by (intro conjI exI [of _ "(n, i) # fin"] exI [of _ todo]) simp_all
  qed
qed

end

end
