(* ===== verification/Fork_Switch.thy ===== *)
theory Fork_Switch
  imports Fork_Inv
begin

text \<open>
  Switching forks: \<open>trySetHead\<close> and \<open>async_switch_fork\<close> of ForkDb.hpp keep the invariant, never replace a
  block at or below the commit index, and end with the best block as head.
\<close>

section \<open>Ancestors\<close>

lemma ancestors_linear:
  assumes st: "states_inv db" and "descends db i a" "descends db i b" "hs_num (the_state db b) \<le> hs_num (the_state db a)"
  shows "descends db a b"
proof -
  have "(child_of db)\<^sup>*\<^sup>* i a" using assms(2) by (simp add: descends_def)
  then show ?thesis using assms(3,4)
  proof (induction rule: converse_rtranclp_induct)
    case base
    then show ?case by simp
  next
    case (step i p)
    have p: "p = prev_of db i" using step(1) by (simp add: child_of_def)
    have "i \<noteq> b"
    proof
      assume "i = b"
      have "descends db p a" using step(2) by (simp add: descends_def)
      then have "hs_num (the_state db a) \<le> hs_num (the_state db p)"
        using descends_num [OF st, of p a] by (cases "p = a") auto
      moreover have "hs_num (the_state db p) < hs_num (the_state db i)"
        using child_num [OF st step(1)] by (simp add: word_less_nat_alt)
      ultimately show False using step(5) \<open>i = b\<close> by simp
    qed
    with step(4) have "descends db p b" using descends_step [of db i b] p by auto
    then show ?case using step by simp
  qed
qed

lemma valid_ancestor:
  assumes "states_inv db" "descends db i a" "valid_at db i"
  shows "valid_at db a"
proof -
  have "(child_of db)\<^sup>*\<^sup>* i a" using assms(2) by (simp add: descends_def)
  then show ?thesis using assms(3)
    by (induction rule: converse_rtranclp_induct) (auto dest: valid_parent [OF assms(1)])
qed

lemma executed_ancestor:
  assumes "exec_inv db" "descends db i a" "executed db i"
  shows "executed db a"
proof -
  have "(child_of db)\<^sup>*\<^sup>* i a" using assms(2) by (simp add: descends_def)
  then show ?thesis using assms(3)
    by (induction rule: converse_rtranclp_induct) (use assms(1) in \<open>auto simp: exec_inv_def\<close>)
qed

lemma chain_last_descends:
  assumes "chain db xs" "p \<in> set xs"
  shows "descends db (snd (last xs)) (snd p)"
proof -
  obtain ys zs where xs: "xs = ys @ p # zs" using assms(2) by (auto simp: in_set_conv_decomp)
  then have "chain db (p # zs)" using assms(1) by (simp add: chain_append)
  from chain_descends [OF this, of "last (p # zs)"] show ?thesis by (simp add: xs)
qed

lemma map_of_prefix:
  assumes "ordered (xs @ ys)" "xs \<noteq> []" "k \<le> fst (last xs)"
  shows "map_of (xs @ ys) k = map_of xs k"
proof -
  have "map_of ys k = None"
  proof (rule ccontr)
    assume "map_of ys k \<noteq> None"
    then obtain v where "(k, v) \<in> set ys" by (auto dest: map_of_SomeD)
    moreover have "last xs \<in> set xs" using assms(2) by simp
    ultimately have "fst (last xs) < k" using assms(1) unfolding ordered_append by fastforce
    with assms(3) show False by simp
  qed
  then show ?thesis by (simp add: map_add_def split: option.splits)
qed

lemma path_last: "cnt \<noteq> 0 \<Longrightarrow> last (path db cnt n i) = (n, i)"
  by (cases cnt) auto

lemma extend_index_ok:
  assumes "store_inv E db" "states_inv db" "at_num db (n, i)" "unat n = cnt + unat h" "commitIndex db \<le> h"
    and "\<forall>p \<in> set xs. fst p \<le> h"
  obtains j ys where "extend_index E db cnt n i xs = Some (xs @ ys, j)" "chain db ((h, j) # ys)"
    "last ((h, j) # ys) = (n, i)"
proof -
  obtain j where j: "extend_index E db cnt n i xs = Some (xs @ path db cnt n i, j)" "chain db ((h, j) # path db cnt n i)"
    using extend_index_path [OF assms, of "[]"] by auto
  show thesis
  proof (cases cnt)
    case 0
    then have "h = n" using assms(4) by (simp add: word_unat_eq_iff)
    with 0 j show thesis by (intro that [of "[]" j]) auto
  next
    case (Suc c)
    then have "last ((h, j) # path db cnt n i) = (n, i)" by simp
    with j show thesis by (intro that)
  qed
qed

section \<open>The common part of the two chains\<close>

lemma ordered_last: "ordered m \<Longrightarrow> p \<in> set m \<Longrightarrow> fst p \<le> fst (last m)"
  by (induction m) (auto intro: less_imp_le)

lemma ordered_prefix_mem:
  assumes "ordered (xs @ ys)" "xs \<noteq> []" "k \<le> fst (last xs)" "k \<in> fst ` set (xs @ ys)"
  shows "k \<in> fst ` set xs"
proof (rule ccontr)
  assume "k \<notin> fst ` set xs"
  with assms(4) obtain p where p: "p \<in> set ys" "k = fst p" by auto
  moreover have "last xs \<in> set xs" using assms(2) by simp
  ultimately have "fst (last xs) < k" using assms(1) by (simp add: ordered_append)
  with assms(3) show False by simp
qed

lemma takeWhile_le_ordered:
  assumes "chain db ((h, j) # ys)" "\<forall>p \<in> set xs. fst p \<le> h"
  shows "takeWhile (\<lambda>p. fst p \<le> h) (xs @ ys) = xs" "dropWhile (\<lambda>p. fst p \<le> h) (xs @ ys) = ys"
proof -
  have "\<forall>p \<in> set ys. h < fst p" using chain_nums [OF assms(1)] by auto
  then have "takeWhile (\<lambda>p. fst p \<le> h) ys = [] \<and> dropWhile (\<lambda>p. fst p \<le> h) ys = ys"
    by (cases ys) auto
  with assms(2) show "takeWhile (\<lambda>p. fst p \<le> h) (xs @ ys) = xs" "dropWhile (\<lambda>p. fst p \<le> h) (xs @ ys) = ys"
    by (simp_all add: takeWhile_append dropWhile_append)
qed

text \<open>
  What is left of the index when the entries above the new head's number are dropped: it ends with the
  smaller of the two numbers.
\<close>

lemma cut_index:
  assumes inv: "fork_inv E db" and n: "commitIndex db \<le> n"
  defines "h \<equiv> hs_num (get_head_state db)"
  defines "idx0 \<equiv> if n < h then map_erase_from (n + 1) (byBlocknumIndex db) else byBlocknumIndex db"
  obtains x below zs where "idx0 = rev below @ [(min n h, x)]" "byBlocknumIndex db = idx0 @ zs"
proof -
  have ch: "chain db (byBlocknumIndex db)" and com: "commitIndex db \<in> fst ` set (byBlocknumIndex db)"
    using inv by (auto simp: fork_inv_def tree_inv_def chain_inv_def)
  have last: "byBlocknumIndex db \<noteq> []" "last (byBlocknumIndex db) = (h, fd_head db)"
    using inv by (auto simp: fork_inv_def head_inv_def h_def)
  show thesis
  proof (cases "n < h")
    case False
    have "byBlocknumIndex db = rev (rev (butlast (byBlocknumIndex db))) @ [(min n h, fd_head db)]"
      using False last append_butlast_last_id [OF last(1)] by (simp add: min_def)
    with False show thesis by (intro that [of "rev (butlast (byBlocknumIndex db))" "fd_head db" "[]"]) (auto simp: idx0_def)
  next
    case True
    obtain p xs where p: "byBlocknumIndex db = p # xs" using last(1) by (cases "byBlocknumIndex db") auto
    have low: "fst p \<le> commitIndex db" using com chain_ordered [OF ch] by (auto simp: p intro: less_imp_le)
    have un: "unat (n + 1) = Suc (unat n)"
      using True unsigned_less [of h, where ?'a = nat] by (simp add: word_less_nat_alt unat_word_ariths)
    have mem: "n \<in> fst ` set (byBlocknumIndex db)" "n + 1 \<in> fst ` set (byBlocknumIndex db)"
      using chain_contiguous [of db p xs n] chain_contiguous [of db p xs "n + 1"] ch True low n last un
      by (simp_all add: p word_le_nat_alt word_less_nat_alt)
    then obtain y where "(n + 1, y) \<in> set (byBlocknumIndex db)" by auto
    then obtain as bs where sp: "byBlocknumIndex db = as @ (n + 1, y) # bs" by (auto dest: split_list)
    have ord: "ordered (as @ (n + 1, y) # bs)" using chain_ordered [OF ch] by (simp add: sp)
    have "n < n + 1" using un by (simp add: word_less_nat_alt)
    then have "as \<noteq> []" using low n p sp by (auto dest: le_less_trans)
    moreover have "link db (last as) (n + 1, y)" using ch \<open>as \<noteq> []\<close> by (simp add: sp chain_append)
    then have "fst (last as) = n" using un by (simp add: link_def word_unat_eq_iff)
    ultimately have "as = rev (rev (butlast as)) @ [(min n h, snd (last as))]"
      using True append_butlast_last_id [of as] by (metis min.strict_order_iff prod.collapse rev_rev_ident)
    moreover have "idx0 = as" using True map_erase_from_split [OF ord] by (simp add: idx0_def sp)
    ultimately show thesis using sp by (intro that [of "rev (butlast as)"]) auto
  qed
qed

text \<open>
  The index that \<open>trySetHead\<close> executes: a common prefix with the old index, at least up to the commit
  index, followed by the ancestors of the new head. Otherwise the new head is not a descendant of the
  committed block.
\<close>

lemma relinked_index:
  assumes inv: "fork_inv E db" and new: "get_state db new = Some s" and n: "commitIndex db \<le> hs_num s"
  defines "h \<equiv> hs_num (get_head_state db)"
  defines "idx0 \<equiv> if hs_num s < h then map_erase_from (hs_num s + 1) (byBlocknumIndex db) else byBlocknumIndex db"
  obtains idx j where "extend_index E db (unat (hs_num s) - unat h) (hs_num s) new idx0 = Some (idx, j)"
    "(\<exists>m y pre zs rest. relink E db (rev (takeWhile (\<lambda>p. fst p \<le> min (hs_num s) h) idx)) j
        (dropWhile (\<lambda>p. fst p \<le> min (hs_num s) h) idx) = Found m (pre @ (m, y) # rest) \<and>
        byBlocknumIndex db = (pre @ [(m, y)]) @ zs \<and> chain db (pre @ (m, y) # rest) \<and>
        last ((m, y) # rest) = (hs_num s, new) \<and> commitIndex db \<le> m) \<or>
     (\<exists>idx' c. relink E db (rev (takeWhile (\<lambda>p. fst p \<le> min (hs_num s) h) idx)) j
        (dropWhile (\<lambda>p. fst p \<le> min (hs_num s) h) idx) = Conflict idx' \<and>
        (commitIndex db, c) \<in> set (byBlocknumIndex db) \<and> \<not> descends db new c)"
proof -
  let ?n = "hs_num s" and ?m = "min (hs_num s) h"
  have st: "states_inv db" and sto: "store_inv E db" and ch: "chain db (byBlocknumIndex db)"
    and com: "commitIndex db \<in> fst ` set (byBlocknumIndex db)"
    using inv by (auto simp: fork_inv_def tree_inv_def chain_inv_def)
  obtain x below zs where i0: "idx0 = rev below @ [(?m, x)]" and sp: "byBlocknumIndex db = idx0 @ zs"
    using cut_index [OF inv n] unfolding idx0_def h_def by metis
  have ord: "ordered (idx0 @ zs)" using chain_ordered [OF ch] by (simp add: sp)
  have i0le: "\<forall>p \<in> set idx0. fst p \<le> ?m"
    using ord unfolding i0 by (auto simp: ordered_append intro: less_imp_le)
  have "last (byBlocknumIndex db) = (h, fd_head db)" "byBlocknumIndex db \<noteq> []"
    using inv by (auto simp: fork_inv_def head_inv_def h_def)
  then have hc: "commitIndex db \<le> h" using com ordered_last [OF chain_ordered [OF ch]] by fastforce
  then have com_m: "commitIndex db \<le> ?m" using n by simp
  have com0: "commitIndex db \<in> fst ` set idx0"
    by (rule ordered_prefix_mem [OF ord]) (use com_m com sp i0 in auto)
  have "unat ?n = unat ?n - unat h + unat ?m" by (auto simp: min_def word_le_nat_alt)
  moreover have "at_num db (?n, new)" using new by (simp add: at_num_def)
  ultimately obtain j ys where ex: "extend_index E db (unat ?n - unat h) ?n new idx0 = Some (idx0 @ ys, j)"
    and jc: "chain db ((?m, j) # ys)" and jl: "last ((?m, j) # ys) = (?n, new)"
    using extend_index_ok [OF sto st _ _ com_m i0le] by metis
  note tw = takeWhile_le_ordered [OF jc i0le]
  have "chain db (rev (rev idx0))" using ch by (simp add: sp chain_append)
  moreover have "rev idx0 = (?m, x) # below" by (simp add: i0)
  moreover have "at_num db (?m, j)" using jc by (simp add: chain_Cons)
  moreover have "commitIndex db \<in> fst ` set (rev idx0)" using com0 by simp
  ultimately have "(\<exists>m y below' passed' above. relink E db (rev idx0) j ys = Found m (rev below' @ (m, y) # passed') \<and>
      rev idx0 = above @ (m, y) # below' \<and> chain db ((m, y) # passed') \<and> descends db j y \<and>
      last ((m, y) # passed') = last ((?m, j) # ys) \<and> commitIndex db \<le> m) \<or>
    (\<exists>idx c. relink E db (rev idx0) j ys = Conflict idx \<and> (commitIndex db, c) \<in> set (rev idx0) \<and> \<not> descends db j c)"
    by (rule relink_found [OF sto st _ _ _ jc])
  then show thesis
  proof (elim disjE exE conjE)
    fix m y below' passed' above
    assume f: "relink E db (rev idx0) j ys = Found m (rev below' @ (m, y) # passed')"
      and r: "rev idx0 = above @ (m, y) # below'" and c: "chain db ((m, y) # passed')"
      and l: "last ((m, y) # passed') = last ((?m, j) # ys)" and cm: "commitIndex db \<le> m"
    have s0: "idx0 = (rev below' @ [(m, y)]) @ rev above" using arg_cong [OF r, of rev] by simp
    then have sp': "byBlocknumIndex db = (rev below' @ [(m, y)]) @ rev above @ zs" by (simp add: sp)
    have "chain db (rev below' @ (m, y) # passed')"
      using ch c unfolding sp' by (auto simp: chain_append)
    then show thesis
      using f sp' l [unfolded jl] cm by (intro that [OF ex], unfold tw, intro disjI1) blast
  next
    fix idx c
    assume "relink E db (rev idx0) j ys = Conflict idx" and c: "(commitIndex db, c) \<in> set (rev idx0)" and nd: "\<not> descends db j c"
    moreover have "(commitIndex db, c) \<in> set (byBlocknumIndex db)" using c by (simp add: sp)
    moreover have "\<not> descends db new c"
    proof
      assume "descends db new c"
      moreover have "descends db new j" using chain_last_descends [OF jc, of "(?m, j)"] jl by simp
      moreover have "at_num db (commitIndex db, c)" "at_num db (?m, j)"
        using c ch jc by (simp_all add: sp chain_def)
      then have "hs_num (the_state db c) \<le> hs_num (the_state db j)" using com_m by (auto simp: at_num_def)
      ultimately show False using ancestors_linear [OF st] nd by blast
    qed
    ultimately show thesis by (intro that [OF ex], unfold tw, intro disjI2) blast
  qed
qed

section \<open>Setting the head\<close>

text \<open>The block at each number up to the commit index stays the same.\<close>

definition keeps_committed :: "fork_db \<Rightarrow> fork_db \<Rightarrow> bool" where
  "keeps_committed db db' \<longleftrightarrow>
     (\<forall>n \<le> commitIndex db. map_of (byBlocknumIndex db') n = map_of (byBlocknumIndex db) n)"

lemma keeps_committed_trans:
  "keeps_committed db db' \<Longrightarrow> evolves db db' \<Longrightarrow> keeps_committed db' db'' \<Longrightarrow> keeps_committed db db''"
  unfolding keeps_committed_def evolves_def by (metis order_trans)

definition conflicts :: "fork_db \<Rightarrow> block_id \<Rightarrow> bool" where
  "conflicts db new \<longleftrightarrow> (\<exists>c. (commitIndex db, c) \<in> set (byBlocknumIndex db) \<and> \<not> descends db new c)"

text \<open>Every block that would have to be executed to make \<open>new\<close> the head may become head itself.\<close>

definition reachable_head :: "fork_db \<Rightarrow> block_id \<Rightarrow> bool" where
  "reachable_head db new \<longleftrightarrow> valid_at db new \<and> (\<forall>j. descends db new j \<longrightarrow> executed db j \<or> indexed db j)"

lemma index_set_tree_inv:
  assumes inv: "fork_inv E db" and new: "valid_at db new" and sp: "byBlocknumIndex db = (pre @ [(m, y)]) @ zs"
    and ch: "chain db (pre @ (m, y) # rest)" "last ((m, y) # rest) = (n, new)" and com: "commitIndex db \<le> m"
  shows "tree_inv E (db\<lparr>byBlocknumIndex := pre @ (m, y) # rest\<rparr>)"
proof (rule tree_inv_cong [where db = db])
  let ?db = "db\<lparr>byBlocknumIndex := pre @ (m, y) # rest\<rparr>"
  have st: "states_inv db" and c: "chain db (byBlocknumIndex db)" and v: "\<forall>p \<in> set (byBlocknumIndex db). valid_at db (snd p)"
    and k: "commitIndex db \<in> fst ` set (byBlocknumIndex db)"
    using inv by (auto simp: fork_inv_def tree_inv_def chain_inv_def)
  have "commitIndex db \<in> fst ` set (pre @ [(m, y)])"
    by (rule ordered_prefix_mem [of _ zs]) (use chain_ordered [OF c] k com sp in simp_all)
  moreover have "valid_at db (snd p)" if "p \<in> set ((m, y) # rest)" for p
    using valid_ancestor [OF st chain_last_descends [OF _ that]] ch new by (simp add: chain_append)
  moreover have "chain ?db = chain db" "valid_at ?db = valid_at db" by (rule states_cong; simp)+
  ultimately show "chain_inv ?db" using v ch by (auto simp: chain_inv_def sp)
qed (use inv in \<open>simp_all add: fork_inv_def\<close>)

lemma head_num_last:
  assumes "tree_inv E db" "byBlocknumIndex db \<noteq> []" "fd_head db = snd (last (byBlocknumIndex db))"
  shows "last (byBlocknumIndex db) = (hs_num (get_head_state db), fd_head db)"
proof -
  have "at_num db (last (byBlocknumIndex db))"
    using tree_invD(5) [OF assms(1)] assms(2) by (simp add: chain_inv_def chain_def)
  then show ?thesis using assms(3) by (auto simp: at_num_def get_head_state_def prod_eq_iff)
qed

lemma indexed_reachable:
  assumes inv: "tree_inv E db" and i: "indexed db i"
  shows "reachable_head db i"
  unfolding reachable_head_def
proof (intro conjI allI impI)
  show "valid_at db i" using i index_invD(2) [OF tree_invD(2) [OF inv]] by (auto simp: indexed_def)
  fix j
  assume "descends db i j"
  then have "(child_of db)\<^sup>*\<^sup>* i j" by (simp add: descends_def)
  then show "executed db j \<or> indexed db j"
    by (induction rule: rtranclp_induct) (use i tree_invD(4) [OF inv] in \<open>auto simp: exec_inv_def\<close>)
qed

section \<open>The best block\<close>

lemma last_below:
  assumes "ordered m"
  shows "(let pos = takeWhile (\<lambda>p. fst p < b) m in if pos = [] then None else Some (last pos)) = Some q \<longleftrightarrow>
    q \<in> set m \<and> fst q < b \<and> (\<forall>p \<in> set m. fst p < b \<longrightarrow> fst p \<le> fst q)"
  using assms
proof (induction m)
  case (Cons p m)
  have gt: "\<forall>r \<in> set m. fst p < fst r" using Cons.prems by (cases p) auto
  show ?case
  proof (cases "fst p < b")
    case False
    then show ?thesis using gt by (auto dest: less_trans)
  next
    case True
    show ?thesis
    proof (cases "takeWhile (\<lambda>p. fst p < b) m = []")
      case tw: True
      then have "\<forall>r \<in> set m. \<not> fst r < b" using Cons.prems gt
        by (cases m) (auto simp: takeWhile_eq_Nil_iff dest: less_trans split: if_splits)
      with tw True show ?thesis by (auto simp: Let_def)
    next
      case False
      have "ordered m" using Cons.prems by (cases p) auto
      note IH = Cons.IH [OF this]
      obtain r where r: "r \<in> set m" "fst r < b" using False by (cases m) (auto split: if_splits)
      then have "\<not> fst r \<le> fst p" using gt by (simp add: not_le)
      with IH False True gt r show ?thesis by (auto simp: Let_def)
    qed
  qed
qed simp

lemma best_block_iff:
  assumes "ordered (byOrderIndex db)"
  shows "best_block db = Some i \<longleftrightarrow>
    (\<exists>k. (k, i) \<in> set (byOrderIndex db) \<and> k < (currentTerm db + 1, 0, replicate 32 0) \<and>
      (\<forall>p \<in> set (byOrderIndex db). fst p < (currentTerm db + 1, 0, replicate 32 0) \<longrightarrow> fst p \<le> k))"
proof -
  let ?b = "(currentTerm db + 1, 0, replicate 32 0)"
  have "best_block db = Some i \<longleftrightarrow> (\<exists>k. (let pos = takeWhile (\<lambda>p. fst p < ?b) (byOrderIndex db)
      in if pos = [] then None else Some (last pos)) = Some (k, i))"
    by (auto simp: best_block_def Let_def) (metis prod.collapse)
  then show ?thesis by (simp only: last_below [OF assms] fst_conv)
qed

text \<open>The best block stays the best while the index shrinks around it.\<close>

lemma best_block_evolves:
  assumes "fork_inv E db" "fork_inv E db'" "evolves db db'" "best_block db = Some i" "indexed db' i"
  shows "best_block db' = Some i"
proof -
  have o: "ordered (byOrderIndex db)" "ordered (byOrderIndex db')"
    using assms(1,2) by (auto simp: fork_inv_def tree_inv_def index_inv_def)
  have e: "set (byOrderIndex db') \<subseteq> set (byOrderIndex db)" "currentTerm db' = currentTerm db"
    using assms(3) by (auto simp: evolves_def)
  obtain k where k: "(k, i) \<in> set (byOrderIndex db)" "k < (currentTerm db + 1, 0, replicate 32 0)"
    "\<forall>p \<in> set (byOrderIndex db). fst p < (currentTerm db + 1, 0, replicate 32 0) \<longrightarrow> fst p \<le> k"
    using assms(4) unfolding best_block_iff [OF o(1)] by blast
  obtain k' where k': "(k', i) \<in> set (byOrderIndex db')" using assms(5) by (auto simp: indexed_def)
  have ix: "index_inv db" using assms(1) by (simp add: fork_inv_def tree_inv_def)
  have "(k', i) \<in> set (byOrderIndex db)" using e(1) k' by blast
  then have "k' = k" using index_invD(2) [OF ix k(1)] index_invD(2) [OF ix, of k' i] by simp
  with k k' e show ?thesis unfolding best_block_iff [OF o(2)] by auto
qed

lemma under_commit_evolves:
  assumes "fork_inv E db" "fork_inv E db'" "evolves db db'" "keeps_committed db db'" "new_commit db db'"
    and "indexed db i \<longrightarrow> under_commit db i"
  shows "indexed db' i \<longrightarrow> under_commit db' i"
proof
  assume i: "indexed db' i"
  show "under_commit db' i"
  proof (cases "commitIndex db' = commitIndex db")
    case True
    have o: "ordered (byBlocknumIndex db)" "ordered (byBlocknumIndex db')"
      using assms(1,2) by (auto simp: fork_inv_def tree_inv_def chain_inv_def intro: chain_ordered)
    have "descends db' = descends db" using same_tree_simps(4) [of db db'] assms(3) by (auto simp: evolves_def fun_eq_iff)
    moreover have "under_commit db i" using assms(6) evolves_indexed [OF assms(3) i] by simp
    moreover have "(commitIndex db, c) \<in> set (byBlocknumIndex db)" if "(commitIndex db, c) \<in> set (byBlocknumIndex db')" for c
      using that assms(4) ordered_map_of [OF o(1), of "commitIndex db" c] ordered_map_of [OF o(2), of "commitIndex db" c]
      by (simp add: keeps_committed_def)
    ultimately show ?thesis by (simp add: under_commit_def True)
  qed (use assms(5) i in \<open>auto simp: new_commit_def\<close>)
qed

text \<open>Switching forks is impossible: nothing is left to try, or irreversible blocks conflict.\<close>

definition no_candidate :: "env \<Rightarrow> fork_db \<Rightarrow> bool" where
  "no_candidate E db \<longleftrightarrow>
     (\<exists>db'. fork_inv E db' \<and> evolves db db' \<and> keeps_committed db db' \<and>
       (best_block db' = None \<or> (\<exists>new. best_block db' = Some new \<and> conflicts db' new)))"

lemma no_candidate_evolves: "evolves db db' \<Longrightarrow> keeps_committed db db' \<Longrightarrow> no_candidate E db' \<Longrightarrow> no_candidate E db"
  unfolding no_candidate_def using evolves_trans keeps_committed_trans by metis

context accept_callback
begin

lemma execute_relinked:
  assumes inv: "fork_inv E db" and new: "reachable_head db new" and sp: "byBlocknumIndex db = (pre @ [(m, y)]) @ zs"
    and ch: "chain db (pre @ (m, y) # rest)" "last ((m, y) # rest) = (n, new)" and com: "commitIndex db \<le> m"
    and ex: "execute_fork E accept (db\<lparr>byBlocknumIndex := pre @ (m, y) # rest\<rparr>) y rest = (b, db1)"
  defines "db' \<equiv> if b then db1\<lparr>fd_head := new\<rparr> else db1"
  shows "fork_inv E db' \<and> evolves db db' \<and> keeps_committed db db' \<and> new_commit db db' \<and>
      (if b then fd_head db' = new \<and> (indexed db new \<longrightarrow> indexed db' new)
       else set (byOrderIndex db') \<subset> set (byOrderIndex db) \<and> \<not> executed db new)"
proof -
  let ?db = "db\<lparr>byBlocknumIndex := pre @ (m, y) # rest\<rparr>"
  have v: "valid_at db new" and gr: "\<And>j. descends db new j \<Longrightarrow> executed db j \<or> indexed db j"
    using new by (auto simp: reachable_head_def)
  have c0: "chain db (byBlocknumIndex db)" and x: "\<forall>p \<in> set (byBlocknumIndex db). executed db (snd p)"
    using inv by (auto simp: fork_inv_def tree_inv_def chain_inv_def head_inv_def)
  have t: "tree_inv E ?db" by (rule index_set_tree_inv [OF inv v sp ch com])
  have c1: "chain db ((m, y) # rest)" using ch by (simp add: chain_append)
  have "executed ?db (snd p) \<or> indexed ?db (snd p)" if "p \<in> set rest" for p
    using gr [of "snd p"] chain_last_descends [OF c1, of p] ch(2) that by simp
  then have f: "tree_inv E db1 \<and> evolves ?db db1 \<and> new_commit ?db db1 \<and>
    (\<exists>fin todo. rest = fin @ todo \<and> byBlocknumIndex db1 = pre @ (m, y) # fin \<and>
      (\<forall>p \<in> set (byBlocknumIndex db1). executed db1 (snd p)) \<and>
      (if b then todo = [] \<and> fd_head db1 = fd_head ?db \<and> (indexed ?db (snd (last ((m, y) # rest))) \<longrightarrow> indexed db1 (snd (last ((m, y) # rest))))
       else fd_head db1 = snd (last ((m, y) # fin)) \<and> set (byOrderIndex db1) \<subset> set (byOrderIndex ?db) \<and>
         (\<exists>p \<in> set rest. \<not> executed ?db (snd p))))"
    using t x com ex sp by (intro execute_fork_inv [where db = ?db]) auto
  then obtain fin todo where o: "rest = fin @ todo" "byBlocknumIndex db1 = pre @ (m, y) # fin"
      "\<forall>p \<in> set (byBlocknumIndex db1). executed db1 (snd p)"
      "if b then todo = [] \<and> fd_head db1 = fd_head ?db \<and> (indexed ?db (snd (last ((m, y) # rest))) \<longrightarrow> indexed db1 (snd (last ((m, y) # rest))))
       else fd_head db1 = snd (last ((m, y) # fin)) \<and> set (byOrderIndex db1) \<subset> set (byOrderIndex ?db) \<and>
         (\<exists>p \<in> set rest. \<not> executed ?db (snd p))"
    by blast
  have ea: "executed db (snd p)" if "executed db new" "p \<in> set rest" for p
    using executed_ancestor [OF _ _ that(1), of "snd p"] inv chain_last_descends [OF c1, of p] ch(2) that(2)
    by (simp add: fork_inv_def tree_inv_def)
  have t': "tree_inv E db'" and e': "evolves db db'" and i': "byBlocknumIndex db' = pre @ (m, y) # fin"
    and x': "\<forall>p \<in> set (byBlocknumIndex db'). executed db' (snd p)"
    using f o(2,3) by (simp_all add: db'_def)
  have nc: "new_commit db db'" using f by (simp add: new_commit_def under_commit_def db'_def)
  have "fd_head db' = snd (last (byBlocknumIndex db'))"
    using o(1,4) ch(2) unfolding i' by (cases b) (simp_all add: db'_def)
  then have "head_inv db'" using head_num_last [OF t'] x' i' by (simp add: head_inv_def)
  moreover have "keeps_committed db db'"
  proof -
    have "map_of ((pre @ [(m, y)]) @ fin) k = map_of (pre @ [(m, y)]) k" "map_of ((pre @ [(m, y)]) @ zs) k = map_of (pre @ [(m, y)]) k"
      if "k \<le> commitIndex db" for k
      by (rule map_of_prefix; use that com chain_ordered [OF ch(1)] chain_ordered [OF c0] o(1) sp in \<open>simp add: ordered_append\<close>)+
    then show ?thesis by (simp add: keeps_committed_def i' sp)
  qed
  ultimately show ?thesis
    using t' e' o(4) ch(2) ea nc by (cases b) (auto simp: fork_inv_def db'_def)
qed

lemma trySetHead_inv:
  assumes inv: "fork_inv E db" and new: "reachable_head db new" and r: "trySetHead E accept db new = (r, db')"
  shows "(\<exists>b. r = Ok b \<and> fork_inv E db' \<and> evolves db db' \<and> keeps_committed db db' \<and> new_commit db db' \<and>
      (if b then fd_head db' = new \<and> (indexed db new \<longrightarrow> indexed db' new)
       else set (byOrderIndex db') \<subset> set (byOrderIndex db) \<and> \<not> executed db new)) \<or>
    r = Err Consensus_Failure \<and> conflicts db new"
proof (cases "fd_head db = new")
  case True
  with r inv show ?thesis by (auto simp: trySetHead_def keeps_committed_def new_commit_def)
next
  case ne: False
  obtain s where s: "get_state db new = Some s" using new by (auto simp: reachable_head_def valid_at_def)
  have st: "states_inv db" and t: "tree_inv E db" using inv by (auto simp: fork_inv_def tree_inv_def)
  have ch: "chain db (byBlocknumIndex db)" and com: "commitIndex db \<in> fst ` set (byBlocknumIndex db)"
    using tree_invD(5) [OF t] by (auto simp: chain_inv_def)
  have id: "hs_id s = new" by (rule states_invD(2) [OF st s])
  let ?h = "hs_num (get_head_state db)" and ?n = "hs_num s"
  show ?thesis
  proof (cases "?n < commitIndex db")
    case True
    have "last (byBlocknumIndex db) = (?h, fd_head db)" using inv by (simp add: fork_inv_def head_inv_def)
    then have "?n < ?h" using True com ordered_last [OF chain_ordered [OF ch]] by fastforce
    then have "r = Err Consensus_Failure" using r ne s True by (simp add: trySetHead_def Let_def)
    moreover obtain c where c: "(commitIndex db, c) \<in> set (byBlocknumIndex db)" using com by auto
    moreover have "\<not> descends db new c"
    proof
      assume "descends db new c"
      moreover have "at_num db (commitIndex db, c)" using ch c by (simp add: chain_def)
      ultimately show False using descends_num [OF st, of new c] True s by (cases "new = c") (auto simp: at_num_def)
    qed
    ultimately show ?thesis by (auto simp: conflicts_def)
  next
    case False
    then have le: "commitIndex db \<le> ?n" by simp
    show ?thesis
    proof (rule relinked_index [OF inv s le], elim disjE exE conjE)
      fix idx j m y pre zs rest
      assume ex: "extend_index E db (unat ?n - unat ?h) ?n new
          (if ?n < ?h then map_erase_from (?n + 1) (byBlocknumIndex db) else byBlocknumIndex db) = Some (idx, j)"
        and rl: "relink E db (rev (takeWhile (\<lambda>p. fst p \<le> min ?n ?h) idx)) j (dropWhile (\<lambda>p. fst p \<le> min ?n ?h) idx) =
          Found m (pre @ (m, y) # rest)"
        and sp: "byBlocknumIndex db = (pre @ [(m, y)]) @ zs" and c': "chain db (pre @ (m, y) # rest)"
        and l: "last ((m, y) # rest) = (?n, new)" and cm: "commitIndex db \<le> m"
      have ord: "ordered (pre @ (m, y) # rest)" by (rule chain_ordered [OF c'])
      have y: "the (map_of (pre @ (m, y) # rest) m) = y" using ordered_map_of [OF ord, of m y] by simp
      have rest: "dropWhile (\<lambda>p. fst p \<le> m) (pre @ (m, y) # rest) = rest"
      proof -
        have "\<forall>p \<in> set (pre @ [(m, y)]). fst p \<le> m" using ord by (auto simp: ordered_append intro: less_imp_le)
        moreover have "chain db ((m, y) # rest)" using c' by (simp add: chain_append)
        ultimately have "dropWhile (\<lambda>p. fst p \<le> m) ((pre @ [(m, y)]) @ rest) = rest" by (intro takeWhile_le_ordered(2))
        then show ?thesis by (simp only: append_assoc append_Cons append_Nil)
      qed
      obtain b db1 where e: "execute_fork E accept (db\<lparr>byBlocknumIndex := pre @ (m, y) # rest\<rparr>) y rest = (b, db1)"
        by fastforce
      have "r = Ok b" "db' = (if b then db1\<lparr>fd_head := new\<rparr> else db1)"
        using r ne s False ex rl e by (auto simp: trySetHead_def Let_def id y rest simp del: map_of_append split: bool.splits)
      with execute_relinked [OF inv new sp c' l cm e] show ?thesis by blast
    next
      fix idx j idx' c
      assume ex: "extend_index E db (unat ?n - unat ?h) ?n new
          (if ?n < ?h then map_erase_from (?n + 1) (byBlocknumIndex db) else byBlocknumIndex db) = Some (idx, j)"
        and rl: "relink E db (rev (takeWhile (\<lambda>p. fst p \<le> min ?n ?h) idx)) j (dropWhile (\<lambda>p. fst p \<le> min ?n ?h) idx) =
          Conflict idx'"
        and c: "(commitIndex db, c) \<in> set (byBlocknumIndex db)" "\<not> descends db new c"
      have "r = Err Consensus_Failure"
        using r ne s False ex rl by (simp add: trySetHead_def Let_def id)
      with c show ?thesis by (auto simp: conflicts_def)
    qed
  qed
qed

text \<open>
  The loop of \<open>async_switch_fork\<close> ends, because every failed attempt removes a block from the index. Its error
  is raised only when no candidate is left or the best candidate conflicts with an irreversible block.
\<close>

lemma switch_loop_inv:
  assumes "fork_inv E db" "executed db original_head" "indexed db original_head \<longrightarrow> under_commit db original_head"
  shows "\<exists>r db'. switch_loop E accept original_head db = Some (r, db') \<and>
    (case r of
       Ok b \<Rightarrow> fork_inv E db' \<and> evolves db db' \<and> keeps_committed db db' \<and>
         (if b then best_block db' = Some (fd_head db') else blockContext db \<noteq> None \<and> fd_head db' = original_head)
     | Err e \<Rightarrow> e = Consensus_Failure \<and> no_candidate E db)"
  using assms
proof (induction "card (set (byOrderIndex db))" arbitrary: db rule: less_induct)
  case less
  note inv = less.prems(1)
  have t: "tree_inv E db" using inv by (simp add: fork_inv_def)
  have ord: "ordered (byOrderIndex db)" using index_invD(1) [OF tree_invD(2) [OF t]] .
  have stay: "no_candidate E db" if "best_block db = None \<or> best_block db = Some new \<and> conflicts db new" for new
    unfolding no_candidate_def using that inv
    by (intro exI [of _ db]) (auto simp: keeps_committed_def)
  note step = switch_loop.simps [of E accept original_head db]
  show ?case
  proof (cases "best_block db")
    case None
    with stay show ?thesis by (subst step) simp
  next
    case (Some new)
    have new: "indexed db new" using Some unfolding best_block_iff [OF ord] by (force simp: indexed_def)
    have rn: "reachable_head db new" by (rule indexed_reachable [OF t new])
    show ?thesis
    proof (cases "keep_pending db original_head new")
      case True
      obtain s where s: "get_state db original_head = Some s" using less.prems(2) by (auto simp: executed_def)
      have bc: "blockContext db \<noteq> None" using True by (auto simp: keep_pending_def split: option.splits)
      have io: "indexed db original_head"
        using True indexed_find [OF tree_invD(1,2) [OF t] s] s by (auto simp: keep_pending_def split: option.splits)
      have ro: "reachable_head db original_head" by (rule indexed_reachable [OF t io])
      obtain r db' where tr: "trySetHead E accept db original_head = (r, db')" by fastforce
      show ?thesis
      proof (cases "original_head = fd_head db")
        case True': True
        with True Some inv bc show ?thesis by (subst step) (simp add: keeps_committed_def)
      next
        case False
        have "\<not> conflicts db original_head" using less.prems(3) io by (auto simp: conflicts_def under_commit_def)
        with trySetHead_inv [OF inv ro tr] less.prems(2) obtain "r = Ok True" "fork_inv E db'" "evolves db db'"
            "keeps_committed db db'" "fd_head db' = original_head"
          by (auto split: if_splits)
        with False True Some tr bc show ?thesis by (subst step) simp
      qed
    next
      case False
      obtain r db' where tr: "trySetHead E accept db new = (r, db')" by fastforce
      from trySetHead_inv [OF inv rn tr] show ?thesis
      proof (elim disjE exE conjE)
        fix b
        assume r: "r = Ok b" and db': "fork_inv E db'" "evolves db db'" "keeps_committed db db'" "new_commit db db'"
          and b: "if b then fd_head db' = new \<and> (indexed db new \<longrightarrow> indexed db' new)
            else set (byOrderIndex db') \<subset> set (byOrderIndex db) \<and> \<not> executed db new"
        show ?thesis
        proof (cases b)
          case True
          then have "best_block db' = Some (fd_head db')"
            using best_block_evolves [OF inv db'(1,2) Some] b new by simp
          with True Some False tr r db' show ?thesis by (subst step) simp
        next
          case nb: False
          have "executed db' original_head" using db'(2) less.prems(2) by (simp add: evolves_def)
          moreover have "indexed db' original_head \<longrightarrow> under_commit db' original_head"
            using under_commit_evolves [OF inv db' less.prems(3)] .
          moreover have "card (set (byOrderIndex db')) < card (set (byOrderIndex db))"
            using b nb by (simp add: psubset_card_mono)
          ultimately obtain r' db'' where IH: "switch_loop E accept original_head db' = Some (r', db'')"
            "case r' of
               Ok b \<Rightarrow> fork_inv E db'' \<and> evolves db' db'' \<and> keeps_committed db' db'' \<and>
                 (if b then best_block db'' = Some (fd_head db'') else blockContext db' \<noteq> None \<and> fd_head db'' = original_head)
             | Err e \<Rightarrow> e = Consensus_Failure \<and> no_candidate E db'"
            using less.hyps [of db'] db'(1) by blast
          have "switch_loop E accept original_head db = Some (r', db'')"
            using Some False tr r nb IH(1) by (subst step) simp
          moreover have "blockContext db' = blockContext db" using db'(2) by (simp add: evolves_def)
          ultimately show ?thesis
            using IH(2) evolves_trans [OF db'(2)] keeps_committed_trans [OF db'(3,2)] no_candidate_evolves [OF db'(2,3)]
            by (intro exI conjI) (assumption, auto split: result.splits)
        qed
      next
        assume "r = Err Consensus_Failure" "conflicts db new"
        with Some False tr stay [of new] show ?thesis by (subst step) simp
      qed
    qed
  qed
qed

end

end
