(* ===== verification/Fork_Commit.thy ===== *)
theory Fork_Commit
  imports Fork_Switch
begin

text \<open>
  Irreversibility: \<open>set_subtree\<close> and \<open>commit\<close> of ForkDb.hpp keep the invariant, and committing from the
  callback \<open>on_accept_block\<close> of libraries/net/include/psibase/cft.hpp is what the fork switch relies on.
\<close>

section \<open>Subtrees\<close>

lemma snd_image: "j \<in> snd ` A \<longleftrightarrow> (\<exists>k. (k, j) \<in> A)"
  by force

lemma indexed_pair: "indexed db i \<longleftrightarrow> (\<exists>k. (k, i) \<in> set (byOrderIndex db))"
  by (simp only: indexed_def snd_image)

lemma subtree_inv:
  assumes inv: "tree_inv E db" and root: "valid_at db root" "commitIndex db \<le> hs_num (the_state db root)"
    and par: "\<And>p. child_of db root p \<Longrightarrow> executed db p"
  obtains idx where "set_subtree db root = (Ok (), db\<lparr>byOrderIndex := idx\<rparr>)" "tree_inv E (db\<lparr>byOrderIndex := idx\<rparr>)"
    "\<And>k i. (k, i) \<in> set idx \<longleftrightarrow> valid_at db i \<and> descends db i root \<and> k = hs_order (the_state db i)"
proof -
  note d = tree_invD [OF inv]
  obtain idx where ok: "set_subtree db root = (Ok (), db\<lparr>byOrderIndex := idx\<rparr>)" and ord: "ordered idx"
    and idx: "\<And>k i. (k, i) \<in> set idx \<longleftrightarrow> valid_at db i \<and> descends db i root \<and> k = hs_order (the_state db i)"
    using set_subtree_index [OF d(1,2) root(1)] by blast
  let ?db = "db\<lparr>byOrderIndex := idx\<rparr>"
  have "states ?db = states db" by simp
  note c = states_cong [OF this]
  have ind: "indexed ?db i \<longleftrightarrow> valid_at db i \<and> descends db i root" for i
    using idx by (simp add: indexed_pair del: split_paired_Ex)
  have up: "descends db i root" if "child_of db i p" "descends db p root" for i p
    using that descends_step [of db i root] by (auto simp: child_of_def)
  have "index_inv ?db"
    unfolding index_inv_def ind c using ord idx up by simp
  moreover have "store_inv E ?db" by (rule store_same_tree [OF c(10) _ _ d(3)]) simp_all
  moreover have "exec_inv ?db"
    unfolding exec_inv_def ind c
  proof (intro conjI allI impI)
    fix i p
    assume ip: "child_of db i p" and i: "valid_at db i \<and> descends db i root"
    show "(valid_at db p \<and> descends db p root) \<or> executed db p"
    proof (cases "i = root")
      case False
      then have "descends db p root" using i ip descends_step [of db i root] by (auto simp: child_of_def)
      with valid_parent [OF d(1) ip] i show ?thesis by simp
    qed (use ip par in simp)
  qed (use d(4) in \<open>auto simp: exec_inv_def\<close>)
  moreover have "chain_inv ?db" using d(5) chain_inv_cong [of ?db db] by simp
  moreover have "root_inv ?db"
    unfolding root_inv_def ind c
  proof (intro exI [of _ root] allI impI)
    fix i
    assume i: "valid_at db i \<and> descends db i root"
    then have "hs_num (the_state db root) \<le> hs_num (the_state db i)"
      using descends_num [OF d(1), of i root] by (cases "i = root") auto
    with i root show "(valid_at db root \<and> descends db root root) \<and> descends db i root \<and> commitIndex ?db \<le> hs_num (the_state db i)"
      by simp
  qed
  moreover have "commit_inv ?db" by (rule commit_inv_same_tree [OF c(10) d(7)])
  moreover have "id_inv ?db" by (rule id_inv_same_tree [OF c(10) _ d(8)]) simp
  ultimately have "tree_inv E ?db" using d(1) c(9) by (simp add: tree_inv_def)
  with ok idx show thesis by (intro that)
qed

section \<open>Committing\<close>

lemma advance_inv:
  assumes inv: "tree_inv E db" and new: "commitIndex db \<le> n" "n \<in> fst ` set (byBlocknumIndex db)"
    and ix: "\<And>i. indexed db i \<Longrightarrow> n \<le> hs_num (the_state db i)"
  shows "tree_inv E (db\<lparr>commitIndex := n\<rparr>)"
proof -
  let ?db = "db\<lparr>commitIndex := n\<rparr>"
  note d = tree_invD [OF inv]
  have st: "states ?db = states db" by simp
  note c = states_cong [OF st]
  note k = index_cong [OF st, simplified]
  have "store_inv E ?db" using store_same_tree [OF c(10) _ _ d(3)] new by simp
  moreover have "chain_inv ?db" using d(5) new by (simp add: chain_inv_def c)
  moreover have "root_inv ?db" using d(6) ix by (auto simp: root_inv_def k c)
  moreover have "commit_inv ?db" by (rule commit_inv_same_tree [OF c(10) d(7)])
  moreover have "id_inv ?db" by (rule id_inv_same_tree [OF c(10) _ d(8)]) simp
  ultimately show ?thesis using d c(9) k by (simp add: tree_inv_def)
qed

lemma commit_blocks: "\<exists>x y. foldl (commit_block E) db ns = db\<lparr>blockData := x, onCommit_calls := y\<rparr>"
proof (induction ns arbitrary: db)
  case Nil
  have "db = db\<lparr>blockData := blockData db, onCommit_calls := onCommit_calls db\<rparr>" by simp
  then show ?case unfolding foldl_Nil by blast
next
  case (Cons n ns)
  define x where "x = blockData (commit_block E db n)"
  define y where "y = onCommit_calls (commit_block E db n)"
  have one: "commit_block E db n = db\<lparr>blockData := x, onCommit_calls := y\<rparr>"
    by (simp add: x_def y_def commit_block_def Let_def setBlockData_def split: option.splits)
  obtain x' y' where "foldl (commit_block E) (db\<lparr>blockData := x, onCommit_calls := y\<rparr>) ns =
      db\<lparr>blockData := x, onCommit_calls := y\<rparr>\<lparr>blockData := x', onCommit_calls := y'\<rparr>"
    using Cons.IH by blast
  then show ?case unfolding foldl_Cons one by (intro exI [of _ x'] exI [of _ y']) simp
qed

lemma data_upd_cong [simp]:
  "tree_inv E (db\<lparr>blockData := x, onCommit_calls := y\<rparr>) = tree_inv E db"
  "evolves db0 (db\<lparr>blockData := x, onCommit_calls := y\<rparr>) = evolves db0 db"
  by (rule tree_inv_same evolves_cong; simp)+

lemma first_is_root:
  assumes inv: "tree_inv E db" and r: "indexed db r" "\<And>i. indexed db i \<Longrightarrow> descends db i r"
  shows "hd (byOrderIndex db) = (hs_order (the_state db r), r)"
proof -
  note d = tree_invD [OF inv]
  obtain k j rest where idx: "byOrderIndex db = (k, j) # rest"
    using r(1) by (cases "byOrderIndex db") (auto simp: indexed_def)
  have rk: "(hs_order (the_state db r), r) \<in> set (byOrderIndex db)" using r(1) by (simp add: indexed_iff [OF d(2)])
  have j: "indexed db j" by (simp add: indexed_def idx)
  have k: "k = hs_order (the_state db j)" using index_invD(2) [OF d(2), of k j] by (simp add: idx)
  have "hs_order (the_state db r) \<le> k" using descends_order [OF d(1) r(2) [OF j]] k by simp
  moreover have "(hs_order (the_state db r), r) = (k, j) \<or> k < hs_order (the_state db r)"
    using rk index_invD(1) [OF d(2)] by (auto simp: idx)
  ultimately show ?thesis by (auto simp: idx)
qed

lemma chain_member:
  assumes inv: "tree_inv E db" and m: "(m, i) \<in> set (byBlocknumIndex db)" and n: "commitIndex db \<le> n" "n \<le> m"
  obtains c where "(n, c) \<in> set (byBlocknumIndex db)" "map_of (byBlocknumIndex db) n = Some c" "descends db i c"
    "hs_num (the_state db c) = n" "valid_at db c"
proof -
  have ch: "chain db (byBlocknumIndex db)" and com: "commitIndex db \<in> fst ` set (byBlocknumIndex db)"
    and v: "\<forall>p \<in> set (byBlocknumIndex db). valid_at db (snd p)"
    using tree_invD(5) [OF inv] by (simp_all add: chain_inv_def)
  have ord: "ordered (byBlocknumIndex db)" by (rule chain_ordered [OF ch])
  obtain p xs where p: "byBlocknumIndex db = p # xs" using m by (cases "byBlocknumIndex db") auto
  have "fst p \<le> commitIndex db" using com ord by (auto simp: p intro: less_imp_le)
  moreover have "m \<le> fst (last (p # xs))" using ordered_last [OF ord m] by (simp add: p)
  ultimately have "n \<in> fst ` set (p # xs)" using chain_contiguous [of db p xs n] ch n by (simp add: p)
  then obtain c where c: "(n, c) \<in> set (byBlocknumIndex db)" unfolding p by fastforce
  obtain ys zs where sp: "byBlocknumIndex db = ys @ (n, c) # zs" using c by (auto dest: split_list)
  have "(m, i) \<in> set ((n, c) # zs)" using m ord n(2) by (auto simp: sp ordered_append)
  then have "descends db i c" using chain_descends [of db "(n, c)" zs "(m, i)"] ch by (simp add: sp chain_append)
  moreover have "hs_num (the_state db c) = n" using ch c by (auto simp: chain_def at_num_def)
  moreover have "valid_at db c" using v c by auto
  ultimately show thesis using c ordered_map_of [OF ord, of n c] by (intro that) simp_all
qed

text \<open>
  \<open>commit\<close> cannot fail when a candidate at or after the new commit index has been executed on the best
  chain: the commit index advances and the candidates that remain are those after the committed block.
\<close>

lemma commit_accepted:
  fixes num :: block_num
  assumes inv: "tree_inv E db" and i: "(m, i) \<in> set (byBlocknumIndex db)" "executed db i" "indexed db i"
  defines "new \<equiv> max (min num (hs_num (get_head_state db))) (commitIndex db)"
  assumes le: "new \<le> m"
  obtains db' where "commit E db num = (Ok (new \<noteq> commitIndex db), db')" "commitIndex db' = new" "accepted E i db db'"
    "blockContext db' = blockContext db"
proof -
  note result = that
  note d = tree_invD [OF inv]
  have cn: "commitIndex db \<le> new" by (simp add: new_def)
  obtain c where c: "(new, c) \<in> set (byBlocknumIndex db)" "map_of (byBlocknumIndex db) new = Some c" "descends db i c"
    "hs_num (the_state db c) = new" "valid_at db c"
    using chain_member [OF inv i(1) cn le] .
  have mi: "hs_num (the_state db i) = m" using i(1) d(5) by (auto simp: chain_inv_def chain_def at_num_def)
  obtain r where r: "indexed db r" "\<And>j. indexed db j \<Longrightarrow> descends db j r"
    using d(6) i(3) by (auto simp: root_inv_def)
  have rank: "hs_num (the_state db r) \<le> hs_num (the_state db j)" if "indexed db j" for j
    using descends_num [OF d(1) r(2) [OF that]] by (cases "j = r") auto
  obtain x y where f: "foldl (commit_block E) db (map of_nat [unat (commitIndex db)..<unat new]) =
      db\<lparr>blockData := x, onCommit_calls := y\<rparr>"
    using commit_blocks by blast
  define db1 where "db1 = db\<lparr>blockData := x, onCommit_calls := y\<rparr>"
  have inv1: "tree_inv E db1" using inv by (simp add: db1_def)
  have same: "states db1 = states db" "byOrderIndex db1 = byOrderIndex db" by (simp_all add: db1_def)
  note c1 = states_cong [OF same(1)] and k1 = index_cong [OF same]
  have hd: "fst (snd (fst (hd (byOrderIndex db1)))) = hs_num (the_state db r)"
    using first_is_root [OF inv r] by (simp add: same hs_order_def)
  have ci: "get_block_id E db1 new = c" by (simp add: get_block_id_def c(2) db1_def)
  have uc: "under_commit (db1\<lparr>byOrderIndex := idx, commitIndex := new\<rparr>) j" if "descends db j c" for idx j
  proof -
    have "c' = c" if "(new, c') \<in> set (byBlocknumIndex db)" for c'
      using ordered_unique [OF _ that c(1)] d(5) chain_ordered by (auto simp: chain_inv_def)
    moreover have "descends (db1\<lparr>byOrderIndex := idx, commitIndex := new\<rparr>) = descends db" by (rule states_cong) (simp add: same)
    ultimately show ?thesis using that by (auto simp: under_commit_def db1_def)
  qed
  have goal: thesis
    if eq: "commit E db num = (Ok (new \<noteq> commitIndex db), db1\<lparr>byOrderIndex := idx, commitIndex := new\<rparr>)"
      and t: "tree_inv E (db1\<lparr>byOrderIndex := idx, commitIndex := new\<rparr>)"
      and sub: "set idx \<subseteq> set (byOrderIndex db)" and keep: "\<And>j. indexed db j \<Longrightarrow> descends db j i \<Longrightarrow> j \<in> snd ` set idx"
      and und: "\<And>j. j \<in> snd ` set idx \<Longrightarrow> descends db j c" for idx
  proof (rule result [OF eq])
    let ?db = "db1\<lparr>byOrderIndex := idx, commitIndex := new\<rparr>"
    have "states ?db = states db" by (simp add: same)
    note s = states_cong [OF this]
    have "evolves db ?db" using sub cn by (simp add: evolves_def s) (simp add: db1_def)
    moreover have "new_commit db ?db" using und uc by (auto simp: new_commit_def indexed_def)
    ultimately show "accepted E i db ?db"
      using t keep le mi max.coboundedI2 [of new m "commitIndex db"]
      by (simp add: accepted_def indexed_def) (simp add: db1_def)
  qed (simp_all add: db1_def)
  show thesis
  proof (cases "hs_num (the_state db r) < new")
    case True
    have cr: "descends db c r" using ancestors_linear [OF d(1) c(3) r(2) [OF i(3)]] True c(4) by simp
    have ex: "executed db1 p" if "child_of db1 c p" for p
      using that executed_ancestor [OF d(4) c(3) i(2)] d(4) by (auto simp: exec_inv_def c1)
    have v1: "valid_at db1 c" "commitIndex db1 \<le> hs_num (the_state db1 c)" using c(4,5) cn by (simp_all add: c1) (simp add: db1_def)
    obtain idx where st: "set_subtree db1 c = (Ok (), db1\<lparr>byOrderIndex := idx\<rparr>)" "tree_inv E (db1\<lparr>byOrderIndex := idx\<rparr>)"
      and idx: "\<And>k i. (k, i) \<in> set idx \<longleftrightarrow> valid_at db1 i \<and> descends db1 i c \<and> k = hs_order (the_state db1 i)"
      using subtree_inv [OF inv1 v1 ex] by blast
    have mem: "j \<in> snd ` set idx \<longleftrightarrow> valid_at db j \<and> descends db j c" for j
      by (simp only: snd_image idx c1) blast
    have num: "new \<le> hs_num (the_state db j)" if "descends db j c" for j
      using descends_num [OF d(1) that] c(4) by (cases "j = c") auto
    show thesis
    proof (rule goal)
      show "commit E db num = (Ok (new \<noteq> commitIndex db), db1\<lparr>byOrderIndex := idx, commitIndex := new\<rparr>)"
        using True hd ci st(1) f by (simp add: commit_def new_def [symmetric] db1_def [symmetric])
      let ?db = "db1\<lparr>byOrderIndex := idx\<rparr>"
      have "get_state ?db = get_state db" using c1(1) by (simp add: fun_eq_iff get_state_def)
      then have "tree_inv E (?db\<lparr>commitIndex := new\<rparr>)"
        using mem num cn c(1) by (intro advance_inv [OF st(2)]) (auto simp: db1_def indexed_def image_iff intro!: bexI)
      then show "tree_inv E (db1\<lparr>byOrderIndex := idx, commitIndex := new\<rparr>)" .
      show "set idx \<subseteq> set (byOrderIndex db)"
      proof
        fix q
        assume q: "q \<in> set idx"
        obtain k j where qk: "q = (k, j)" by fastforce
        then have j: "valid_at db j" "descends db j c" "k = hs_order (the_state db j)" using q idx by (simp_all add: c1)
        have "indexed db j" by (rule indexed_descendants [OF d(1,2) r(1) j(1) descends_trans [OF j(2) cr]])
        then show "q \<in> set (byOrderIndex db)" using j(3) by (simp add: indexed_iff [OF d(2)] qk)
      qed
      show "j \<in> snd ` set idx" if "indexed db j" "descends db j i" for j
        using that descends_trans [OF that(2) c(3)] index_invD(2) [OF d(2)] unfolding mem indexed_pair by blast
      show "descends db j c" if "j \<in> snd ` set idx" for j using that mem by simp
    qed
  next
    case False
    have rc: "descends db r c" using ancestors_linear [OF d(1) r(2) [OF i(3)] c(3)] False c(4) by simp
    show thesis
    proof (rule goal)
      have "commit E db num = (Ok (new \<noteq> commitIndex db), db1\<lparr>commitIndex := new\<rparr>)"
        using False hd f by (simp add: commit_def new_def [symmetric] db1_def [symmetric])
      moreover have eq: "db1\<lparr>byOrderIndex := byOrderIndex db, commitIndex := new\<rparr> = db1\<lparr>commitIndex := new\<rparr>" by (simp add: db1_def)
      ultimately show "commit E db num = (Ok (new \<noteq> commitIndex db), db1\<lparr>byOrderIndex := byOrderIndex db, commitIndex := new\<rparr>)" by simp
      have "new \<le> hs_num (the_state db1 j)" if "indexed db1 j" for j
        using that rank [of j] False by (simp add: k1 c1)
      then show "tree_inv E (db1\<lparr>byOrderIndex := byOrderIndex db, commitIndex := new\<rparr>)"
        unfolding eq using cn c(1) by (intro advance_inv [OF inv1]) (auto simp: db1_def image_iff intro!: bexI)
      show "descends db j c" if "j \<in> snd ` set (byOrderIndex db)" for j
        using that r(2) [of j] descends_trans [OF _ rc] by (simp add: indexed_def)
    qed (simp_all add: indexed_def)
  qed
qed

section \<open>The callback of the crash fault tolerant consensus\<close>

text \<open>\<open>on_accept_block\<close> of cft.hpp: an accepted block commits the block that its header names.\<close>

definition on_accept_block :: "env \<Rightarrow> block_id \<Rightarrow> fork_db \<Rightarrow> fork_db" where
  "on_accept_block E i db =
     (let s = the_state db i
      in if algorithm (hs_producers s) = cft then snd (commit E db (commitNum (hs_header s))) else db)"

lemma accepted_refl: "tree_inv E db \<Longrightarrow> accepted E i db db"
  by (simp add: accepted_def new_commit_def)

lemma on_accept_block_accepted:
  assumes inv: "tree_inv E db" and i: "executed db i" "indexed db i" "i \<in> snd ` set (byBlocknumIndex db)"
  shows "accepted E i db (on_accept_block E i db)"
proof (cases "algorithm (hs_producers (the_state db i)) = cft")
  case True
  let ?num = "commitNum (hs_header (the_state db i))"
  obtain m where m: "(m, i) \<in> set (byBlocknumIndex db)" using i(3) by auto
  have at: "get_state db i \<noteq> None" "hs_num (the_state db i) = m" and ch: "chain_inv db"
    using m tree_invD(5) [OF inv] by (auto simp: chain_inv_def chain_def at_num_def)
  have "?num \<le> m" using tree_invD(7) [OF inv] at by (auto simp: commit_inv_def)
  moreover have "commitIndex db \<le> m"
  proof -
    obtain r where "commitIndex db \<le> hs_num (the_state db i)" using tree_invD(6) [OF inv] i(2) by (auto simp: root_inv_def)
    with at show ?thesis by simp
  qed
  ultimately have "max (min ?num (hs_num (get_head_state db))) (commitIndex db) \<le> m"
    by (simp add: min.coboundedI1)
  then obtain b db' where "commit E db ?num = (b, db')" "accepted E i db db'" by (rule commit_accepted [OF inv m i(1,2)])
  with True show ?thesis by (simp add: on_accept_block_def)
qed (use inv in \<open>simp add: on_accept_block_def Let_def accepted_refl\<close>)

interpretation cft_accept: accept_callback E "on_accept_block E" for E
  by unfold_locales (rule on_accept_block_accepted)

lemma head_under_commit:
  assumes "fork_inv E db"
  shows "executed db (fd_head db)" "under_commit db (fd_head db)"
proof -
  have ch: "chain db (byBlocknumIndex db)" and l: "byBlocknumIndex db \<noteq> []" "snd (last (byBlocknumIndex db)) = fd_head db"
    and x: "\<forall>p \<in> set (byBlocknumIndex db). executed db (snd p)"
    using assms by (auto simp: fork_inv_def tree_inv_def chain_inv_def head_inv_def)
  show "executed db (fd_head db)" using x l last_in_set [OF l(1)] by metis
  show "under_commit db (fd_head db)" using chain_last_descends [OF ch] l(2) by (auto simp: under_commit_def)
qed

lemma switch_fork_inv:
  assumes "fork_inv E db"
  shows "\<exists>r db'. async_switch_fork E (on_accept_block E) db = Some (r, db') \<and>
    (case r of
       Ok b \<Rightarrow> fork_inv E db' \<and> evolves db db' \<and> keeps_committed db db' \<and>
         (best_block db' = Some (fd_head db') \<or> blockContext db \<noteq> None \<and> fd_head db' = fd_head db)
     | Err e \<Rightarrow> e = Consensus_Failure \<and> no_candidate E db)"
proof -
  obtain r db' where l: "switch_loop E (on_accept_block E) (fd_head db) db = Some (r, db')"
    "case r of
       Ok b \<Rightarrow> fork_inv E db' \<and> evolves db db' \<and> keeps_committed db db' \<and>
         (if b then best_block db' = Some (fd_head db') else blockContext db \<noteq> None \<and> fd_head db' = fd_head db)
     | Err e \<Rightarrow> e = Consensus_Failure \<and> no_candidate E db"
    using cft_accept.switch_loop_inv [OF assms head_under_commit(1) [OF assms]] head_under_commit(2) [OF assms] by blast
  then show ?thesis by (cases r) (auto simp: async_switch_fork_def split: if_splits)
qed

end
