(* ===== verification/Fork_Insert.thy ===== *)
theory Fork_Insert
  imports Fork_Commit
begin

text \<open>
  Adding blocks to the fork database: \<open>insert\<close> of ForkDb.hpp keeps the invariant for headers that an honest
  producer can have written.
\<close>

section \<open>Adding a block\<close>

lemma indexed_valid: "index_inv db \<Longrightarrow> indexed db j \<Longrightarrow> valid_at db j"
  using index_invD(2) unfolding indexed_pair by blast

lemma getBlockNum_take: "take 4 i = num_bytes n \<Longrightarrow> getBlockNum i = n"
  using getBlockNum_num_bytes [of n "drop 4 i"] by (metis append_take_drop_id)

text \<open>What \<open>insert\<close> and \<open>finish_block\<close> do to the database: a state whose parent is known, and its block.\<close>

definition adds_block :: "env \<Rightarrow> fork_db \<Rightarrow> signed_block \<Rightarrow> header_state \<Rightarrow> fork_db \<Rightarrow> bool" where
  "adds_block E db b s db' \<longleftrightarrow>
     (let i = hs_id s; p = previous (hs_header s)
      in tree_inv E db \<and> get_state db i = None \<and> map_of (blocks db) i = None \<and> get_state db p \<noteq> None \<and>
         extends (the_state db p) s \<and> hs_invalid s = hs_invalid (the_state db p) \<and>
         take 4 i = num_bytes (hs_num s) \<and> commitIndex db < hs_num s \<and> (hs_revision s \<noteq> None \<longrightarrow> executed db p) \<and>
         block_header (signed_block b) = hs_header s \<and>
         states db' = map_insert i s (states db) \<and> blocks db' = map_insert i b (blocks db) \<and>
         byOrderIndex db' = (if indexed db p then map_insert (hs_order s) i (byOrderIndex db) else byOrderIndex db) \<and>
         commitIndex db' = commitIndex db)"

lemma adds_blockD:
  assumes "adds_block E db b s db'"
  shows "tree_inv E db" "get_state db (hs_id s) = None" "map_of (blocks db) (hs_id s) = None"
    "get_state db (previous (hs_header s)) \<noteq> None" "extends (the_state db (previous (hs_header s))) s"
    "hs_invalid s = hs_invalid (the_state db (previous (hs_header s)))" "take 4 (hs_id s) = num_bytes (hs_num s)"
    "commitIndex db < hs_num s" "hs_revision s \<noteq> None \<longrightarrow> executed db (previous (hs_header s))"
    "block_header (signed_block b) = hs_header s" "states db' = map_insert (hs_id s) s (states db)"
    "blocks db' = map_insert (hs_id s) b (blocks db)"
    "byOrderIndex db' = (if indexed db (previous (hs_header s)) then map_insert (hs_order s) (hs_id s) (byOrderIndex db) else byOrderIndex db)"
    "commitIndex db' = commitIndex db" "previous (hs_header s) \<noteq> hs_id s"
    "states_inv db" "index_inv db" "store_inv E db" "exec_inv db" "chain_inv db" "root_inv db" "commit_inv db" "id_inv db"
  using assms by (auto simp: adds_block_def Let_def tree_inv_def)

lemma added_state:
  assumes a: "adds_block E db b s db'"
  shows "get_state db' j = (if j = hs_id s then Some s else get_state db j)"
    and "map_of (blocks db') j = (if j = hs_id s then Some b else map_of (blocks db) j)"
    and "prev_of db' j = (if j = hs_id s then previous (hs_header s) else prev_of db j)"
    and "valid_at db' j \<longleftrightarrow> (if j = hs_id s then \<not> hs_invalid s else valid_at db j)"
    and "executed db' j \<longleftrightarrow> (if j = hs_id s then hs_revision s \<noteq> None else executed db j)"
proof -
  note a = adds_blockD [OF a]
  show g: "get_state db' j = (if j = hs_id s then Some s else get_state db j)" for j
    using states_invD(1) [OF a(16)] a(2) by (simp add: get_state_def a(11) map_of_map_insert)
  show "map_of (blocks db') j = (if j = hs_id s then Some b else map_of (blocks db) j)"
    using a(3,23) by (simp add: id_inv_def a(12) map_of_map_insert)
  show "prev_of db' j = (if j = hs_id s then previous (hs_header s) else prev_of db j)"
    by (simp add: prev_of_def g)
  show "valid_at db' j \<longleftrightarrow> (if j = hs_id s then \<not> hs_invalid s else valid_at db j)"
    by (auto simp: valid_at_def g)
  show "executed db' j \<longleftrightarrow> (if j = hs_id s then hs_revision s \<noteq> None else executed db j)"
    by (auto simp: executed_def g)
qed

lemma added_no_orphan:
  assumes a: "adds_block E db b s db'" and j: "get_state db j = Some t"
  shows "previous (hs_header t) \<noteq> hs_id s"
proof
  note a = adds_blockD [OF a]
  assume i: "previous (hs_header t) = hs_id s"
  show False
  proof (cases "commitIndex db < hs_num t")
    case True
    then have "child_of db j (prev_of db j)" using a(18) j by (auto simp: store_inv_def)
    then show False using a(2) i j by (simp add: child_of_def prev_of_def)
  next
    case False
    have "getBlockNum (hs_id s) < hs_num t" using a(23) j unfolding id_inv_def i [symmetric] by blast
    with False a(8) getBlockNum_take [OF a(7)] show False by simp
  qed
qed

lemma added_child:
  assumes a: "adds_block E db b s db'"
  shows "child_of db' j q \<longleftrightarrow> child_of db j q \<or> j = hs_id s \<and> q = previous (hs_header s)"
proof -
  have "prev_of db j \<noteq> hs_id s" if "get_state db j \<noteq> None" for j
    using that added_no_orphan [OF a] by (auto simp: prev_of_def)
  then show ?thesis
    using adds_blockD(2,4,15) [OF a] by (auto simp: child_of_def added_state [OF a])
qed

lemma added_old_child:
  assumes "adds_block E db b s db'" "child_of db j q"
  shows "j \<noteq> hs_id s" "q \<noteq> hs_id s"
  using assms(2) adds_blockD(2) [OF assms(1)] by (auto simp: child_of_def)

lemma added_descends:
  assumes a: "adds_block E db b s db'"
  shows "descends db' j r \<longleftrightarrow> descends db j r \<or> j = hs_id s \<and> descends db (previous (hs_header s)) r"
proof -
  note child = added_child [OF a]
  have old: "descends db' j r \<longleftrightarrow> descends db j r" if "j \<noteq> hs_id s" for j
  proof
    assume "descends db' j r"
    then have "(child_of db')\<^sup>*\<^sup>* j r" by (simp add: descends_def)
    then show "descends db j r" using that
    proof (induction rule: converse_rtranclp_induct)
      case (step x y)
      then have xy: "child_of db x y" by (simp add: child)
      with step added_old_child [OF a xy] show ?case unfolding descends_def by (meson converse_rtranclp_into_rtranclp)
    qed simp
  next
    assume "descends db j r"
    then show "descends db' j r" unfolding descends_def by (rule rtranclp_mono [THEN predicate2D, rotated]) (auto simp: child)
  qed
  have "descends db (hs_id s) r \<longleftrightarrow> hs_id s = r"
    using descends_step [of db "hs_id s" r] adds_blockD(2) [OF a] by (auto simp: child_of_def)
  then show ?thesis
    using descends_step [of db' "hs_id s" r] old [of "previous (hs_header s)"] adds_blockD(15) [OF a] old [of j]
    by (cases "j = hs_id s") (auto simp: child added_state(3) [OF a])
qed

lemma added_index:
  assumes a: "adds_block E db b s db'"
  shows "set (byOrderIndex db') = (if indexed db (previous (hs_header s))
      then insert (hs_order s, hs_id s) (set (byOrderIndex db)) else set (byOrderIndex db))"
    and "indexed db' j \<longleftrightarrow> indexed db j \<or> j = hs_id s \<and> indexed db (previous (hs_header s))"
proof -
  note d = adds_blockD [OF a]
  have "hs_order s \<notin> fst ` set (byOrderIndex db)"
  proof
    assume "hs_order s \<in> fst ` set (byOrderIndex db)"
    then obtain j where j: "(hs_order s, j) \<in> set (byOrderIndex db)" by auto
    then have "hs_order s = hs_order (the_state db j)" "valid_at db j" using index_invD(2) [OF d(17)] by blast+
    then have "get_state db (hs_id s) \<noteq> None" using states_invD(2) [OF d(16), of j] by (auto simp: hs_order_def valid_at_def)
    with d(2) show False by simp
  qed
  then show 1: "set (byOrderIndex db') = (if indexed db (previous (hs_header s))
      then insert (hs_order s, hs_id s) (set (byOrderIndex db)) else set (byOrderIndex db))"
    using index_invD(1) [OF d(17)] by (simp add: d(13) set_map_insert)
  then show "indexed db' j \<longleftrightarrow> indexed db j \<or> j = hs_id s \<and> indexed db (previous (hs_header s))"
    by (auto simp: indexed_def)
qed

lemma added_states_inv:
  assumes a: "adds_block E db b s db'"
  shows "states_inv db'"
  unfolding states_inv_def
proof (intro conjI allI impI)
  note d = adds_blockD [OF a] and g = added_state(1) [OF a]
  show "ordered (states db')" using states_invD(1) [OF d(16)] by (simp add: d(11) ordered_map_insert)
  show "hs_id t = j" if "get_state db' j = Some t" for j t
    using that states_invD(2) [OF d(16)] by (auto simp: g split: if_splits)
  fix j q
  assume c: "child_of db' j q"
  show "extends (the_state db' q) (the_state db' j)"
    using c states_invD(3) [OF d(16), of j q] added_old_child [OF a, of j q] d(5,15) by (auto simp: added_child [OF a] g)
  show "hs_invalid (the_state db' j)" if "hs_invalid (the_state db' q)"
    using c that states_invD(4) [OF d(16), of j q] added_old_child [OF a, of j q] d(6,15) by (auto simp: added_child [OF a] g)
qed

lemma added_index_inv:
  assumes a: "adds_block E db b s db'"
  shows "index_inv db'"
  unfolding index_inv_def
proof (intro conjI allI impI)
  note d = adds_blockD [OF a] and g = added_state [OF a]
  have vp: "\<not> hs_invalid s" if "indexed db (previous (hs_header s))"
    using indexed_valid [OF d(17) that] d(6) by (auto simp: valid_at_def)
  show "ordered (byOrderIndex db')" using index_invD(1) [OF d(17)] by (simp add: d(13) ordered_map_insert)
  fix k j
  assume kj: "(k, j) \<in> set (byOrderIndex db')"
  have old: "valid_at db j \<and> j \<noteq> hs_id s \<and> k = hs_order (the_state db j)" if "(k, j) \<in> set (byOrderIndex db)"
    using index_invD(2) [OF d(17) that] d(2) by (auto simp: valid_at_def)
  show "valid_at db' j" "k = hs_order (the_state db' j)"
    using kj old vp by (auto simp: added_index(1) [OF a] g split: if_splits)
next
  note d = adds_blockD [OF a]
  fix j q
  assume c: "child_of db' j q" and q: "indexed db' q" and v: "valid_at db' j"
  have "q \<noteq> hs_id s" using c d(15) added_old_child [OF a, of j q] by (auto simp: added_child [OF a])
  then have iq: "indexed db q" using q by (simp add: added_index(2) [OF a])
  then show "indexed db' j"
    using c v index_invD(3) [OF d(17), of j q] added_old_child(1) [OF a, of j q]
    by (auto simp: added_index(2) [OF a] added_child [OF a] added_state(4) [OF a])
qed

lemma added_exec_inv:
  assumes a: "adds_block E db b s db'"
  shows "exec_inv db'"
  unfolding exec_inv_def
proof (intro conjI allI impI)
  note d = adds_blockD [OF a]
  fix j q
  assume c: "child_of db' j q"
  show "executed db' q" if "executed db' j"
    using c that added_old_child [OF a, of j q] d(9,15,19) by (auto simp: added_child [OF a] added_state(5) [OF a] exec_inv_def)
  assume "indexed db' j"
  moreover have "\<not> indexed db (hs_id s)" using indexed_valid [OF d(17), of "hs_id s"] d(2) by (auto simp: valid_at_def)
  ultimately show "indexed db' q \<or> executed db' q"
    using c added_old_child [OF a, of j q] d(15,19)
    by (auto simp: added_child [OF a] added_state(5) [OF a] added_index(2) [OF a] exec_inv_def)
qed

lemma added_root_inv:
  assumes a: "adds_block E db b s db'"
  shows "root_inv db'"
proof -
  note d = adds_blockD [OF a]
  obtain r where r: "\<And>j. indexed db j \<Longrightarrow> indexed db r \<and> descends db j r \<and> commitIndex db \<le> hs_num (the_state db j)"
    using d(21) by (auto simp: root_inv_def)
  have "j \<noteq> hs_id s" if "indexed db j" for j
    using indexed_valid [OF d(17) that] d(2) by (auto simp: valid_at_def)
  then have "indexed db' r \<and> descends db' j r \<and> commitIndex db' \<le> hs_num (the_state db' j)" if "indexed db' j" for j
    using that r [of j] r [of "previous (hs_header s)"] d(8)
    by (auto simp: added_index(2) [OF a] added_descends [OF a] added_state(1) [OF a] d(14))
  then show ?thesis by (auto simp: root_inv_def)
qed

lemma added_store_inv:
  assumes a: "adds_block E db b s db'"
  shows "store_inv E db'"
  unfolding store_inv_def
proof (intro allI impI)
  note d = adds_blockD [OF a] and g = added_state [OF a]
  fix j t
  assume j: "get_state db' j = Some t" "commitIndex db' < hs_num t"
  show "child_of db' j (prev_of db' j) \<and> (\<exists>b. map_of (blocks db') j = Some b \<and> block_header (signed_block b) = hs_header t)"
  proof (cases "j = hs_id s")
    case True
    with j d(10) show ?thesis by (auto simp: g added_child [OF a])
  next
    case False
    with j have "child_of db j (prev_of db j) \<and> (\<exists>b. map_of (blocks db) j = Some b \<and> block_header (signed_block b) = hs_header t)"
      using d(18) by (auto simp: store_inv_def g d(14))
    with False show ?thesis by (auto simp: g added_child [OF a])
  qed
qed

lemma added_id_inv:
  assumes a: "adds_block E db b s db'"
  shows "id_inv db'"
proof -
  note d = adds_blockD [OF a] and g = added_state [OF a]
  let ?p = "previous (hs_header s)"
  have "getBlockNum ?p \<le> hs_num (the_state db ?p)" using d(4,23) by (auto simp: id_inv_def)
  moreover have "hs_num (the_state db ?p) < hs_num s" using d(5) by (simp add: extends_def word_less_nat_alt)
  ultimately have "getBlockNum ?p < hs_num s" by simp
  moreover have "ordered (blocks db')" using d(23) by (simp add: id_inv_def d(12) ordered_map_insert)
  ultimately show ?thesis using d(7,10,23) getBlockNum_take [OF d(7)] unfolding id_inv_def g by auto
qed

lemma added_tree_inv:
  assumes a: "adds_block E db b s db'" and c: "chain_inv db'"
  shows "tree_inv E db'"
proof -
  have "commit_inv db'"
    using adds_blockD(5,22) [OF a] by (auto simp: commit_inv_def added_state(1) [OF a] extends_def)
  with c show ?thesis
    by (simp add: tree_inv_def added_states_inv [OF a] added_index_inv [OF a] added_store_inv [OF a]
        added_exec_inv [OF a] added_root_inv [OF a] added_id_inv [OF a])
qed

lemma added_chain:
  assumes a: "adds_block E db b s db'" and c: "chain db xs"
  shows "chain db' xs"
proof -
  have n: "snd q \<noteq> hs_id s" if "at_num db q" for q using that adds_blockD(2) [OF a] by (auto simp: at_num_def)
  then have at: "at_num db' q" if "at_num db q" for q using that by (auto simp: at_num_def added_state(1) [OF a])
  have "link db' x y" if "link db x y" for x y using that by (auto simp: link_def added_child [OF a])
  then have "successively (link db') xs" using c by (auto simp: chain_def elim: successively_mono)
  with at c show ?thesis by (auto simp: chain_def)
qed

lemma added_chain_inv:
  assumes a: "adds_block E db b s db'" and "byBlocknumIndex db' = byBlocknumIndex db"
  shows "chain_inv db'"
proof -
  have "valid_at db' j" if "valid_at db j" for j
    using that adds_blockD(2) [OF a] by (auto simp: added_state(4) [OF a]) (auto simp: valid_at_def)
  with adds_blockD(14,20) [OF a] added_chain [OF a] assms(2) show ?thesis by (auto simp: chain_inv_def)
qed

section \<open>Inserting\<close>

text \<open>
  What an honest producer puts in a header: the next number, a term that does not decrease, and a commit
  number that is not ahead. \<open>insert\<close> does not check it.
\<close>

definition well_placed :: "fork_db \<Rightarrow> block_header \<Rightarrow> bool" where
  "well_placed db h \<longleftrightarrow>
     (\<forall>p. get_state db (previous h) = Some p \<longrightarrow>
        unat (blockNum h) = Suc (unat (hs_num p)) \<and> termNum (hs_header p) \<le> termNum h \<and> commitNum h \<le> blockNum h)"

lemma next_header_state_info:
  assumes "next_header_state E heap prev info r = Ok (heap', s)"
  shows "hs_info s = info" "hs_revision s = r" "\<not> hs_invalid s"
  using assms
  by (auto simp: next_header_state_def loadAuthState_def Let_def result_simps split: option.splits prod.splits if_splits)

lemma unknown_state:
  assumes inv: "tree_inv E db" and i: "map_of (blocks db) i = None" "commitIndex db < getBlockNum i"
  shows "get_state db i = None"
proof (rule ccontr)
  assume "get_state db i \<noteq> None"
  then obtain t where t: "get_state db i = Some t" by auto
  then have "getBlockNum i \<le> hs_num t" using tree_invD(8) [OF inv] by (auto simp: id_inv_def)
  then have "commitIndex db < hs_num t" using i(2) by simp
  then have "map_of (blocks db) i \<noteq> None" using tree_invD(3) [OF inv] t by (auto simp: store_inv_def)
  with i(1) show False by simp
qed

lemma head_inv_cong:
  assumes "byBlocknumIndex db' = byBlocknumIndex db" "fd_head db' = fd_head db"
    and "\<And>j. executed db j \<Longrightarrow> executed db' j \<and> hs_num (the_state db' j) = hs_num (the_state db j)"
    and "head_inv db"
  shows "head_inv db'"
proof -
  have "executed db (fd_head db)" using assms(4) last_in_set [of "byBlocknumIndex db"] by (auto simp: head_inv_def)
  with assms show ?thesis by (auto simp: head_inv_def get_head_state_def)
qed

lemma added_fork_inv:
  assumes a: "adds_block E db b s db'" and "byBlocknumIndex db' = byBlocknumIndex db" "fd_head db' = fd_head db"
    and h: "head_inv db"
  shows "fork_inv E db'"
proof -
  have "executed db' j \<and> hs_num (the_state db' j) = hs_num (the_state db j)" if "executed db j" for j
    using that adds_blockD(2) [OF a] by (auto simp: added_state [OF a]) (auto simp: executed_def)
  then show ?thesis
    using added_tree_inv [OF a added_chain_inv [OF a assms(2)]] head_inv_cong [OF assms(2,3) _ h] by (simp add: fork_inv_def)
qed

text \<open>A block stored without a state does not disturb the invariant.\<close>

lemma orphan_block_inv:
  assumes inv: "fork_inv E db" and i: "get_state db i = None" "take 4 i = num_bytes (blockNum (block_header (signed_block b)))"
      "getBlockNum (previous (block_header (signed_block b))) < blockNum (block_header (signed_block b))"
    and db': "db' = db\<lparr>blocks := map_insert i b (blocks db)\<rparr>" and new: "map_of (blocks db) i = None"
  shows "fork_inv E db'"
proof -
  have st: "states db' = states db" and ix: "byOrderIndex db' = byOrderIndex db" by (simp_all add: db')
  note c = states_cong [OF st] and k = index_cong [OF st ix]
  have t: "tree_inv E db" and hd: "head_inv db" using inv by (auto simp: fork_inv_def)
  note d = tree_invD [OF t]
  have bl: "map_of (blocks db') j = (if j = i then Some b else map_of (blocks db) j)" for j
    using new d(8) by (simp add: id_inv_def db' map_of_map_insert)
  have "store_inv E db'"
    using d(3) i(1) by (auto simp: store_inv_def c bl) (simp_all add: db')
  moreover have "id_inv db'"
    using d(8) i by (auto simp: id_inv_def c bl) (simp_all add: db' ordered_map_insert)
  moreover have "head_inv db'" by (rule head_inv_cong [OF _ _ _ hd]) (simp_all add: c, simp_all add: db')
  moreover have "chain_inv db'" "root_inv db'"
    using d(5,6) chain_inv_cong [OF st] k(4) by (simp_all add: db')
  ultimately show ?thesis
    using d commit_inv_same_tree [OF c(10)] by (simp add: fork_inv_def tree_inv_def c k)
qed

lemma insert_block_cases:
  assumes "insert_block E db b = (r, db')"
  defines "h \<equiv> block_header (signed_block b)"
  defines "i \<equiv> info_blockId (the_info E h)"
  shows "db' = db \<or>
    (\<exists>p. commitIndex db < blockNum h \<and> map_of (blocks db) i = None \<and> get_state db (previous h) = Some p \<and>
        db' = db\<lparr>blocks := map_insert i b (blocks db)\<rparr>) \<or>
    (\<exists>p heap s. commitIndex db < blockNum h \<and> map_of (blocks db) i = None \<and> get_state db (previous h) = Some p \<and>
        hs_info s = the_info E h \<and> hs_revision s = None \<and> hs_invalid s = hs_invalid p \<and>
        db' = db\<lparr>blocks := map_insert i b (blocks db), authStates := heap, states := map_insert i s (states db),
           byOrderIndex := (if \<not> hs_invalid p \<and> map_of (byOrderIndex db) (hs_order p) \<noteq> None
             then map_insert (hs_order s) i (byOrderIndex db) else byOrderIndex db)\<rparr>)"
proof -
  have gs: "get_state (db\<lparr>blocks := x\<rparr>) = get_state db" for x by (simp add: fun_eq_iff get_state_def)
  consider "blockNum h \<le> commitIndex db \<or> map_of (blocks db) i \<noteq> None \<or> get_state db (previous h) = None"
    | p where "commitIndex db < blockNum h" "map_of (blocks db) i = None" "get_state db (previous h) = Some p"
    by force
  then show ?thesis
  proof cases
    case 1
    then show ?thesis using assms(1) by (auto simp: insert_block_def Let_def h_def i_def gs split: if_splits)
  next
    case (2 p)
    then have nle: "\<not> blockNum h \<le> commitIndex db" by simp
    let ?n = "next_header_state E (authStates db) p (the_info E h) None"
    show ?thesis
    proof (cases "validateBlockSignature E (authStates db) p (the_info E h) (block_signature b)")
      case (Err e)
      with 2 nle show ?thesis using assms(1) by (simp add: insert_block_def Let_def h_def i_def gs)
    next
      case ok: (Ok c)
      show ?thesis
      proof (cases ?n)
        case (Err e)
        with 2 nle ok show ?thesis using assms(1) by (simp add: insert_block_def Let_def h_def i_def gs)
      next
        case (Ok q)
        obtain heap s where q: "q = (heap, s)" by fastforce
        note n = next_header_state_info [OF Ok [unfolded q]]
        let ?s = "if hs_invalid p then s\<lparr>hs_invalid := True\<rparr> else s"
        have "db' = db\<lparr>blocks := map_insert i b (blocks db), authStates := heap, states := map_insert i ?s (states db),
           byOrderIndex := (if \<not> hs_invalid p \<and> map_of (byOrderIndex db) (hs_order p) \<noteq> None
             then map_insert (hs_order ?s) i (byOrderIndex db) else byOrderIndex db)\<rparr>"
          using assms(1) 2 nle ok Ok q by (simp add: insert_block_def Let_def h_def i_def gs split: if_splits)
        moreover have "hs_info ?s = the_info E h" "hs_revision ?s = None" "hs_invalid ?s = hs_invalid p" using n by auto
        ultimately show ?thesis using 2 by blast
      qed
    qed
  qed
qed

lemma insert_block_inv:
  assumes inv: "fork_inv E db" and wf: "well_placed db (block_header (signed_block b))"
    and ins: "insert_block E db b = (r, db')"
  shows "fork_inv E db' \<and> commitIndex db' = commitIndex db \<and> byBlocknumIndex db' = byBlocknumIndex db"
proof -
  let ?h = "block_header (signed_block b)"
  define i where "i = info_blockId (the_info E ?h)"
  have t: "tree_inv E db" and hd: "head_inv db" using inv by (auto simp: fork_inv_def)
  note d = tree_invD [OF t]
  have i4: "take 4 i = num_bytes (blockNum ?h)" by (simp add: i_def mk_block_info_def num_bytes_def)
  note num = getBlockNum_take [OF i4]
  consider "db' = db"
    | p where "commitIndex db < blockNum ?h" "map_of (blocks db) i = None" "get_state db (previous ?h) = Some p"
        "db' = db\<lparr>blocks := map_insert i b (blocks db)\<rparr>"
    | p heap s where "commitIndex db < blockNum ?h" "map_of (blocks db) i = None" "get_state db (previous ?h) = Some p"
        "hs_info s = the_info E ?h" "hs_revision s = None" "hs_invalid s = hs_invalid p"
        "db' = db\<lparr>blocks := map_insert i b (blocks db), authStates := heap, states := map_insert i s (states db),
           byOrderIndex := (if \<not> hs_invalid p \<and> map_of (byOrderIndex db) (hs_order p) \<noteq> None
             then map_insert (hs_order s) i (byOrderIndex db) else byOrderIndex db)\<rparr>"
    using insert_block_cases [OF ins] unfolding i_def by blast
  then show ?thesis
  proof cases
    case 1
    with inv show ?thesis by simp
  next
    case 2
    have new: "get_state db i = None" by (rule unknown_state [OF t 2(2)]) (simp add: num 2(1))
    have "getBlockNum (previous ?h) \<le> hs_num p" using d(8) 2(3) by (auto simp: id_inv_def)
    moreover have "hs_num p < blockNum ?h" using wf 2(3) by (simp add: well_placed_def word_less_nat_alt)
    ultimately have "getBlockNum (previous ?h) < blockNum ?h" by simp
    from orphan_block_inv [OF inv new i4 this 2(4,2)] show ?thesis by (simp add: 2(4))
  next
    case 3
    have new: "get_state db i = None" by (rule unknown_state [OF t 3(2)]) (simp add: num 3(1))
    have ix: "indexed db (previous ?h) \<longleftrightarrow> \<not> hs_invalid p \<and> map_of (byOrderIndex db) (hs_order p) \<noteq> None"
      using indexed_find [OF d(1,2) 3(3)] indexed_valid [OF d(2), of "previous ?h"] 3(3) by (auto simp: valid_at_def)
    have "adds_block E db b s db'"
      using t new 3 i4 wf ix by (auto simp: adds_block_def Let_def i_def well_placed_def extends_def)
    from added_fork_inv [OF this] hd show ?thesis by (simp add: 3(7))
  qed
qed

end
