(* ===== verification/Fork_Gc.thy ===== *)
theory Fork_Gc
  imports Fork_Insert
begin

text \<open>
  Removing blocks from the fork database: \<open>erase\<close> and \<open>gc\<close> of ForkDb.hpp. \<open>gc\<close> is one pass over the blocks in
  the order of their ids, which start with the block number, so that it sees a parent before its children.
\<close>

section \<open>Removing a set of blocks\<close>

definition removes :: "env \<Rightarrow> block_id set \<Rightarrow> fork_db \<Rightarrow> fork_db \<Rightarrow> bool" where
  "removes E R db db' \<longleftrightarrow>
     tree_inv E db \<and> ordered (states db') \<and> ordered (blocks db') \<and> ordered (byOrderIndex db') \<and>
     (\<forall>j. get_state db' j = (if j \<in> R then None else get_state db j)) \<and>
     (\<forall>j. map_of (blocks db') j = (if j \<in> R then None else map_of (blocks db) j)) \<and>
     set (byOrderIndex db') = {q \<in> set (byOrderIndex db). snd q \<notin> R} \<and>
     commitIndex db' = commitIndex db \<and>
     (\<forall>j s. get_state db j = Some s \<longrightarrow> j \<notin> R \<longrightarrow> commitIndex db < hs_num s \<longrightarrow> prev_of db j \<notin> R)"

lemma removesD:
  assumes "removes E R db db'"
  shows "tree_inv E db" "ordered (states db')" "ordered (blocks db')" "ordered (byOrderIndex db')"
    "get_state db' j = (if j \<in> R then None else get_state db j)"
    "map_of (blocks db') j = (if j \<in> R then None else map_of (blocks db) j)"
    "set (byOrderIndex db') = {q \<in> set (byOrderIndex db). snd q \<notin> R}" "commitIndex db' = commitIndex db"
    "get_state db j = Some s \<Longrightarrow> j \<notin> R \<Longrightarrow> commitIndex db < hs_num s \<Longrightarrow> prev_of db j \<notin> R"
  using assms unfolding removes_def by blast+

lemma removed_facts:
  assumes "removes E R db db'"
  shows "j \<notin> R \<Longrightarrow> prev_of db' j = prev_of db j"
    and "child_of db' j q \<longleftrightarrow> child_of db j q \<and> j \<notin> R \<and> q \<notin> R"
    and "valid_at db' j \<longleftrightarrow> valid_at db j \<and> j \<notin> R"
    and "executed db' j \<longleftrightarrow> executed db j \<and> j \<notin> R"
    and "indexed db' j \<longleftrightarrow> indexed db j \<and> j \<notin> R"
    and "at_num db' x \<longleftrightarrow> at_num db x \<and> snd x \<notin> R"
proof -
  note g = removesD(5) [OF assms]
  show p: "prev_of db' j = prev_of db j" if "j \<notin> R" for j using that by (simp add: prev_of_def g)
  then show "child_of db' j q \<longleftrightarrow> child_of db j q \<and> j \<notin> R \<and> q \<notin> R" by (auto simp: child_of_def g)
  show "valid_at db' j \<longleftrightarrow> valid_at db j \<and> j \<notin> R" by (auto simp: valid_at_def g)
  show "executed db' j \<longleftrightarrow> executed db j \<and> j \<notin> R" by (auto simp: executed_def g)
  show "indexed db' j \<longleftrightarrow> indexed db j \<and> j \<notin> R" by (auto simp: indexed_pair removesD(7) [OF assms])
  show "at_num db' x \<longleftrightarrow> at_num db x \<and> snd x \<notin> R" by (auto simp: at_num_def g)
qed

lemma removed_descends:
  assumes r: "removes E R db db'" and "descends db j a" "j \<notin> R" "commitIndex db \<le> hs_num (the_state db a)"
  shows "descends db' j a \<and> a \<notin> R"
proof -
  note st = tree_invD(1) [OF removesD(1) [OF r]]
  have "(child_of db)\<^sup>*\<^sup>* j a" using assms(2) by (simp add: descends_def)
  then show ?thesis using assms(3)
  proof (induction rule: converse_rtranclp_induct)
    case (step x y)
    have "descends db y a" using step(2) by (simp add: descends_def)
    then have "hs_num (the_state db a) \<le> hs_num (the_state db y)" using descends_num [OF st, of y a] by (cases "y = a") (auto intro: less_imp_le)
    moreover have "hs_num (the_state db y) < hs_num (the_state db x)"
      using child_num [OF st step(1)] by (simp add: word_less_nat_alt)
    ultimately have "commitIndex db < hs_num (the_state db x)" using assms(4) by simp
    moreover obtain s where s: "get_state db x = Some s" and y: "y = prev_of db x" using step(1) by (auto simp: child_of_def)
    ultimately have "y \<notin> R" using removesD(9) [OF r s step(4)] by simp
    then have "child_of db' x y" using step(1,4) by (simp add: removed_facts [OF r])
    with step(3) \<open>y \<notin> R\<close> show ?case unfolding descends_def by (meson converse_rtranclp_into_rtranclp)
  qed simp
qed

lemma removed_tree_inv:
  assumes r: "removes E R db db'" and ch: "chain_inv db'"
  shows "tree_inv E db'"
proof -
  note f = removed_facts [OF r] and g = removesD(5,6) [OF r]
  note d = tree_invD [OF removesD(1) [OF r]]
  have "states_inv db'"
    unfolding states_inv_def
  proof (intro conjI allI impI)
    show "ordered (states db')" by (rule removesD [OF r])
    show "hs_id s = j" if "get_state db' j = Some s" for j s
      using that states_invD(2) [OF d(1)] by (auto simp: g split: if_splits)
    fix j q
    assume "child_of db' j q"
    then show "extends (the_state db' q) (the_state db' j)" "hs_invalid (the_state db' q) \<Longrightarrow> hs_invalid (the_state db' j)"
      using states_invD(3,4) [OF d(1), of j q] by (auto simp: f g)
  qed
  moreover have "index_inv db'"
    unfolding index_inv_def
  proof (intro conjI allI impI)
    show "ordered (byOrderIndex db')" by (rule removesD [OF r])
    fix k j
    assume "(k, j) \<in> set (byOrderIndex db')"
    then have kj: "(k, j) \<in> set (byOrderIndex db)" "j \<notin> R" by (auto simp: removesD(7) [OF r])
    then show "valid_at db' j" "k = hs_order (the_state db' j)" using index_invD(2) [OF d(2) kj(1)] by (auto simp: f g)
  next
    fix j q
    assume "child_of db' j q" "indexed db' q" "valid_at db' j"
    then show "indexed db' j" using index_invD(3) [OF d(2), of j q] by (simp add: f)
  qed
  moreover have "store_inv E db'"
    unfolding store_inv_def
  proof (intro allI impI)
    fix j s
    assume j: "get_state db' j = Some s" "commitIndex db' < hs_num s"
    then have nr: "j \<notin> R" and s: "get_state db j = Some s" "commitIndex db < hs_num s"
      by (auto simp: g removesD(8) [OF r] split: if_splits)
    with removesD(9) [OF r s(1) nr s(2)] d(3)
    show "child_of db' j (prev_of db' j) \<and> (\<exists>b. map_of (blocks db') j = Some b \<and> block_header (signed_block b) = hs_header s)"
      by (simp add: store_inv_def f g)
  qed
  moreover have "exec_inv db'" using d(4) by (auto simp: exec_inv_def f)
  moreover have "root_inv db'"
  proof -
    obtain a where a: "\<And>j. indexed db j \<Longrightarrow> indexed db a \<and> descends db j a \<and> commitIndex db \<le> hs_num (the_state db j)"
      using d(6) by (auto simp: root_inv_def)
    have "indexed db' a \<and> descends db' j a \<and> commitIndex db' \<le> hs_num (the_state db' j)" if "indexed db' j" for j
    proof -
      have j: "indexed db j" "j \<notin> R" using that by (simp_all add: f)
      moreover have "commitIndex db \<le> hs_num (the_state db a)" using a [of j] a [of a] j by blast
      ultimately show ?thesis using a [of j] removed_descends [OF r, of j a] by (simp add: f g removesD(8) [OF r])
    qed
    then show ?thesis by (auto simp: root_inv_def)
  qed
  moreover have "commit_inv db'" using d(7) by (auto simp: commit_inv_def g)
  moreover have "id_inv db'" using d(8) removesD(3) [OF r] by (auto simp: id_inv_def g)
  ultimately show ?thesis using ch by (simp add: tree_inv_def)
qed

lemma removed_chain:
  assumes r: "removes E R db db'" and "chain db xs" "\<forall>q \<in> set xs. snd q \<notin> R"
  shows "chain db' xs"
proof -
  have "link db' x y" if "link db x y" "x \<in> set xs" "y \<in> set xs" for x y
    using that assms(3) by (auto simp: link_def removed_facts [OF r])
  then have "successively (link db') xs" using assms(2) by (auto simp: chain_def intro: successively_mono)
  with assms(2,3) show ?thesis by (auto simp: chain_def removed_facts [OF r])
qed

text \<open>Nothing on the best chain at or after the commit index is removed.\<close>

lemma removed_fork_inv:
  assumes r: "removes E R db db'" and h: "head_inv db" "fd_head db' = fd_head db"
    and idx: "byBlocknumIndex db = pre @ byBlocknumIndex db'" "commitIndex db \<in> fst ` set (byBlocknumIndex db')"
    and keep: "\<forall>q \<in> set (byBlocknumIndex db'). snd q \<notin> R"
  shows "fork_inv E db'"
proof -
  have c: "chain db (pre @ byBlocknumIndex db')" and v: "\<forall>q \<in> set (byBlocknumIndex db'). valid_at db (snd q)"
    using tree_invD(5) [OF removesD(1) [OF r]] by (auto simp: chain_inv_def idx(1))
  then have "chain db' (byBlocknumIndex db')" using removed_chain [OF r _ keep] by (simp add: chain_append)
  then have "chain_inv db'"
    using v keep idx(2) by (simp add: chain_inv_def removed_facts [OF r] removesD(8) [OF r])
  then have t: "tree_inv E db'" by (rule removed_tree_inv [OF r])
  have ne: "byBlocknumIndex db' \<noteq> []" using idx(2) by auto
  then have "fd_head db' = snd (last (byBlocknumIndex db'))" using h by (simp add: head_inv_def idx(1))
  moreover have "\<forall>q \<in> set (byBlocknumIndex db'). executed db' (snd q)"
    using h(1) keep by (auto simp: head_inv_def idx(1) removed_facts [OF r])
  ultimately show ?thesis using t ne head_num_last [OF t ne] by (simp add: fork_inv_def head_inv_def)
qed

section \<open>Erasing a block\<close>

lemma erase_index:
  assumes "index_inv db" "states_inv db" "get_state db i = Some s"
  shows "set (map_erase (hs_order s) (byOrderIndex db)) = {q \<in> set (byOrderIndex db). snd q \<noteq> i}"
proof -
  have "fst q = hs_order s \<longleftrightarrow> snd q = i" if q: "q \<in> set (byOrderIndex db)" for q
  proof -
    obtain k j where kj: "q = (k, j)" by fastforce
    with q index_invD(2) [OF assms(1), of k j] obtain t where t: "get_state db j = Some t" "k = hs_order t"
      by (auto simp: valid_at_def)
    then show ?thesis using order_inject [OF assms(2) t(1) assms(3)] assms(3) by (auto simp: kj)
  qed
  then show ?thesis by (auto simp: map_erase_def)
qed

lemma erase_block_inv:
  assumes inv: "fork_inv E db" and i: "get_state db i = Some s" "i \<notin> snd ` set (byBlocknumIndex db)"
    and leaf: "\<And>j. \<not> child_of db j i"
  shows "fork_inv E (erase_block db i)"
proof (rule removed_fork_inv [where db = db and R = "{i}" and pre = "[]"])
  have t: "tree_inv E db" and h: "head_inv db" using inv by (auto simp: fork_inv_def)
  note d = tree_invD [OF t]
  have id: "hs_id s = i" by (rule states_invD(2) [OF d(1) i(1)])
  have p: "prev_of db j \<noteq> i" if j: "get_state db j = Some u" "commitIndex db < hs_num u" for j u
  proof -
    have "child_of db j (prev_of db j)" using d(3) j by (auto simp: store_inv_def)
    with leaf show ?thesis by metis
  qed
  have e: "erase_block db i = db\<lparr>byOrderIndex := map_erase (hs_order s) (byOrderIndex db),
      blocks := map_erase i (blocks db), states := map_erase i (states db)\<rparr>"
    by (simp add: erase_block_def i(1) id)
  have g: "get_state (erase_block db i) j = (if j = i then None else get_state db j)" for j
    by (simp add: get_state_def e map_of_map_erase)
  have x: "set (byOrderIndex (erase_block db i)) = {q \<in> set (byOrderIndex db). snd q \<noteq> i}"
    using erase_index [OF d(2,1) i(1)] by (simp add: erase_block_def i(1))
  have "ordered (blocks db)" using d(8) by (simp add: id_inv_def)
  then have "ordered (states (erase_block db i)) \<and> ordered (blocks (erase_block db i)) \<and> ordered (byOrderIndex (erase_block db i))"
    using states_invD(1) [OF d(1)] index_invD(1) [OF d(2)] by (simp add: e ordered_map_erase)
  moreover have "map_of (blocks (erase_block db i)) j = (if j \<in> {i} then None else map_of (blocks db) j)" for j
    by (simp add: e map_of_map_erase)
  moreover have "commitIndex (erase_block db i) = commitIndex db" by (simp add: e)
  ultimately show "removes E {i} db (erase_block db i)"
    using t p g x by (simp add: removes_def)
  show "head_inv db" by (rule h)
  show "\<forall>q \<in> set (byBlocknumIndex (erase_block db i)). snd q \<notin> {i}" using i(2) by (auto simp: erase_block_def)
  show "commitIndex db \<in> fst ` set (byBlocknumIndex (erase_block db i))" using d(5) by (simp add: chain_inv_def erase_block_def)
qed (simp_all add: erase_block_def)

section \<open>Garbage collection\<close>

text \<open>What one run of the scan decides, by the blocks that it erases.\<close>

definition gc_forked :: "fork_db \<Rightarrow> block_id set \<Rightarrow> block_id \<Rightarrow> signed_block \<Rightarrow> bool" where
  "gc_forked db R i b \<longleftrightarrow>
     getBlockNum i < commitIndex db \<or>
     getBlockNum i = commitIndex db \<and> \<not> in_best_chain db \<lparr>xid_id = i, xid_num = getBlockNum i\<rparr> \<or>
     commitIndex db < getBlockNum i \<and>
       (get_state db (previous (block_header (signed_block b))) = None \<or> previous (block_header (signed_block b)) \<in> R)"

lemma gc_remove_forked: "gc_remove db i b \<longleftrightarrow> gc_forked db {} i b"
  by (simp add: gc_remove_def gc_forked_def Let_def)

definition gc_drop :: "fork_db \<Rightarrow> block_id \<Rightarrow> fork_db" where
  "gc_drop db i =
     (let db1 = (case get_state db i of
                   Some s \<Rightarrow> db\<lparr>byOrderIndex := map_erase (hs_order s) (byOrderIndex db), states := map_erase i (states db)\<rparr>
                 | None \<Rightarrow> db)
      in db1\<lparr>blocks := map_erase i (blocks db1)\<rparr>)"

lemma gc_scan_Cons:
  "gc_scan db ((i, b) # rest) =
     (if gc_remove db i b then (case gc_scan (gc_drop db i) rest of (db2, erased) \<Rightarrow> (db2, i # erased)) else gc_scan db rest)"
  by (simp add: gc_drop_def Let_def)

lemma gc_drop_simps:
  "commitIndex (gc_drop db i) = commitIndex db" "byBlocknumIndex (gc_drop db i) = byBlocknumIndex db"
  "fd_head (gc_drop db i) = fd_head db" "blocks (gc_drop db i) = map_erase i (blocks db)"
  "currentTerm (gc_drop db i) = currentTerm db" "blockContext (gc_drop db i) = blockContext db"
  by (simp_all add: gc_drop_def Let_def split: option.split)

lemma gc_drop_state: "get_state (gc_drop db i) j = (if j = i then None else get_state db j)"
  by (auto simp: gc_drop_def Let_def get_state_def map_of_map_erase split: option.split)

lemma gc_scan_erased:
  assumes "gc_scan db rest = (db', er)" "ordered rest"
    and "\<And>j b. (j, b) \<in> set rest \<Longrightarrow> previous (block_header (signed_block b)) \<in> fst ` set rest \<Longrightarrow>
      previous (block_header (signed_block b)) < j"
  shows "set er \<subseteq> fst ` set rest \<and> (\<forall>j b. (j, b) \<in> set rest \<longrightarrow> (j \<in> set er \<longleftrightarrow> gc_forked db (set er) j b))"
  using assms
proof (induction rest arbitrary: db er)
  case (Cons q rest)
  obtain i b where q: "q = (i, b)" by fastforce
  define db1 where "db1 = (if gc_remove db i b then gc_drop db i else db)"
  obtain er' where s: "gc_scan db1 rest = (db', er')" and er: "er = (if gc_remove db i b then i # er' else er')"
    using Cons.prems(1) unfolding q gc_scan_Cons db1_def by (cases "gc_remove db i b") (auto split: prod.splits)
  have new: "i \<notin> fst ` set rest" and ord: "ordered rest" and gt: "\<And>p. p \<in> set rest \<Longrightarrow> i < fst p" using Cons.prems(2) by (auto simp: q)
  have "previous (block_header (signed_block c)) < j" if "(j, c) \<in> set rest" "previous (block_header (signed_block c)) \<in> fst ` set rest" for j c
    using Cons.prems(3) [of j c] that by auto
  from Cons.IH [OF s ord this]
  have IH: "set er' \<subseteq> fst ` set rest" "\<And>j b. (j, b) \<in> set rest \<Longrightarrow> j \<in> set er' \<longleftrightarrow> gc_forked db1 (set er') j b"
    by blast+
  have er_set: "set er = (if gc_remove db i b then insert i (set er') else set er')" by (simp add: er)
  have st: "get_state db1 p = None \<longleftrightarrow> get_state db p = None \<or> p = i \<and> gc_remove db i b" for p
    by (simp add: db1_def gc_drop_state)
  have same: "commitIndex db1 = commitIndex db" "in_best_chain db1 = in_best_chain db"
    by (simp_all add: db1_def gc_drop_simps fun_eq_iff in_best_chain_def)
  have "gc_forked db1 (set er') j c \<longleftrightarrow> gc_forked db (set er) j c" for j c
    by (auto simp: gc_forked_def st same er_set)
  then have tail: "j \<in> set er \<longleftrightarrow> gc_forked db (set er) j c" if "(j, c) \<in> set rest" for j c
  proof -
    have "j \<noteq> i" using that new by force
    with IH(2) [OF that] \<open>\<And>j c. gc_forked db1 (set er') j c \<longleftrightarrow> gc_forked db (set er) j c\<close> show ?thesis by (simp add: er_set)
  qed
  have "previous (block_header (signed_block b)) \<notin> set er"
  proof
    assume p: "previous (block_header (signed_block b)) \<in> set er"
    then have m: "previous (block_header (signed_block b)) \<in> fst ` set (q # rest)" using IH(1) by (auto simp: er_set q split: if_splits)
    then have "previous (block_header (signed_block b)) < i" using Cons.prems(3) [of i b] by (simp add: q)
    moreover have "i \<le> previous (block_header (signed_block b))" using m gt by (auto simp: q intro: less_imp_le)
    ultimately show False by simp
  qed
  then have "gc_forked db (set er) i b \<longleftrightarrow> gc_remove db i b" by (auto simp: gc_remove_forked gc_forked_def)
  moreover have "i \<in> set er \<longleftrightarrow> gc_remove db i b" using IH(1) new by (auto simp: er_set)
  ultimately have one: "i \<in> set er \<longleftrightarrow> gc_forked db (set er) i b" by simp
  have sub: "set er \<subseteq> fst ` set (q # rest)" using IH(1) by (auto simp: er_set q)
  show ?case
  proof (intro conjI allI impI sub)
    fix j c
    assume "(j, c) \<in> set (q # rest)"
    then consider "j = i" "c = b" | "(j, c) \<in> set rest" by (auto simp: q)
    then show "j \<in> set er \<longleftrightarrow> gc_forked db (set er) j c" using one tail by cases simp_all
  qed
qed auto

lemma gc_drop_inv:
  assumes "states_inv db" "index_inv db" "ordered (blocks db)"
  shows "states_inv (gc_drop db i)" "index_inv (gc_drop db i)" "ordered (blocks (gc_drop db i))"
    "set (byOrderIndex (gc_drop db i)) = {q \<in> set (byOrderIndex db). snd q \<noteq> i}"
proof -
  let ?db = "gc_drop db i"
  note g = gc_drop_state [of db i]
  show ix: "set (byOrderIndex ?db) = {q \<in> set (byOrderIndex db). snd q \<noteq> i}"
  proof (cases "get_state db i")
    case None
    then have "\<not> indexed db i" using indexed_valid [OF assms(2), of i] by (auto simp: valid_at_def)
    with None show ?thesis by (auto simp: gc_drop_def indexed_def)
  next
    case (Some s)
    with erase_index [OF assms(2,1) Some] show ?thesis by (simp add: gc_drop_def)
  qed
  have p: "prev_of ?db j = prev_of db j" if "j \<noteq> i" for j using that by (simp add: prev_of_def g)
  then have c: "child_of ?db j q \<longleftrightarrow> child_of db j q \<and> j \<noteq> i \<and> q \<noteq> i" for j q by (auto simp: child_of_def g)
  have v: "valid_at ?db j \<longleftrightarrow> valid_at db j \<and> j \<noteq> i" for j by (auto simp: valid_at_def g)
  have n: "indexed ?db j \<longleftrightarrow> indexed db j \<and> j \<noteq> i" for j by (auto simp: indexed_pair ix)
  show "ordered (blocks ?db)" using assms(3) by (simp add: gc_drop_simps ordered_map_erase)
  have "ordered (states ?db)" using states_invD(1) [OF assms(1)] by (auto simp: gc_drop_def ordered_map_erase split: option.split)
  then show "states_inv ?db"
    using assms(1) by (auto simp: states_inv_def c g split: if_splits)
  have "ordered (byOrderIndex ?db)" using index_invD(1) [OF assms(2)] by (auto simp: gc_drop_def ordered_map_erase split: option.split)
  moreover have "valid_at ?db j \<and> k = hs_order (the_state ?db j)" if "(k, j) \<in> set (byOrderIndex ?db)" for k j
    using that index_invD(2) [OF assms(2), of k j] by (auto simp: ix v g)
  ultimately show "index_inv ?db"
    using index_invD(3) [OF assms(2)] unfolding index_inv_def c n v by blast
qed

lemma gc_scan_restricts:
  assumes "gc_scan db rest = (db', er)" "states_inv db" "index_inv db" "ordered (blocks db)"
  shows "ordered (states db') \<and> ordered (blocks db') \<and> ordered (byOrderIndex db') \<and>
    (\<forall>j. get_state db' j = (if j \<in> set er then None else get_state db j)) \<and>
    (\<forall>j. map_of (blocks db') j = (if j \<in> set er then None else map_of (blocks db) j)) \<and>
    set (byOrderIndex db') = {q \<in> set (byOrderIndex db). snd q \<notin> set er} \<and>
    commitIndex db' = commitIndex db \<and> byBlocknumIndex db' = byBlocknumIndex db \<and> fd_head db' = fd_head db \<and>
    currentTerm db' = currentTerm db \<and> blockContext db' = blockContext db"
  using assms
proof (induction rest arbitrary: db er)
  case Nil
  then show ?case by (auto simp: states_inv_def index_inv_def)
next
  case (Cons q rest)
  obtain i b where q: "q = (i, b)" by fastforce
  show ?case
  proof (cases "gc_remove db i b")
    case False
    then show ?thesis using Cons.prems by (intro Cons.IH) (simp_all add: q gc_scan_Cons del: gc_scan.simps)
  next
    case True
    then obtain er' where s: "gc_scan (gc_drop db i) rest = (db', er')" "er = i # er'"
      using Cons.prems(1) by (auto simp: q gc_scan_Cons simp del: gc_scan.simps split: prod.splits)
    note dr = gc_drop_inv [OF Cons.prems(2-4), of i]
    from Cons.IH [OF s(1) dr(1-3)] show ?thesis
      by (auto simp: s(2) dr(4) gc_drop_state gc_drop_simps map_of_map_erase)
  qed
qed

text \<open>Ids are ordered by the block number they start with.\<close>

lemma lex4:
  fixes a b c d a' b' c' d' :: nat
  assumes "a < 256" "b < 256" "c < 256" "d < 256" "a' < 256" "b' < 256" "c' < 256" "d' < 256"
    and "((a * 256 + b) * 256 + c) * 256 + d < ((a' * 256 + b') * 256 + c') * 256 + d'"
  shows "a < a' \<or> a = a' \<and> (b < b' \<or> b = b' \<and> (c < c' \<or> c = c' \<and> d < d'))"
proof (rule ccontr)
  assume neg: "\<not> ?thesis"
  then have "a' \<le> a" by simp
  moreover have "a = a' \<Longrightarrow> b' \<le> b" "a = a' \<Longrightarrow> b = b' \<Longrightarrow> c' \<le> c" "a = a' \<Longrightarrow> b = b' \<Longrightarrow> c = c' \<Longrightarrow> d' \<le> d" using neg by simp_all
  ultimately show False using assms by (cases "a = a'"; cases "b = b'"; cases "c = c'") simp_all
qed

lemma unat_byte: "unat (ucast (drop_bit k n) :: u8) = unat (n :: u32) div 2 ^ k mod 256"
  by (simp only: unsigned_ucast_eq unat_drop_bit_eq) (simp add: drop_bit_eq_div take_bit_eq_mod)

lemma unat_bytes: "unat (n :: u32) = (((unat n div 2 ^ 24 mod 256) * 256 + unat n div 2 ^ 16 mod 256) * 256 + unat n div 2 ^ 8 mod 256) * 256 + unat n mod 256"
proof -
  let ?n = "unat n"
  have "?n < 4294967296" using unsigned_less [of n, where ?'a = nat] by simp
  then have "?n div 2 ^ 24 mod 256 = ?n div 2 ^ 24" by simp
  moreover have "?n div 2 ^ 24 = ?n div 2 ^ 16 div 256" "?n div 2 ^ 16 = ?n div 2 ^ 8 div 256" "?n div 2 ^ 8 = ?n div 256"
    by (simp_all add: div_mult2_eq [symmetric])
  ultimately show ?thesis by (simp only: div_mult_mod_eq)
qed

lemma num_bytes_less:
  assumes "m < n"
  shows "num_bytes m < num_bytes n"
proof -
  have b: "num_bytes k = [ucast (drop_bit 24 k), ucast (drop_bit 16 k), ucast (drop_bit 8 k), ucast (drop_bit 0 k)]" for k
    by (simp add: num_bytes_def)
  have "unat m < unat n" using assms by (simp add: word_less_nat_alt)
  then have "unat m div 2 ^ 24 mod 256 < unat n div 2 ^ 24 mod 256 \<or> unat m div 2 ^ 24 mod 256 = unat n div 2 ^ 24 mod 256 \<and>
      (unat m div 2 ^ 16 mod 256 < unat n div 2 ^ 16 mod 256 \<or> unat m div 2 ^ 16 mod 256 = unat n div 2 ^ 16 mod 256 \<and>
        (unat m div 2 ^ 8 mod 256 < unat n div 2 ^ 8 mod 256 \<or> unat m div 2 ^ 8 mod 256 = unat n div 2 ^ 8 mod 256 \<and>
          unat m mod 256 < unat n mod 256))"
    by (intro lex4) (simp_all only: unat_bytes [symmetric] mod_less_divisor zero_less_numeral)
  then show ?thesis
    unfolding b Cons_less_Cons word_less_nat_alt word_unat_eq_iff unat_byte by simp
qed

lemma less_append:
  assumes "length xs = length ys" "xs < (ys :: 'a :: linorder list)"
  shows "xs @ u < ys @ v"
  using assms by (induction rule: list_induct2) auto

lemma id_less:
  assumes "take 4 i = num_bytes m" "take 4 j = num_bytes n" "m < n"
  shows "i < j"
proof -
  have "take 4 i @ drop 4 i < take 4 j @ drop 4 j"
    by (rule less_append) (simp_all only: assms num_bytes_less, simp add: num_bytes_def)
  then show ?thesis by simp
qed

lemma gc_parent_before:
  assumes inv: "id_inv db" and j: "(j, b) \<in> set (blocks db)" "previous (block_header (signed_block b)) \<in> fst ` set (blocks db)"
  shows "previous (block_header (signed_block b)) < j"
proof -
  let ?p = "previous (block_header (signed_block b))"
  have ord: "ordered (blocks db)" using inv by (simp add: id_inv_def)
  obtain c where c: "map_of (blocks db) ?p = Some c" using j(2) ordered_map_of [OF ord] by fastforce
  have b: "map_of (blocks db) j = Some b" using j(1) ordered_map_of [OF ord] by blast
  have t: "take 4 ?p = num_bytes (blockNum (block_header (signed_block c)))" "take 4 j = num_bytes (blockNum (block_header (signed_block b)))"
    "getBlockNum ?p < blockNum (block_header (signed_block b))"
    using inv b c by (auto simp: id_inv_def)
  then show ?thesis using id_less [OF t(1,2)] getBlockNum_take [OF t(1)] by simp
qed

lemma gc_decides:
  assumes inv: "tree_inv E db" and g: "gc_scan db (blocks db) = (db1, er)"
  shows "set er \<subseteq> fst ` set (blocks db)"
    and "map_of (blocks db) j = Some b \<Longrightarrow> j \<in> set er \<longleftrightarrow> gc_forked db (set er) j b"
proof -
  have ord: "ordered (blocks db)" using tree_invD(8) [OF inv] by (simp add: id_inv_def)
  have *: "set er \<subseteq> fst ` set (blocks db) \<and> (\<forall>j b. (j, b) \<in> set (blocks db) \<longrightarrow> (j \<in> set er \<longleftrightarrow> gc_forked db (set er) j b))"
    by (rule gc_scan_erased [OF g ord gc_parent_before [OF tree_invD(8) [OF inv]]])
  then show "set er \<subseteq> fst ` set (blocks db)" by blast
  show "map_of (blocks db) j = Some b \<Longrightarrow> j \<in> set er \<longleftrightarrow> gc_forked db (set er) j b"
    using * ordered_map_of [OF ord] by blast
qed

text \<open>The block at the commit index and everything built on it is kept.\<close>

lemma gc_keeps:
  assumes inv: "tree_inv E db" and g: "gc_scan db (blocks db) = (db1, er)"
    and c: "(commitIndex db, c) \<in> set (byBlocknumIndex db)" and j: "descends db j c"
  shows "j \<notin> set er"
proof -
  note d = tree_invD [OF inv]
  note dec = gc_decides [OF inv g]
  have at: "get_state db c \<noteq> None" "hs_num (the_state db c) = commitIndex db" and ord: "ordered (byBlocknumIndex db)"
    using c d(5) chain_ordered by (auto simp: chain_inv_def chain_def at_num_def)
  have num: "getBlockNum x = hs_num (the_state db x)" if "map_of (blocks db) x = Some b" "get_state db x \<noteq> None" for x b
  proof -
    have "take 4 x = num_bytes (blockNum (block_header (signed_block b)))" "hs_header (the_state db x) = block_header (signed_block b)"
      using d(8) that by (auto simp: id_inv_def)
    then show ?thesis using getBlockNum_take by simp
  qed
  have "(child_of db)\<^sup>*\<^sup>* j c" using j by (simp add: descends_def)
  then show ?thesis
  proof (induction rule: converse_rtranclp_induct)
    case base
    show ?case
    proof (cases "map_of (blocks db) c")
      case None
      then have "c \<notin> fst ` set (blocks db)" by (simp add: map_of_eq_None_iff)
      with dec(1) show ?thesis by blast
    next
      case (Some b)
      have "map_of (byBlocknumIndex db) (commitIndex db) = Some c" using c ordered_map_of [OF ord] by blast
      with Some num [OF Some at(1)] at(2) show ?thesis using dec(2) [OF Some] by (simp add: gc_forked_def in_best_chain_def)
    qed
  next
    case (step x y)
    have "descends db y c" using step(2) by (simp add: descends_def)
    then have "commitIndex db \<le> hs_num (the_state db y)" using descends_num [OF d(1), of y c] at(2) by (cases "y = c") (auto intro: less_imp_le)
    moreover have "hs_num (the_state db y) < hs_num (the_state db x)" using child_num [OF d(1) step(1)] by (simp add: word_less_nat_alt)
    ultimately have gt: "commitIndex db < hs_num (the_state db x)" by simp
    obtain s where s: "get_state db x = Some s" and y: "y = previous (hs_header s)" "get_state db y \<noteq> None"
      using step(1) by (auto simp: child_of_def prev_of_def)
    obtain b where b: "map_of (blocks db) x = Some b" "block_header (signed_block b) = hs_header s"
      using d(3) s gt by (auto simp: store_inv_def)
    show ?case using dec(2) [OF b(1)] num [OF b(1)] s gt step(3) y b(2) by (auto simp: gc_forked_def)
  qed
qed

lemma gc_inv:
  assumes inv: "fork_inv E db" and g: "gc db = (db', er)"
  shows "fork_inv E db'" and "commitIndex db' = commitIndex db" and "currentTerm db' = currentTerm db"
    and "byBlocknumIndex db' = dropWhile (\<lambda>p. fst p \<noteq> commitIndex db) (byBlocknumIndex db)"
    and "\<And>j. get_state db' j = (if j \<in> set er then None else get_state db j)"
proof -
  have t: "tree_inv E db" and h: "head_inv db" using inv by (auto simp: fork_inv_def)
  note d = tree_invD [OF t]
  obtain db1 where s: "gc_scan db (blocks db) = (db1, er)"
    and db': "db' = db1\<lparr>byBlocknumIndex := dropWhile (\<lambda>p. fst p \<noteq> commitIndex db1) (byBlocknumIndex db1)\<rparr>"
    using g by (auto simp: gc_def split: prod.splits)
  have ob: "ordered (blocks db)" using d(8) by (simp add: id_inv_def)
  note r = gc_scan_restricts [OF s d(1,2) ob]
  have gs: "get_state db' = get_state db1" by (simp add: db' fun_eq_iff get_state_def)
  show ci: "commitIndex db' = commitIndex db" "currentTerm db' = currentTerm db" using r by (simp_all add: db')
  show idx: "byBlocknumIndex db' = dropWhile (\<lambda>p. fst p \<noteq> commitIndex db) (byBlocknumIndex db)" using r by (simp add: db')
  show st: "get_state db' j = (if j \<in> set er then None else get_state db j)" for j using r by (simp add: gs)
  have ch: "chain db (byBlocknumIndex db)" and com: "commitIndex db \<in> fst ` set (byBlocknumIndex db)"
    using d(5) by (auto simp: chain_inv_def)
  obtain c zs where sp: "byBlocknumIndex db' = (commitIndex db, c) # zs"
  proof -
    have "byBlocknumIndex db' \<noteq> []" using com by (auto simp: idx dropWhile_eq_Nil_conv) (metis fst_conv)
    moreover have "fst (hd (byBlocknumIndex db')) = commitIndex db" using calculation hd_dropWhile [of "\<lambda>p. fst p \<noteq> commitIndex db"] by (simp add: idx)
    ultimately show thesis using that by (cases "byBlocknumIndex db'") auto
  qed
  obtain pre where sfx: "byBlocknumIndex db = pre @ byBlocknumIndex db'"
    using takeWhile_dropWhile_id [of "\<lambda>p. fst p \<noteq> commitIndex db" "byBlocknumIndex db"] unfolding idx by metis
  have cm: "(commitIndex db, c) \<in> set (byBlocknumIndex db)" unfolding sfx sp by simp
  have czs: "chain db ((commitIndex db, c) # zs)" using ch unfolding sfx sp by (simp add: chain_append)
  have keep: "\<forall>q \<in> set (byBlocknumIndex db'). snd q \<notin> set er"
  proof
    fix q
    assume "q \<in> set (byBlocknumIndex db')"
    then show "snd q \<notin> set er" using chain_descends [OF czs, of q] by (intro gc_keeps [OF t s cm]) (simp add: sp)
  qed
  have par: "prev_of db j \<notin> set er" if x: "get_state db j = Some x" "j \<notin> set er" "commitIndex db < hs_num x" for j x
  proof -
    obtain b where b: "map_of (blocks db) j = Some b" "block_header (signed_block b) = hs_header x"
      using d(3) x by (auto simp: store_inv_def)
    have "getBlockNum j = hs_num x" using d(8) b getBlockNum_take by (auto simp: id_inv_def)
    with gc_decides(2) [OF t s b(1)] x b(2) show ?thesis by (simp add: gc_forked_def prev_of_def)
  qed
  have "removes E (set er) db db'"
    unfolding removes_def using t r st par by (simp add: db')
  then show "fork_inv E db'"
    by (rule removed_fork_inv [OF _ h _ sfx _ keep]) (use r in \<open>simp add: db'\<close>, simp add: sp)
qed

end
