(* ===== verification/Fork_Steps.thy ===== *)
theory Fork_Steps
  imports Fork_Gc
begin

text \<open>
  The fork database as a transition system. Every operation of \<open>ForkDb\<close> that changes the blocks, the head or
  the commit index is a step; the constructor of a new chain gives the first state.
\<close>

section \<open>Production\<close>

text \<open>What \<open>BlockContext::writeRevision\<close> returns for a block started on the head.\<close>

definition produces_next :: "env \<Rightarrow> fork_db \<Rightarrow> bool" where
  "produces_next E db \<longleftrightarrow>
     (\<forall>bc c auth r info. blockContext db = Some bc \<longrightarrow> env_produce E (pb_block bc) c auth = Some (r, info) \<longrightarrow>
        info = the_info E (info_header info) \<and> previous (info_header info) = fd_head db \<and>
        well_placed db (info_header info) \<and>
        get_state db (info_blockId info) = None \<and> map_of (blocks db) (info_blockId info) = None)"

lemma fork_inv_cong:
  assumes "states db' = states db" "byOrderIndex db' = byOrderIndex db" "blocks db' = blocks db"
    "byBlocknumIndex db' = byBlocknumIndex db" "commitIndex db' = commitIndex db" "fd_head db' = fd_head db"
  shows "fork_inv E db' = fork_inv E db"
  using tree_inv_same [OF assms(1-5)] by (simp add: fork_inv_def head_inv_def get_head_state_def assms(4,6) states_cong [OF assms(1)])

lemma fork_inv_upd [simp]:
  "fork_inv E (db\<lparr>blockContext := x\<rparr>) = fork_inv E db" "fork_inv E (db\<lparr>headRevision := y\<rparr>) = fork_inv E db"
  "fork_inv E (db\<lparr>currentTerm := t\<rparr>) = fork_inv E db"
  by (rule fork_inv_cong; simp)+

lemma map_insert_last: "\<forall>p \<in> set m. fst p < k \<Longrightarrow> map_insert k v m = m @ [(k, v)]"
  using map_insert_middle [of m k "[]" v] by simp

lemma finish_block_cases:
  assumes "finish_block E mk db = (res, db')"
  shows "(\<exists>x y. db' = db\<lparr>blockContext := x, headRevision := y\<rparr>) \<or>
    (\<exists>bc c auth r info heap s b. blockContext db = Some bc \<and> env_produce E (pb_block bc) c auth = Some (r, info) \<and>
       next_header_state E (authStates db) (get_head_state db) info (Some r) = Ok (heap, s) \<and>
       block_header (signed_block b) = info_header info \<and>
       db' = db\<lparr>blockContext := None, headRevision := Some r, authStates := heap,
          states := map_insert (info_blockId info) s (states db),
          byOrderIndex := map_insert (hs_order s) (info_blockId info) (byOrderIndex db),
          fd_head := info_blockId info,
          byBlocknumIndex := map_insert (blockNum (info_header info)) (info_blockId info) (byBlocknumIndex db),
          blocks := map_insert (info_blockId info) b (blocks db)\<rparr>)"
proof -
  have unchanged: ?thesis if "db' = db\<lparr>blockContext := x\<rparr>" for x
    using that by (intro disjI1 exI [of _ x] exI [of _ "headRevision db"]) simp
  show ?thesis
  proof (cases "blockContext db")
    case None
    with assms unchanged [of None] show ?thesis by (simp add: finish_block_def)
  next
    case (Some bc)
    let ?c = "getNextProducerClaim (get_head_state db) (header_producer (block_header (pb_block bc)))"
    show ?thesis
    proof (cases "pb_needGenesisAction bc \<or> ?c = None \<or> (\<exists>e. getNextAuthRevision (authStates db) (get_head_state db) = Err e)")
      case True
      then show ?thesis using assms Some unchanged [of None] by (auto simp: finish_block_def abort_block_def Let_def split: if_splits option.splits)
    next
      case False
      then obtain c auth where ca: "?c = Some c" "getNextAuthRevision (authStates db) (get_head_state db) = Ok auth" "\<not> pb_needGenesisAction bc"
        by (cases "getNextAuthRevision (authStates db) (get_head_state db)") auto
      show ?thesis
      proof (cases "env_produce E (pb_block bc) c auth")
        case None
        with assms Some ca unchanged [of None] show ?thesis by (simp add: finish_block_def Let_def)
      next
        case pr: (Some ri)
        obtain r info where ri: "ri = (r, info)" by fastforce
        show ?thesis
        proof (cases "next_header_state E (authStates db) (get_head_state db) info (Some r)")
          case (Err e)
          with assms Some ca pr ri show ?thesis by (auto simp: finish_block_def Let_def)
        next
          case (Ok q)
          obtain heap s where q: "q = (heap, s)" by fastforce
          show ?thesis
          proof (intro disjI2 exI conjI)
            show "blockContext db = Some bc" "env_produce E (pb_block bc) c auth = Some (r, info)"
              "next_header_state E (authStates db) (get_head_state db) info (Some r) = Ok (heap, s)"
              using Some pr ri Ok q by simp_all
            let ?b = "\<lparr>signed_block = (pb_block bc)\<lparr>block_header := info_header info\<rparr>,
               block_signature = (case env_block_proof E r (blockNum (info_header info)) of Some p \<Rightarrow> p | None \<Rightarrow> []),
               auxConsensusData = mk s\<rparr>"
            show "block_header (signed_block ?b) = info_header info" by simp
            show "db' = db\<lparr>blockContext := None, headRevision := Some r, authStates := heap,
               states := map_insert (info_blockId info) s (states db),
               byOrderIndex := map_insert (hs_order s) (info_blockId info) (byOrderIndex db),
               fd_head := info_blockId info,
               byBlocknumIndex := map_insert (blockNum (info_header info)) (info_blockId info) (byBlocknumIndex db),
               blocks := map_insert (info_blockId info) ?b (blocks db)\<rparr>"
              using assms Some ca pr ri Ok q by (simp add: finish_block_def Let_def)
          qed
        qed
      qed
    qed
  qed
qed

lemma finish_block_inv:
  assumes inv: "fork_inv E db" and nxt: "produces_next E db" and ix: "indexed db (fd_head db)"
    and fin: "finish_block E mk db = (res, db')"
  shows "fork_inv E db' \<and> commitIndex db' = commitIndex db \<and>
    (\<forall>n \<le> commitIndex db. map_of (byBlocknumIndex db') n = map_of (byBlocknumIndex db) n)"
  using finish_block_cases [OF fin]
proof (elim disjE exE conjE)
  fix x y
  assume "db' = db\<lparr>blockContext := x, headRevision := y\<rparr>"
  then show ?thesis using inv by simp
next
  fix bc c auth r info heap s b
  assume p: "blockContext db = Some bc" "env_produce E (pb_block bc) c auth = Some (r, info)"
    and nh: "next_header_state E (authStates db) (get_head_state db) info (Some r) = Ok (heap, s)"
    and b: "block_header (signed_block b) = info_header info"
    and db': "db' = db\<lparr>blockContext := None, headRevision := Some r, authStates := heap,
          states := map_insert (info_blockId info) s (states db),
          byOrderIndex := map_insert (hs_order s) (info_blockId info) (byOrderIndex db),
          fd_head := info_blockId info,
          byBlocknumIndex := map_insert (blockNum (info_header info)) (info_blockId info) (byBlocknumIndex db),
          blocks := map_insert (info_blockId info) b (blocks db)\<rparr>"
  let ?h = "fd_head db"
  have t: "tree_inv E db" and h: "head_inv db" using inv by (auto simp: fork_inv_def)
  note d = tree_invD [OF t]
  have i: "info = the_info E (info_header info)" "previous (info_header info) = ?h" "well_placed db (info_header info)"
    "get_state db (info_blockId info) = None" "map_of (blocks db) (info_blockId info) = None"
    using nxt p unfolding produces_next_def by blast+
  note n = next_header_state_info [OF nh]
  have v: "valid_at db ?h" using indexed_valid [OF d(2) ix] .
  then obtain hs where hs: "get_state db ?h = Some hs" "\<not> hs_invalid hs" by (auto simp: valid_at_def)
  have l: "byBlocknumIndex db \<noteq> []" "last (byBlocknumIndex db) = (hs_num hs, ?h)"
    using h hs by (simp_all add: head_inv_def get_head_state_def)
  have ord: "ordered (byBlocknumIndex db)" using d(5) chain_ordered by (auto simp: chain_inv_def)
  have ch: "commitIndex db \<le> hs_num hs" using d(6) ix hs by (auto simp: root_inv_def)
  have ext: "extends hs s" using i(2,3) hs n(1) by (simp add: well_placed_def extends_def)
  have gt: "hs_num hs < hs_num s" using ext by (simp add: extends_def word_less_nat_alt)
  have i4: "take 4 (hs_id s) = num_bytes (hs_num s)" unfolding n(1) by (subst i(1)) (simp add: mk_block_info_def num_bytes_def)
  have a: "adds_block E db b s db'"
    using t i hs n v b ix ext i4 less_le_trans [OF le_less_trans [OF ch gt]] head_under_commit(1) [OF inv]
    by (simp add: adds_block_def Let_def db' le_less_trans [OF ch gt])
  have ci: "commitIndex db' = commitIndex db" and hd: "fd_head db' = hs_id s" by (simp_all add: db' n(1))
  have below: "\<forall>p \<in> set (byBlocknumIndex db). fst p < hs_num s"
    using ordered_last [OF ord] l(2) gt by (auto dest!: bspec intro: le_less_trans)
  have idx: "byBlocknumIndex db' = byBlocknumIndex db @ [(hs_num s, hs_id s)]"
    using map_insert_last [OF below] by (simp add: db' n(1))
  have "link db' (last (byBlocknumIndex db)) (hs_num s, hs_id s)"
    using ext i(2) n(1) by (simp add: link_def l(2) added_child [OF a] extends_def)
  moreover have "at_num db' (hs_num s, hs_id s)" by (simp add: at_num_def added_state(1) [OF a])
  ultimately have chd: "chain db' (byBlocknumIndex db')"
    using added_chain [OF a, of "byBlocknumIndex db"] d(5) unfolding idx by (simp add: chain_append chain_inv_def)
  note ordd = chain_ordered [OF chd]
  have ne: "snd q \<noteq> hs_id s" if "q \<in> set (byBlocknumIndex db)" for q
    using that d(5) i(4) n(1) by (auto simp: chain_inv_def chain_def at_num_def)
  have "chain_inv db'"
    using d(5) n(3) chd ne by (auto simp: chain_inv_def idx added_state(4) [OF a] ci)
  then have "tree_inv E db'" by (rule added_tree_inv [OF a])
  moreover have "head_inv db'"
    using h ne n(2) by (auto simp: head_inv_def idx added_state(1,5) [OF a] get_head_state_def hd)
  moreover have "map_of (byBlocknumIndex db') m = map_of (byBlocknumIndex db) m" if "m \<le> commitIndex db" for m
    unfolding idx by (rule map_of_prefix) (use that l ch ordd idx in auto)
  ultimately show ?thesis by (simp add: fork_inv_def ci)
qed

section \<open>A new chain\<close>

lemma new_chain_state:
  assumes "new_chain E r = Ok db"
  obtains s where "hs_info s = hs_info initial_header_state" "hs_revision s = Some r" "\<not> hs_invalid s"
    "states db = [(replicate 32 0, s)]" "byOrderIndex db = [(hs_order s, replicate 32 0)]"
    "byBlocknumIndex db = [(1, replicate 32 0)]" "blocks db = []" "commitIndex db = 1" "fd_head db = replicate 32 0"
proof -
  obtain heap s where l: "loadAuthState E [] (initial_header_state\<lparr>hs_revision := Some r\<rparr>) = Ok (heap, s)"
    and db: "db = \<lparr>blockContext = None, commitIndex = hs_num s, logStart = 0, currentTerm = termNum (hs_header s),
           fd_head = hs_id s, blocks = [], states = [(hs_id s, s)],
           byOrderIndex = [(hs_order s, hs_id s)], byBlocknumIndex = [(hs_num s, hs_id s)],
           authStates = heap, blockData = [], headRevision = Some r, onCommit_calls = []\<rparr>"
    using assms by (auto simp: new_chain_def result_simps)
  then have s: "hs_info s = hs_info initial_header_state" "hs_revision s = Some r" "\<not> hs_invalid s"
    by (auto simp: loadAuthState_def initial_header_state_def result_simps)
  then have "hs_id s = replicate 32 0" "hs_num s = 1" by (simp_all add: initial_header_state_def)
  with s show thesis by (intro that [of s]) (simp_all add: db)
qed

lemma getBlockNum_zero: "getBlockNum (replicate 32 0) = 0"
  by (simp add: getBlockNum_def numeral_nat)

lemma new_chain_inv:
  assumes "new_chain E r = Ok db"
  shows "fork_inv E db"
proof -
  obtain s where s: "hs_info s = hs_info initial_header_state" "hs_revision s = Some r" "\<not> hs_invalid s"
    and db: "states db = [(replicate 32 0, s)]" "byOrderIndex db = [(hs_order s, replicate 32 0)]"
      "byBlocknumIndex db = [(1, replicate 32 0)]" "blocks db = []" "commitIndex db = 1" "fd_head db = replicate 32 0"
    using new_chain_state [OF assms] .
  have g: "get_state db j = (if j = replicate 32 0 then Some s else None)" for j by (simp add: get_state_def db)
  have c: "\<not> child_of db j q" for j q by (auto simp: child_of_def g)
  have i: "hs_id s = replicate 32 0" "hs_num s = 1" "previous (hs_header s) = replicate 32 0" "commitNum (hs_header s) = 0"
    using s(1) by (simp_all add: initial_header_state_def empty_header_def)
  have x: "executed db (replicate 32 0)" "valid_at db (replicate 32 0)" using s by (simp_all add: executed_def valid_at_def g)
  have ix: "indexed db j \<longleftrightarrow> j = replicate 32 0" for j by (auto simp: indexed_def db)
  have "states_inv db" "index_inv db" "exec_inv db"
    using i x by (auto simp: states_inv_def index_inv_def exec_inv_def c g db split: if_splits)
  moreover have "store_inv E db" "commit_inv db" using i by (auto simp: store_inv_def commit_inv_def g db split: if_splits)
  moreover have "chain_inv db" "head_inv db" using i x by (auto simp: chain_inv_def head_inv_def at_num_def get_head_state_def g db)
  moreover have "root_inv db" using i unfolding root_inv_def ix by (intro exI [of _ "replicate 32 0"]) (auto simp: g db)
  moreover have "id_inv db" using i by (auto simp: id_inv_def g db getBlockNum_zero split: if_splits)
  ultimately show ?thesis by (simp add: fork_inv_def tree_inv_def)
qed

section \<open>The transition system\<close>

text \<open>
  The steps carry the preconditions that ForkDb.hpp states in its comments: a fork switch is not required when
  a block is produced or committed, the erased block has no children and is not in the current chain. The root
  given to \<open>set_subtree\<close> is after the commit index and all blocks before it have been executed.
\<close>

inductive fork_step :: "env \<Rightarrow> fork_db \<Rightarrow> fork_db \<Rightarrow> bool" for E :: env where
  step_insert: "well_placed db (block_header (signed_block b)) \<Longrightarrow> insert_block E db b = (r, db') \<Longrightarrow> fork_step E db db'"
| step_erase: "get_state db i \<noteq> None \<Longrightarrow> i \<notin> snd ` set (byBlocknumIndex db) \<Longrightarrow> (\<And>j. \<not> child_of db j i) \<Longrightarrow>
    fork_step E db (erase_block db i)"
| step_term: "fork_step E db (setTerm db t)"
| step_subtree: "valid_at db root \<Longrightarrow> commitIndex db \<le> hs_num (the_state db root) \<Longrightarrow>
    (\<And>p. child_of db root p \<Longrightarrow> executed db p) \<Longrightarrow> set_subtree db root = (r, db') \<Longrightarrow> fork_step E db db'"
| step_switch: "async_switch_fork E (on_accept_block E) db = Some (Ok b, db') \<Longrightarrow> fork_step E db db'"
| step_commit: "indexed db (fd_head db) \<Longrightarrow> commit E db n = (r, db') \<Longrightarrow> fork_step E db db'"
| step_gc: "gc db = (db', erased) \<Longrightarrow> fork_step E db db'"
| step_start: "fork_step E db (start_block db bc)"
| step_abort: "fork_step E db (abort_block db)"
| step_finish: "indexed db (fd_head db) \<Longrightarrow> produces_next E db \<Longrightarrow> finish_block E mk db = (i, db') \<Longrightarrow> fork_step E db db'"

text \<open>A block once committed stays at its number, until \<open>gc\<close> drops the entry.\<close>

definition irreversible :: "fork_db \<Rightarrow> fork_db \<Rightarrow> bool" where
  "irreversible db db' \<longleftrightarrow>
     commitIndex db \<le> commitIndex db' \<and>
     (\<forall>n \<le> commitIndex db. map_of (byBlocknumIndex db') n \<in> {None, map_of (byBlocknumIndex db) n})"

lemma irreversible_trans: "irreversible db db' \<Longrightarrow> irreversible db' db'' \<Longrightarrow> irreversible db db''"
  unfolding irreversible_def by (auto intro: order_trans) (metis order_trans)+

lemma irreversibleI:
  "commitIndex db \<le> commitIndex db' \<Longrightarrow> byBlocknumIndex db' = byBlocknumIndex db \<Longrightarrow> irreversible db db'"
  by (simp add: irreversible_def)

lemma dropWhile_lookup: "ordered m \<Longrightarrow> map_of (dropWhile P m) k \<in> {None, map_of m k}"
proof -
  assume o: "ordered m"
  have "map_of m k = Some v" if "map_of (dropWhile P m) k = Some v" for v
    using ordered_map_of [OF o] map_of_SomeD [OF that] set_dropWhileD by fastforce
  then show ?thesis by (cases "map_of (dropWhile P m) k") auto
qed

lemma fork_step_inv:
  assumes "fork_step E db db'" "fork_inv E db"
  shows "fork_inv E db' \<and> irreversible db db'"
  using assms
proof cases
  case (step_insert b r)
  with insert_block_inv [OF assms(2) step_insert] show ?thesis by (simp add: irreversibleI)
next
  case (step_erase i)
  then obtain s where "get_state db i = Some s" by auto
  with step_erase erase_block_inv [OF assms(2)] show ?thesis by (auto simp: erase_block_def intro: irreversibleI)
next
  case (step_subtree root r)
  have t: "tree_inv E db" and h: "head_inv db" using assms(2) by (auto simp: fork_inv_def)
  obtain idx where "set_subtree db root = (Ok (), db\<lparr>byOrderIndex := idx\<rparr>)" "tree_inv E (db\<lparr>byOrderIndex := idx\<rparr>)"
    using subtree_inv [OF t step_subtree(1-3)] by blast
  with step_subtree(4) have db': "db' = db\<lparr>byOrderIndex := idx\<rparr>" "tree_inv E db'" by auto
  have "executed db' = executed db" "get_state db' = get_state db" by (rule states_cong; simp add: db')+
  then have "head_inv db'" by (intro head_inv_cong [OF _ _ _ h]) (simp_all add: db')
  with db' show ?thesis by (simp add: fork_inv_def irreversibleI)
next
  case (step_switch b)
  from switch_fork_inv [OF assms(2)] step_switch show ?thesis
    by (auto simp: irreversible_def evolves_def keeps_committed_def)
next
  case (step_commit n r)
  have t: "tree_inv E db" and h: "head_inv db" using assms(2) by (auto simp: fork_inv_def)
  have m: "(hs_num (get_head_state db), fd_head db) \<in> set (byBlocknumIndex db)"
    using h last_in_set [of "byBlocknumIndex db"] by (simp add: head_inv_def)
  have "commitIndex db \<le> hs_num (get_head_state db)"
    using tree_invD(6) [OF t] step_commit(1) by (auto simp: root_inv_def get_head_state_def)
  then have "max (min n (hs_num (get_head_state db))) (commitIndex db) \<le> hs_num (get_head_state db)" by simp
  then obtain b where "commit E db n = (Ok b, db')" and a: "accepted E (fd_head db) db db'"
    using commit_accepted [OF t m head_under_commit(1) [OF assms(2)] step_commit(1)] step_commit(2) by (metis prod.inject)
  then have db': "tree_inv E db'" "evolves db db'" "states db' = states db" "byBlocknumIndex db' = byBlocknumIndex db" "fd_head db' = fd_head db"
    by (auto simp: accepted_def)
  have "executed db' = executed db" "get_state db' = get_state db" by (rule states_cong; rule db')+
  then have "head_inv db'" by (intro head_inv_cong [OF _ _ _ h]) (simp_all add: db')
  with db' show ?thesis by (auto simp: fork_inv_def evolves_def intro: irreversibleI)
next
  case (step_gc erased)
  note g = gc_inv [OF assms(2) step_gc]
  have "ordered (byBlocknumIndex db)" using assms(2) chain_ordered by (auto simp: fork_inv_def tree_inv_def chain_inv_def)
  with g dropWhile_lookup show ?thesis by (auto simp: irreversible_def)
next
  case (step_finish mk i)
  with finish_block_inv [OF assms(2) step_finish(2,1,3)] show ?thesis by (simp add: irreversible_def)
qed (use assms(2) in \<open>auto simp: setTerm_def start_block_def abort_block_def intro: irreversibleI\<close>)

end
