(* ===== verification/Fork_Examples.thy ===== *)
theory Fork_Examples
  imports Fork_Steps
begin

text \<open>
  A small chain on which the definitions of the fork database are evaluated. Signatures always verify, the id
  of a block is its number followed by its time, and executing a block succeeds unless its time is 7.
\<close>

definition ex_hash :: "block_header \<Rightarrow> checksum" where
  "ex_hash h = [0, 0, 0, 0, ucast (blockTime h)]"

definition ex_execute :: "revision \<Rightarrow> signed_block \<Rightarrow> (revision \<times> block_id) option" where
  "ex_execute r b =
     (let h = block_header (signed_block b)
      in if blockTime h = 7 then None else Some (r + 1, info_blockId (mk_block_info ex_hash h)))"

definition ex_env :: env where
  "ex_env = \<lparr>env_header_hash = ex_hash, env_code_hash = (\<lambda>_. []), env_state_hash = (\<lambda>_. []),
     env_adopt_code = adopt_first, env_adopt_producers = adopt_first, env_prove = (\<lambda>_ _ _ _. True),
     env_execute = (\<lambda>r b _ _. ex_execute r b),
     env_produce = (\<lambda>_ _ _. None), env_status = (\<lambda>_. None), env_auth_rows = (\<lambda>_. empty_auth_db),
     env_prev_auth = (\<lambda>_. None), env_block_log = (\<lambda>_ _. None), env_block_proof = (\<lambda>_ _. None)\<rparr>"

definition ex_header :: "block_num \<Rightarrow> u64 \<Rightarrow> block_id \<Rightarrow> block_num \<Rightarrow> block_header" where
  "ex_header n t p c = empty_header\<lparr>previous := p, blockNum := n, blockTime := t, commitNum := c\<rparr>"

definition ex_block :: "block_num \<Rightarrow> u64 \<Rightarrow> block_id \<Rightarrow> block_num \<Rightarrow> signed_block" where
  "ex_block n t p c = \<lparr>signed_block = \<lparr>block_header = ex_header n t p c, block_transactions = []\<rparr>,
     block_signature = [], auxConsensusData = None\<rparr>"

definition ex_new :: fork_db where
  "ex_new = (case new_chain ex_env 0 of Ok db \<Rightarrow> db)"

definition ex_insert :: "fork_db \<Rightarrow> signed_block \<Rightarrow> fork_db" where
  "ex_insert db b = snd (insert_block ex_env db b)"

definition ex_switch :: "fork_db \<Rightarrow> fork_db" where
  "ex_switch db = snd (the (async_switch_fork ex_env (on_accept_block ex_env) db))"

text \<open>
  Block 2 at time 1 becomes head. Then block 2 at time 2 arrives, and block 3 at time 3 that builds on it and
  makes it irreversible.
\<close>

definition ex_one :: fork_db where
  "ex_one = ex_switch (ex_insert ex_new (ex_block 2 1 (replicate 32 0) 1))"

definition ex_fork :: fork_db where
  "ex_fork = ex_insert (ex_insert ex_one (ex_block 2 2 (replicate 32 0) 1)) (ex_block 3 3 [0, 0, 0, 2, 2] 2)"

lemma ex_new_chain: "new_chain ex_env 0 = Ok ex_new"
proof -
  have "is_ok (new_chain ex_env 0)" by code_simp
  then show ?thesis by (auto simp: ex_new_def is_ok_iff)
qed

definition placed_check :: "fork_db \<Rightarrow> block_header \<Rightarrow> bool" where
  "placed_check db h =
     (case get_state db (previous h) of
        None \<Rightarrow> True
      | Some p \<Rightarrow> unat (blockNum h) = Suc (unat (hs_num p)) \<and> termNum (hs_header p) \<le> termNum h \<and> commitNum h \<le> blockNum h)"

lemma placed_check: "placed_check db h \<Longrightarrow> well_placed db h"
  by (auto simp: placed_check_def well_placed_def)

lemma ex_insert_step:
  "placed_check db (block_header (signed_block b)) \<Longrightarrow> fork_step ex_env db (ex_insert db b)"
  by (rule step_insert [OF placed_check, where r = "fst (insert_block ex_env db b)"]) (simp_all add: ex_insert_def)

lemma ex_switch_step:
  assumes "case async_switch_fork ex_env (on_accept_block ex_env) db of Some (r, _) \<Rightarrow> is_ok r | None \<Rightarrow> False"
  shows "fork_step ex_env db (ex_switch db)"
proof -
  obtain r db' where s: "async_switch_fork ex_env (on_accept_block ex_env) db = Some (r, db')" "is_ok r"
    using assms by (auto split: option.splits)
  then obtain b where "async_switch_fork ex_env (on_accept_block ex_env) db = Some (Ok b, db')" by (auto simp: is_ok_iff)
  then show ?thesis by (intro step_switch) (simp_all add: ex_switch_def)
qed

lemma ex_one_reachable: "(fork_step ex_env)\<^sup>*\<^sup>* ex_new ex_one"
proof -
  have "fork_step ex_env ex_new (ex_insert ex_new (ex_block 2 1 (replicate 32 0) 1))"
    by (rule ex_insert_step) code_simp
  moreover have "fork_step ex_env (ex_insert ex_new (ex_block 2 1 (replicate 32 0) 1)) ex_one"
    unfolding ex_one_def by (rule ex_switch_step) code_simp
  ultimately show ?thesis by (meson converse_rtranclp_into_rtranclp r_into_rtranclp)
qed

lemma ex_fork_reachable: "(fork_step ex_env)\<^sup>*\<^sup>* ex_new ex_fork"
proof -
  have "fork_step ex_env ex_one (ex_insert ex_one (ex_block 2 2 (replicate 32 0) 1))"
    by (rule ex_insert_step) code_simp
  moreover have "fork_step ex_env (ex_insert ex_one (ex_block 2 2 (replicate 32 0) 1)) ex_fork"
    unfolding ex_fork_def by (rule ex_insert_step) code_simp
  ultimately show ?thesis using ex_one_reachable by (meson rtranclp.rtrancl_into_rtrancl)
qed

lemma ex_switched_step: "fork_step ex_env ex_fork (ex_switch ex_fork)"
  by (rule ex_switch_step) code_simp

lemma steps_inv: "(fork_step E)\<^sup>*\<^sup>* db db' \<Longrightarrow> fork_inv E db \<Longrightarrow> fork_inv E db' \<and> irreversible db db'"
proof (induction rule: rtranclp_induct)
  case base
  then show ?case by (simp add: irreversible_def)
next
  case (step db1 db2)
  then show ?case using fork_step_inv irreversible_trans by blast
qed

lemma ex_fork_inv: "fork_inv ex_env ex_fork"
  using steps_inv [OF ex_fork_reachable new_chain_inv [OF ex_new_chain]] by simp

end
