(* ===== verification/Fork_Queries.thy ===== *)
theory Fork_Queries
  imports Fork_Examples
begin

text \<open>
  The ancestor queries of ForkDb.hpp against the tree of blocks: \<open>is_ancestor\<close> and \<open>get_common_ancestor\<close> walk
  the stored blocks, and give the answer of the descent relation of the states.
\<close>

section \<open>Walking up the tree\<close>

text \<open>The loop of \<open>is_ancestor\<close> takes exactly the steps that lead from the descendant to the ancestor's number.\<close>

lemma ancestor_scan_descends:
  assumes st: "store_inv E db" "states_inv db"
  shows "get_state db i \<noteq> None \<Longrightarrow> get_state db a \<noteq> None \<Longrightarrow> commitIndex db \<le> hs_num (the_state db a) \<Longrightarrow>
    cnt = Suc (unat (hs_num (the_state db i))) - unat (hs_num (the_state db a)) \<Longrightarrow>
    ancestor_scan E db a i cnt \<longleftrightarrow> descends db i a"
proof (induction cnt arbitrary: i)
  case 0
  then have "hs_num (the_state db i) < hs_num (the_state db a)" by (simp add: word_less_nat_alt)
  then have "\<not> descends db i a" using descends_num [OF st(2), of i a] by (cases "i = a") auto
  then show ?case by simp
next
  case (Suc cnt)
  show ?case
  proof (cases "i = a")
    case False
    obtain s where s: "get_state db i = Some s" using Suc.prems(1) by auto
    show ?thesis
    proof (cases "commitIndex db < hs_num s")
      case True
      note p = get_prev_id_store [OF st(1) s True]
      have "unat (hs_num (the_state db i)) = Suc (unat (hs_num (the_state db (prev_of db i))))" by (rule child_num [OF st(2) p(2)])
      then have "ancestor_scan E db a (prev_of db i) cnt \<longleftrightarrow> descends db (prev_of db i) a"
        using Suc.prems p(2) by (intro Suc.IH) (auto simp: child_of_def)
      then show ?thesis using False p descends_step [of db i a] by simp
    next
      case le: False
      then have "hs_num (the_state db i) \<le> hs_num (the_state db a)" using s Suc.prems(3) by simp
      then have nd: "\<not> descends db i a" using descends_num [OF st(2), of i a] False by auto
      have "cnt = 0" using Suc.prems(4) \<open>hs_num (the_state db i) \<le> hs_num (the_state db a)\<close> by (simp add: word_le_nat_alt)
      with nd False show ?thesis by (simp split: option.splits)
    qed
  qed simp
qed

lemma get_ancestor_descends:
  assumes st: "store_inv E db" "states_inv db"
  shows "at_num db (n, i) \<Longrightarrow> commitIndex db \<le> m \<Longrightarrow> unat n = cnt + unat m \<Longrightarrow>
    \<exists>j. get_ancestor E db i cnt = Some j \<and> at_num db (m, j) \<and> descends db i j"
proof (induction cnt arbitrary: n i)
  case 0
  then have "n = m" by (simp add: word_unat_eq_iff)
  with 0 show ?case by simp
next
  case (Suc cnt)
  obtain s where s: "get_state db i = Some s" "hs_num s = n" using Suc.prems(1) by (auto simp: at_num_def)
  have "commitIndex db < hs_num s" using Suc.prems(2,3) s(2) by (simp add: word_le_nat_alt word_less_nat_alt)
  note p = get_prev_id_store [OF st(1) s(1) this]
  note l = link_parent [OF st(2) Suc.prems(1) p(2)]
  have "unat (hs_num (the_state db (prev_of db i))) = cnt + unat m" using l(1) Suc.prems(3) by (simp add: link_def)
  from Suc.IH [OF l(2) Suc.prems(2) this] obtain j where
    j: "get_ancestor E db (prev_of db i) cnt = Some j" "at_num db (m, j)" "descends db (prev_of db i) j" by blast
  with p descends_step [of db i j] show ?case by auto
qed

text \<open>The downward scan over the best chain meets the first common block.\<close>

lemma common_scan:
  assumes st: "store_inv E db" "states_inv db"
  shows "chain db (rev todo) \<Longrightarrow> todo = (n, x) # below \<Longrightarrow> at_num db (n, i) \<Longrightarrow>
    (commitIndex db, c) \<in> set todo \<Longrightarrow> descends db i c \<Longrightarrow>
    \<exists>m y. common_ancestor_scan E db todo i = Ok \<lparr>xid_id = y, xid_num = m\<rparr> \<and> (m, y) \<in> set todo \<and> descends db i y \<and>
      (\<forall>m' y'. (m', y') \<in> set todo \<longrightarrow> descends db i y' \<longrightarrow> m' \<le> m)"
proof (induction todo arbitrary: n x below i)
  case (Cons p todo)
  have p: "p = (n, x)" and todo: "todo = below" using Cons.prems(2) by auto
  have ord: "ordered (rev todo @ [(n, x)])" using chain_ordered [OF Cons.prems(1)] by (simp add: p)
  have lower: "fst q < n" if "q \<in> set todo" for q using ord that by (auto simp: ordered_append)
  obtain s where s: "get_state db i = Some s" "hs_num s = n" using Cons.prems(3) by (auto simp: at_num_def)
  have ats: "at_num db q" if "q \<in> set (p # todo)" for q using Cons.prems(1) that by (auto simp: chain_def)
  show ?case
  proof (cases "x = i")
    case True
    then show ?thesis using lower by (intro exI [of _ n] exI [of _ i]) (auto simp: p intro: less_imp_le)
  next
    case False
    have nx: "\<not> descends db i x" using descends_num [OF st(2), of i x] False s ats [of p] by (auto simp: p at_num_def)
    have cne: "(commitIndex db, c) \<in> set todo" using Cons.prems(4,5) nx by (auto simp: p)
    then obtain n' x' below' where b: "todo = (n', x') # below'" by (cases todo) auto
    have "commitIndex db < n" using lower [OF cne] by simp
    note prv = get_prev_id_store [OF st(1) s(1) this [folded s(2)]]
    note l = link_parent [OF st(2) Cons.prems(3) prv(2)]
    have lk: "link db (n', x') (n, x)" using Cons.prems(1) by (simp add: p b chain_append)
    then have n': "hs_num (the_state db (prev_of db i)) = n'" using l(1) by (simp add: link_def word_unat_eq_iff)
    have step: "descends db i y \<longleftrightarrow> i = y \<or> descends db (prev_of db i) y" for y
      using prv(2) descends_step [of db i y] by blast
    have inot: "q \<in> set todo \<Longrightarrow> snd q \<noteq> i" for q using lower [of q] ats [of q] s by (auto simp: at_num_def)
    have ch: "chain db (rev todo)" using Cons.prems(1) by (simp add: chain_append)
    have dc: "descends db (prev_of db i) c" using Cons.prems(5) step inot [OF cne] by auto
    have atp: "at_num db (n', prev_of db i)" using l(2) by (simp add: n')
    from Cons.IH [OF ch b atp cne dc] obtain m y where
      IH: "common_ancestor_scan E db todo (prev_of db i) = Ok \<lparr>xid_id = y, xid_num = m\<rparr>" "(m, y) \<in> set todo" "descends db (prev_of db i) y"
        "\<And>m' y'. (m', y') \<in> set todo \<Longrightarrow> descends db (prev_of db i) y' \<Longrightarrow> m' \<le> m" by blast
    show ?thesis
    proof (intro exI [of _ m] exI [of _ y] conjI allI impI)
      show "common_ancestor_scan E db (p # todo) i = Ok \<lparr>xid_id = y, xid_num = m\<rparr>"
        using False prv(1) IH(1) b by (simp add: p)
      show "(m, y) \<in> set (p # todo)" "descends db i y" using IH(2,3) step by auto
      show "m' \<le> m" if "(m', y') \<in> set (p # todo)" "descends db i y'" for m' y'
        using that nx IH(4) [of m' y'] step [of y'] inot [of "(m', y')"] by (auto simp: p)
    qed
  qed
qed simp

lemma scan_prefix:
  assumes inv: "tree_inv E db" and sp: "byBlocknumIndex db = (ys @ [(n, x)]) @ zs" and i: "at_num db (n, i)"
    and c: "(commitIndex db, c) \<in> set (byBlocknumIndex db)" "descends db i c"
  obtains m y where "common_ancestor_scan E db (rev (ys @ [(n, x)])) i = Ok \<lparr>xid_id = y, xid_num = m\<rparr>"
    "(m, y) \<in> set (byBlocknumIndex db)" "descends db i y"
    "\<And>m' y'. (m', y') \<in> set (byBlocknumIndex db) \<Longrightarrow> descends db i y' \<Longrightarrow> m' \<le> m"
proof -
  note d = tree_invD [OF inv]
  have ch: "chain db ((ys @ [(n, x)]) @ zs)" using d(5) by (simp add: chain_inv_def sp)
  have low: "(m', y') \<in> set (ys @ [(n, x)])" if m': "(m', y') \<in> set (byBlocknumIndex db)" "descends db i y'" for m' y'
  proof -
    have "at_num db (m', y')" using ch m'(1) unfolding sp chain_def by blast
    then have "hs_num (the_state db y') = m'" by (auto simp: at_num_def)
    then have "m' \<le> n" using descends_num [OF d(1) m'(2)] i by (cases "i = y'") (auto simp: at_num_def)
    then show ?thesis using m'(1) chain_ordered [OF ch] unfolding sp by (auto simp: ordered_append)
  qed
  have 1: "chain db (rev (rev (ys @ [(n, x)])))" using ch unfolding rev_rev_ident by (rule chain_append [THEN iffD1, THEN conjunct1])
  have 2: "rev (ys @ [(n, x)]) = (n, x) # rev ys" by simp
  have 3: "(commitIndex db, c) \<in> set (rev (ys @ [(n, x)]))" using low [OF c] by (simp only: set_rev)
  obtain m y where r: "common_ancestor_scan E db (rev (ys @ [(n, x)])) i = Ok \<lparr>xid_id = y, xid_num = m\<rparr>"
      "(m, y) \<in> set (rev (ys @ [(n, x)]))" "descends db i y"
      "\<And>m' y'. (m', y') \<in> set (rev (ys @ [(n, x)])) \<Longrightarrow> descends db i y' \<Longrightarrow> m' \<le> m"
    using common_scan [OF d(3,1) 1 2 i 3 c(2)] by blast
  show thesis
  proof (rule that [OF r(1) _ r(3)])
    show "(m, y) \<in> set (byBlocknumIndex db)" using r(2) by (auto simp: sp)
    show "m' \<le> m" if "(m', y') \<in> set (byBlocknumIndex db)" "descends db i y'" for m' y'
      using low [OF that] r(4) [OF _ that(2)] by (simp only: set_rev)
  qed
qed

text \<open>The two ways in which \<open>get_common_ancestor\<close> starts its scan: at the entry with the block's number, or at the head.\<close>

lemma common_start:
  assumes inv: "fork_inv E db" and t: "at_num db (xid_num t, xid_id t)"
    and c: "(commitIndex db, c) \<in> set (byBlocknumIndex db)" "descends db (xid_id t) c"
  obtains ys n x zs j where "byBlocknumIndex db = (ys @ [(n, x)]) @ zs" "at_num db (n, j)" "descends db (xid_id t) j"
    "n = xid_num t \<and> j = xid_id t \<or> zs = []"
    "get_common_ancestor E db t = common_ancestor_scan E db (rev (ys @ [(n, x)])) j"
proof -
  have tr: "tree_inv E db" using inv by (simp add: fork_inv_def)
  note d = tree_invD [OF tr]
  have ch: "chain db (byBlocknumIndex db)" and ne: "byBlocknumIndex db \<noteq> []"
    using d(5) inv by (auto simp: chain_inv_def fork_inv_def head_inv_def)
  note ord = chain_ordered [OF ch]
  have numc: "hs_num (the_state db c) = commitIndex db" using ch c(1) by (auto simp: chain_def at_num_def)
  have ct: "commitIndex db \<le> xid_num t"
    using descends_num [OF d(1) c(2)] numc t by (cases "xid_id t = c") (auto simp: at_num_def)
  obtain ys top x where l: "byBlocknumIndex db = ys @ [(top, x)]" using ne by (metis append_butlast_last_id prod.collapse)
  show thesis
  proof (cases "map_of (byBlocknumIndex db) (xid_num t)")
    case (Some x)
    obtain ys zs where sp: "byBlocknumIndex db = ys @ (xid_num t, x) # zs" using map_of_SomeD [OF Some] by (auto dest: split_list)
    have "takeWhile (\<lambda>p. fst p \<le> xid_num t) (byBlocknumIndex db) = ys @ [(xid_num t, x)]"
      using ord unfolding sp by (auto simp: ordered_append takeWhile_append split: if_splits) (cases zs; auto)+
    then show thesis using sp t Some by (intro that [of ys "xid_num t" x zs "xid_id t"]) (simp_all add: get_common_ancestor_def)
  next
    case None
    have "top < xid_num t"
    proof (rule ccontr)
      assume "\<not> top < xid_num t"
      then have le: "xid_num t \<le> top" by simp
      have m: "(top, x) \<in> set (byBlocknumIndex db)" by (simp add: l)
      obtain y where "map_of (byBlocknumIndex db) (xid_num t) = Some y" using chain_member [OF tr m ct le] by metis
      with None show False by simp
    qed
    moreover have "commitIndex db \<le> top" using ordered_last [OF ord c(1)] by (simp add: l)
    ultimately obtain j where j: "get_ancestor E db (xid_id t) (unat (xid_num t - top)) = Some j" "at_num db (top, j)" "descends db (xid_id t) j"
      using get_ancestor_descends [OF d(3,1) t, of top "unat (xid_num t - top)"]
      by (auto simp: unat_sub word_less_nat_alt less_imp_le word_le_nat_alt)
    have last: "fst (last (ys @ [(top, x)])) = top" by simp
    have "get_common_ancestor E db t = common_ancestor_scan E db (rev (ys @ [(top, x)])) j"
      using None j(1) \<open>top < xid_num t\<close> last [folded l]
      by (simp add: get_common_ancestor_def Let_def l [symmetric] del: common_ancestor_scan.simps)
    with l j show thesis by (intro that [of ys top x "[]" j]) simp_all
  qed
qed

section \<open>Properties\<close>

text \<open>
  C13. Of two known blocks at or after the commit index, \<open>is_ancestor\<close> says whether the second is a descendant of the first
  in the tree of blocks.
\<close>

theorem is_ancestor_correct:
  assumes "fork_inv E db"
    and "get_state db (xid_id a) = Some sa" "hs_num sa = xid_num a" "commitIndex db \<le> xid_num a"
    and "get_state db (xid_id t) = Some st" "hs_num st = xid_num t"
  shows "is_ancestor E db a t \<longleftrightarrow> descends db (xid_id t) (xid_id a)"
proof -
  have inv: "store_inv E db" "states_inv db" using assms(1) by (auto simp: fork_inv_def tree_inv_def)
  show ?thesis unfolding is_ancestor_def by (rule ancestor_scan_descends [OF inv]) (use assms in simp_all)
qed

theorem is_ancestor_correct_witness:
  "is_ancestor ex_env ex_fork \<lparr>xid_id = [0, 0, 0, 2, 2], xid_num = 2\<rparr> \<lparr>xid_id = [0, 0, 0, 3, 3], xid_num = 3\<rparr> \<and>
   descends ex_fork [0, 0, 0, 3, 3] [0, 0, 0, 2, 2] \<and>
   \<not> descends ex_fork [0, 0, 0, 3, 3] [0, 0, 0, 2, 1]"
proof -
  have s: "map_option hs_num (get_state ex_fork [0, 0, 0, 2, 1]) = Some 2" "map_option hs_num (get_state ex_fork [0, 0, 0, 2, 2]) = Some 2"
    "map_option hs_num (get_state ex_fork [0, 0, 0, 3, 3]) = Some 3" "commitIndex ex_fork \<le> 2"
    by code_simp+
  have a: "is_ancestor ex_env ex_fork \<lparr>xid_id = [0, 0, 0, 2, 2], xid_num = 2\<rparr> \<lparr>xid_id = [0, 0, 0, 3, 3], xid_num = 3\<rparr>"
    "\<not> is_ancestor ex_env ex_fork \<lparr>xid_id = [0, 0, 0, 2, 1], xid_num = 2\<rparr> \<lparr>xid_id = [0, 0, 0, 3, 3], xid_num = 3\<rparr>"
    by code_simp+
  from a s is_ancestor_correct [OF ex_fork_inv, of "\<lparr>xid_id = [0, 0, 0, 2, 2], xid_num = 2\<rparr>" _ "\<lparr>xid_id = [0, 0, 0, 3, 3], xid_num = 3\<rparr>"]
    is_ancestor_correct [OF ex_fork_inv, of "\<lparr>xid_id = [0, 0, 0, 2, 1], xid_num = 2\<rparr>" _ "\<lparr>xid_id = [0, 0, 0, 3, 3], xid_num = 3\<rparr>"]
  show ?thesis by (auto simp: map_option_eq_Some)
qed

text \<open>
  C11. For a known block that builds on the committed block, \<open>get_common_ancestor\<close> returns the last block that its
  branch shares with the best chain.
\<close>

theorem get_common_ancestor_correct:
  assumes "fork_inv E db" "get_state db (xid_id t) = Some s" "hs_num s = xid_num t"
    and "map_of (byBlocknumIndex db) (commitIndex db) = Some c" "descends db (xid_id t) c"
  shows "\<exists>x. get_common_ancestor E db t = Ok x \<and> in_best_chain db x \<and> descends db (xid_id t) (xid_id x) \<and>
    (\<forall>y. in_best_chain db y \<longrightarrow> descends db (xid_id t) (xid_id y) \<longrightarrow> xid_num y \<le> xid_num x)"
proof -
  have at: "at_num db (xid_num t, xid_id t)" using assms by (simp add: at_num_def)
  have c: "(commitIndex db, c) \<in> set (byBlocknumIndex db)" using assms(4) by auto
  have tr: "tree_inv E db" using assms(1) by (simp add: fork_inv_def)
  note d = tree_invD [OF tr]
  have ch: "chain db (byBlocknumIndex db)" using d(5) by (simp add: chain_inv_def)
  note ord = chain_ordered [OF ch]
  have best: "in_best_chain db y \<longleftrightarrow> (xid_num y, xid_id y) \<in> set (byBlocknumIndex db)" for y
    unfolding in_best_chain_def by (rule ordered_map_of [OF ord])
  have num: "hs_num (the_state db y) = n" if "(n, y) \<in> set (byBlocknumIndex db)" for n y
    using ch that by (auto simp: chain_def at_num_def)
  obtain ys n x zs j where j: "byBlocknumIndex db = (ys @ [(n, x)]) @ zs" "at_num db (n, j)" "descends db (xid_id t) j"
    "n = xid_num t \<and> j = xid_id t \<or> zs = []" "get_common_ancestor E db t = common_ancestor_scan E db (rev (ys @ [(n, x)])) j"
    by (rule common_start [OF assms(1) at c assms(5)])
  have up: "descends db j y" if "(m, y) \<in> set (byBlocknumIndex db)" "descends db (xid_id t) y" for m y
  proof (cases "n = xid_num t \<and> j = xid_id t")
    case False
    then have "m \<le> n" using that(1) j(1,4) ordered_last [OF ord that(1)] by auto
    then show ?thesis using ancestors_linear [OF d(1) j(3) that(2)] num [OF that(1)] j(2) by (auto simp: at_num_def)
  qed (use that in simp)
  obtain m y where r: "common_ancestor_scan E db (rev (ys @ [(n, x)])) j = Ok \<lparr>xid_id = y, xid_num = m\<rparr>"
      "(m, y) \<in> set (byBlocknumIndex db)" "descends db j y"
      "\<And>m' y'. (m', y') \<in> set (byBlocknumIndex db) \<Longrightarrow> descends db j y' \<Longrightarrow> m' \<le> m"
    using scan_prefix [OF tr j(1,2) c up [OF c assms(5)]] by metis
  show ?thesis
    using r j(5) descends_trans [OF j(3) r(3)] up by (intro exI [of _ "\<lparr>xid_id = y, xid_num = m\<rparr>"]) (auto simp: best)
qed

theorem get_common_ancestor_correct_witness:
  "get_common_ancestor ex_env ex_fork \<lparr>xid_id = [0, 0, 0, 3, 3], xid_num = 3\<rparr> = Ok \<lparr>xid_id = replicate 32 0, xid_num = 1\<rparr> \<and>
   (\<exists>x. get_common_ancestor ex_env ex_fork \<lparr>xid_id = [0, 0, 0, 3, 3], xid_num = 3\<rparr> = Ok x \<and> in_best_chain ex_fork x \<and>
      descends ex_fork [0, 0, 0, 3, 3] (xid_id x))"
proof -
  have s: "map_option hs_num (get_state ex_fork [0, 0, 0, 3, 3]) = Some 3"
    "map_of (byBlocknumIndex ex_fork) (commitIndex ex_fork) = Some (replicate 32 0)"
    "is_ancestor ex_env ex_fork \<lparr>xid_id = replicate 32 0, xid_num = 1\<rparr> \<lparr>xid_id = [0, 0, 0, 3, 3], xid_num = 3\<rparr>"
    "map_option hs_num (get_state ex_fork (replicate 32 0)) = Some 1" "commitIndex ex_fork = 1"
    "get_common_ancestor ex_env ex_fork \<lparr>xid_id = [0, 0, 0, 3, 3], xid_num = 3\<rparr> = Ok \<lparr>xid_id = replicate 32 0, xid_num = 1\<rparr>"
    by code_simp+
  have inv: "store_inv ex_env ex_fork" "states_inv ex_fork" using ex_fork_inv by (auto simp: fork_inv_def tree_inv_def)
  have "descends ex_fork [0, 0, 0, 3, 3] (replicate 32 0)"
    using s ancestor_scan_descends [OF inv, of "[0, 0, 0, 3, 3]" "replicate 32 0"] by (auto simp: is_ancestor_def map_option_eq_Some)
  then show ?thesis
    using s get_common_ancestor_correct [OF ex_fork_inv, of "\<lparr>xid_id = [0, 0, 0, 3, 3], xid_num = 3\<rparr>" _ "replicate 32 0"]
    by (auto simp: map_option_eq_Some)
qed

end
