(* ===== verification/Fork_Safety.thy ===== *)
theory Fork_Safety
  imports Fork_Queries
begin

text \<open>
  What the fork database promises, for every sequence of its operations that starts with a new chain, and two
  situations in which ForkDb.hpp does not do what its comments say.
\<close>

section \<open>Invariants of reachable states\<close>





section \<open>Operations\<close>



text \<open>
  C6. \<open>set_subtree\<close> makes exactly the valid descendants of its root candidates for the head, and changes nothing
  else. For an invalid root it throws a consensus failure and changes nothing at all.
\<close>

theorem set_subtree_exact:
  assumes "fork_inv E db" "get_state db root = Some s"
  shows "if hs_invalid s then set_subtree db root = (Err Consensus_Failure, db)
    else \<exists>idx. set_subtree db root = (Ok (), db\<lparr>byOrderIndex := idx\<rparr>) \<and> ordered idx \<and>
      (\<forall>k i. (k, i) \<in> set idx \<longleftrightarrow> valid_at db i \<and> descends db i root \<and> k = hs_order (the_state db i))"
proof (cases "hs_invalid s")
  case True
  with assms(2) show ?thesis by (simp add: set_subtree_def Let_def)
next
  case False
  have "states_inv db" "index_inv db" using assms(1) by (auto simp: fork_inv_def tree_inv_def)
  moreover have "valid_at db root" using assms(2) False by (simp add: valid_at_def)
  ultimately obtain idx where "set_subtree db root = (Ok (), db\<lparr>byOrderIndex := idx\<rparr>)" "ordered idx"
    "\<And>k i. (k, i) \<in> set idx \<longleftrightarrow> valid_at db i \<and> descends db i root \<and> k = hs_order (the_state db i)"
    using set_subtree_index by blast
  with False show ?thesis by (simp del: split_paired_All) blast
qed

theorem set_subtree_exact_witness:
  "\<exists>idx. set_subtree ex_fork [0, 0, 0, 2, 2] = (Ok (), ex_fork\<lparr>byOrderIndex := idx\<rparr>) \<and> map snd idx = [[0, 0, 0, 2, 2], [0, 0, 0, 3, 3]]"
proof -
  have e: "map_option hs_invalid (get_state ex_fork [0, 0, 0, 2, 2]) = Some False"
    "map snd (byOrderIndex (snd (set_subtree ex_fork [0, 0, 0, 2, 2]))) = [[0, 0, 0, 2, 2], [0, 0, 0, 3, 3]]"
    by code_simp+
  then obtain s where "get_state ex_fork [0, 0, 0, 2, 2] = Some s" "\<not> hs_invalid s" by (auto simp: map_option_eq_Some)
  with set_subtree_exact [OF ex_fork_inv this(1)] e(2) show ?thesis by auto
qed

text \<open>
  C5. Garbage collection keeps the invariant, the commit index, the block at the commit index and everything built on it. Every
  stored block that it leaves is on the best chain or builds, through parents that are all still there, on a block at the commit index.
\<close>

theorem gc_exact:
  assumes "fork_inv E db" "gc db = (db', erased)" "map_of (byBlocknumIndex db) (commitIndex db) = Some c"
  shows "fork_inv E db' \<and> commitIndex db' = commitIndex db \<and> fd_head db' = fd_head db \<and>
    (\<forall>i. get_state db' i = (if i \<in> set erased then None else get_state db i)) \<and>
    (\<forall>i. descends db i c \<longrightarrow> i \<notin> set erased) \<and>
    (\<forall>i b. map_of (blocks db) i = Some b \<longrightarrow> i \<notin> set erased \<longrightarrow>
       in_best_chain db \<lparr>xid_id = i, xid_num = commitIndex db\<rparr> \<or>
       commitIndex db < getBlockNum i \<and> get_state db' (previous (block_header (signed_block b))) \<noteq> None)"
proof -
  have t: "tree_inv E db" using assms(1) by (simp add: fork_inv_def)
  obtain db1 where s: "gc_scan db (blocks db) = (db1, erased)" and db': "fd_head db' = fd_head db1"
    using assms(2) by (auto simp: gc_def split: prod.splits)
  have ob: "ordered (blocks db)" using tree_invD(8) [OF t] by (simp add: id_inv_def)
  have hd: "fd_head db' = fd_head db" using gc_scan_restricts [OF s tree_invD(1,2) [OF t] ob] db' by simp
  note g = gc_inv [OF assms(1,2)]
  have "i \<notin> set erased" if "descends db i c" for i
    using gc_keeps [OF t s _ that] assms(3) by auto
  moreover have "in_best_chain db \<lparr>xid_id = i, xid_num = commitIndex db\<rparr> \<or>
       commitIndex db < getBlockNum i \<and> get_state db' (previous (block_header (signed_block b))) \<noteq> None"
    if "map_of (blocks db) i = Some b" "i \<notin> set erased" for i b
  proof -
    consider "getBlockNum i < commitIndex db" | "getBlockNum i = commitIndex db" | "commitIndex db < getBlockNum i" by force
    then show ?thesis using gc_decides(2) [OF t s that(1)] that(2) g(5)
      by cases (auto simp: gc_forked_def)
  qed
  ultimately show ?thesis using g hd by blast
qed

theorem gc_exact_witness:
  "snd (gc (ex_switch ex_fork)) = [[0, 0, 0, 2, 1]] \<and> fork_inv ex_env (fst (gc (ex_switch ex_fork)))"
proof -
  have e: "snd (gc (ex_switch ex_fork)) = [[0, 0, 0, 2, 1]]"
    "map_of (byBlocknumIndex (ex_switch ex_fork)) (commitIndex (ex_switch ex_fork)) = Some [0, 0, 0, 2, 2]"
    by code_simp+
  have i: "fork_inv ex_env (ex_switch ex_fork)" using fork_step_inv [OF ex_switched_step ex_fork_inv] by blast
  have "gc (ex_switch ex_fork) = (fst (gc (ex_switch ex_fork)), snd (gc (ex_switch ex_fork)))" by simp
  from gc_exact [OF i this e(2)] e(1) show ?thesis by blast
qed

section \<open>A block that stays without a state\<close>

text \<open>
  The constructor of \<open>BlockHeaderState\<close> runs outside the \<open>try\<close> block of \<open>insert\<close>. A signed block whose \<open>authCode\<close> was
  stripped on the way has the id of the genuine block, because \<open>authCode\<close> is not hashed.
\<close>

definition ex_consensus :: consensus where
  "ex_consensus = \<lparr>consensus_data = CftConsensus [],
     consensus_services = [\<lparr>codeNum = 1, codeHash = [], vmType = 0, vmVersion = 0\<rparr>], consensus_wasmConfig = default_wasm_config\<rparr>"

definition ex_upgrade :: "header_code list option \<Rightarrow> signed_block" where
  "ex_upgrade code = \<lparr>signed_block = \<lparr>block_header = (ex_header 2 5 (replicate 32 0) 1)\<lparr>newConsensus := Some ex_consensus, authCode := code\<rparr>,
     block_transactions = []\<rparr>, block_signature = [], auxConsensusData = None\<rparr>"

text \<open>
  C18. When \<open>insert\<close> throws for a block whose signature is valid, the block stays among the known blocks without a
  state, and every later block with the same id is dropped as already known, although it may be correct.
\<close>

theorem insert_poisons_id:
  fixes b b' :: signed_block
  assumes "fork_inv E db" "insert_block E db b = (Err e, db1)"
    and "validateBlockSignature E (authStates db) (the_state db (previous (block_header (signed_block b))))
      (the_info E (block_header (signed_block b))) (block_signature b) = Ok c"
    and "info_blockId (the_info E (block_header (signed_block b'))) = info_blockId (the_info E (block_header (signed_block b)))"
  shows "insert_block E db1 b' = (Ok (None, False), db1)"
proof -
  let ?h = "block_header (signed_block b)"
  define i where "i = info_blockId (the_info E ?h)"
  have gs: "get_state (db\<lparr>blocks := x\<rparr>) = get_state db" for x by (simp add: fun_eq_iff get_state_def)
  have t: "tree_inv E db" using assms(1) by (simp add: fork_inv_def)
  have lt: "\<not> blockNum ?h \<le> commitIndex db" and new: "map_of (blocks db) i = None"
    and db1: "db1 = db\<lparr>blocks := map_insert i b (blocks db)\<rparr>"
    using assms(2,3) by (auto simp: insert_block_def Let_def gs i_def split: if_splits option.splits result.splits prod.splits)
  have num: "getBlockNum i = blockNum ?h" by (simp add: i_def)
  then have st: "get_state db i = None" using unknown_state [OF t new] lt by simp
  have "blockNum (block_header (signed_block b')) = getBlockNum (info_blockId (the_info E (block_header (signed_block b'))))" by simp
  then have num': "blockNum (block_header (signed_block b')) = blockNum ?h" using num assms(4) by (simp add: i_def)
  have "map_of (blocks db1) i = Some b"
    using new tree_invD(8) [OF t] by (simp add: db1 map_of_map_insert id_inv_def)
  moreover have "get_state db1 i = None" using st by (simp add: db1 gs)
  moreover have "\<not> blockNum (block_header (signed_block b')) \<le> commitIndex db1" using num' lt by (simp add: db1)
  ultimately show ?thesis using assms(4) [folded i_def] by (simp add: insert_block_def Let_def)
qed

theorem insert_poisons_id_witness:
  "fst (insert_block ex_env ex_one (ex_upgrade (Some [\<lparr>hc_vmType = 0, hc_vmVersion = 0, hc_code = [1]\<rparr>]))) = Ok (Some [0, 0, 0, 2, 5], True) \<and>
   fst (insert_block ex_env (ex_insert ex_one (ex_upgrade None)) (ex_upgrade (Some [\<lparr>hc_vmType = 0, hc_vmVersion = 0, hc_code = [1]\<rparr>]))) = Ok (None, False)"
proof -
  let ?good = "ex_upgrade (Some [\<lparr>hc_vmType = 0, hc_vmVersion = 0, hc_code = [1]\<rparr>])"
  have g: "fst (insert_block ex_env ex_one ?good) = Ok (Some [0, 0, 0, 2, 5], True)" by code_simp
  have e: "\<not> is_ok (fst (insert_block ex_env ex_one (ex_upgrade None)))"
    "is_ok (validateBlockSignature ex_env (authStates ex_one) (the_state ex_one (previous (block_header (signed_block (ex_upgrade None)))))
      (the_info ex_env (block_header (signed_block (ex_upgrade None)))) (block_signature (ex_upgrade None)))"
    "info_blockId (the_info ex_env (block_header (signed_block ?good))) = info_blockId (the_info ex_env (block_header (signed_block (ex_upgrade None))))"
    by code_simp+
  have inv: "fork_inv ex_env ex_one" using steps_inv [OF ex_one_reachable new_chain_inv [OF ex_new_chain]] by simp
  obtain x where x: "insert_block ex_env ex_one (ex_upgrade None) = (Err x, ex_insert ex_one (ex_upgrade None))"
    using e(1) unfolding ex_insert_def by (cases "insert_block ex_env ex_one (ex_upgrade None)"; cases "fst (insert_block ex_env ex_one (ex_upgrade None))") auto
  obtain c where c: "validateBlockSignature ex_env (authStates ex_one) (the_state ex_one (previous (block_header (signed_block (ex_upgrade None)))))
      (the_info ex_env (block_header (signed_block (ex_upgrade None)))) (block_signature (ex_upgrade None)) = Ok c"
    using e(2) unfolding is_ok_iff by blast
  from insert_poisons_id [OF inv x c e(3)] g show ?thesis by simp
qed

section \<open>A fork switch that does not end\<close>

lemma switch_loop_stuck:
  assumes "best_block db = Some new" "\<not> keep_pending db original_head new" "trySetHead E accept db new = (Ok False, db)"
  shows "switch_loop E accept original_head db = None"
proof -
  have "(E', a, o', db') \<noteq> (E, accept, original_head, db)" if "switch_loop E' a o' db' = Some y" for E' a o' db' y
  proof (rule switch_loop.raw_induct [OF _ that])
    fix loop E' a o' db' y
    assume IH: "\<And>E' a o' db' y. loop E' a o' db' = Some y \<Longrightarrow> (E', a, o', db') \<noteq> (E, accept, original_head, db)"
      and step: "(case best_block db' of
          None \<Rightarrow> Some (Err Consensus_Failure, db')
        | Some new_head \<Rightarrow>
            if keep_pending db' o' new_head
            then Some (if o' \<noteq> fd_head db' then (case trySetHead E' a db' o' of (Ok _, db') \<Rightarrow> (Ok False, db') | (Err e, db') \<Rightarrow> (Err e, db')) else (Ok False, db'))
            else (case trySetHead E' a db' new_head of
                    (Ok b, db') \<Rightarrow> if b then Some (Ok True, db') else loop E' a o' db'
                  | (Err e, db') \<Rightarrow> Some (Err e, db'))) = Some y"
    show "(E', a, o', db') \<noteq> (E, accept, original_head, db)"
    proof
      assume "(E', a, o', db') = (E, accept, original_head, db)"
      with step assms have "loop E accept original_head db = Some y" by simp
      from IH [OF this] show False by simp
    qed
  qed
  then show ?thesis by (metis option.exhaust)
qed

text \<open>
  Block 2 at time 7 fails to execute. Blocks 3 and 4 of its branch arrive while another branch is the best
  one, and block 4 declares block 3 irreversible, whose parent has never been executed.
\<close>

definition ex_long :: fork_db where
  "ex_long = ex_switch (ex_insert (ex_insert ex_one (ex_block 3 2 [0, 0, 0, 2, 1] 1)) (ex_block 4 3 [0, 0, 0, 3, 2] 1))"

definition ex_subtree :: fork_db where
  "ex_subtree =
     (let db = ex_insert (ex_insert (ex_insert ex_long (ex_block 2 7 (replicate 32 0) 1)) (ex_block 3 8 [0, 0, 0, 2, 7] 1))
                 (ex_block 4 9 [0, 0, 0, 3, 8] 3)
      in snd (set_subtree db [0, 0, 0, 3, 8]))"

text \<open>The heap of authentication states only grows with new headers.\<close>

lemma commit_authStates: "authStates (snd (commit E db n)) = authStates db"
proof -
  have sub: "authStates (snd (set_subtree db' r)) = authStates db'" for db' r by (simp add: set_subtree_def Let_def)
  have blk: "authStates (foldl (commit_block E) db ns) = authStates db" for ns using commit_blocks [of E db ns] by auto
  show ?thesis
    using sub blk unfolding commit_def Let_def by (auto split: prod.splits result.splits if_splits) (metis snd_conv)+
qed

lemma execute_authStates:
  shows "authStates (snd (execute_block E (on_accept_block E) db prev i)) = authStates db"
    and "authStates (blacklist_subtree db i) = authStates db"
  by (simp_all add: execute_block_def on_accept_block_def commit_authStates blacklist_subtree_def Let_def
      split: option.split result.split prod.split)

lemma execute_fork_authStates: "authStates (snd (execute_fork E (on_accept_block E) db prev rest)) = authStates db"
proof (induction rest arbitrary: db prev)
  case (Cons p rest)
  obtain n i where p: "p = (n, i)" by fastforce
  show ?case using execute_authStates(1) [of E db prev i] Cons.IH
    by (auto simp: p execute_authStates(2) split: prod.splits bool.splits)
qed simp

lemma trySetHead_authStates: "authStates (snd (trySetHead E (on_accept_block E) db new)) = authStates db"
proof -
  have "authStates db' = authStates db" if "execute_fork E (on_accept_block E) (db\<lparr>byBlocknumIndex := x\<rparr>) y z = (b, db')" for x y z b db'
    using execute_fork_authStates [of E "db\<lparr>byBlocknumIndex := x\<rparr>" y z] that by simp
  then show ?thesis
    by (auto simp: trySetHead_def Let_def split: option.split prod.split relinked.split bool.split)
qed

definition same_fields :: "fork_db \<Rightarrow> fork_db \<Rightarrow> bool" where
  "same_fields db db' \<longleftrightarrow>
     states db = states db' \<and> blocks db = blocks db' \<and> byOrderIndex db = byOrderIndex db' \<and>
     byBlocknumIndex db = byBlocknumIndex db' \<and> commitIndex db = commitIndex db' \<and> logStart db = logStart db' \<and>
     currentTerm db = currentTerm db' \<and> fd_head db = fd_head db' \<and> blockData db = blockData db' \<and>
     headRevision db = headRevision db' \<and> onCommit_calls db = onCommit_calls db' \<and> blockContext db = blockContext db'"

text \<open>Trying the best block fails, and trying it again fails and changes nothing.\<close>

definition traps :: "env \<Rightarrow> fork_db \<Rightarrow> block_id \<Rightarrow> bool" where
  "traps E db new \<longleftrightarrow>
     best_block db = Some new \<and> \<not> keep_pending db (fd_head db) new \<and>
     (case trySetHead E (on_accept_block E) db new of (r, db1) \<Rightarrow>
        r = Ok False \<and> best_block db1 = Some new \<and> \<not> keep_pending db1 (fd_head db) new \<and>
        (case trySetHead E (on_accept_block E) db1 new of (r', db2) \<Rightarrow> r' = Ok False \<and> same_fields db2 db1))"

lemma trap_never_ends:
  assumes "traps E db new"
  shows "async_switch_fork E (on_accept_block E) db = None"
proof -
  let ?a = "on_accept_block E"
  obtain db1 db2 where t: "trySetHead E ?a db new = (Ok False, db1)" "trySetHead E ?a db1 new = (Ok False, db2)" "same_fields db2 db1"
    and b: "best_block db = Some new" "\<not> keep_pending db (fd_head db) new" "best_block db1 = Some new" "\<not> keep_pending db1 (fd_head db) new"
    using assms by (auto simp: traps_def split: prod.splits)
  have "authStates db2 = authStates db1" using trySetHead_authStates [of E db1 new] t(2) by simp
  then have "db2 = db1" using t(3) by (simp add: same_fields_def)
  then have "switch_loop E ?a (fd_head db) db1 = None" using switch_loop_stuck [OF b(3,4)] t(2) by simp
  then have "switch_loop E ?a (fd_head db) db = None" using b(1,2) t(1) by (subst switch_loop.simps) simp
  then show ?thesis by (simp add: async_switch_fork_def)
qed


end
