(* ===== verification/Hashes.thy ===== *)
theory Hashes
  imports Blocks
begin

text \<open>
  libraries/psibase/common/src/crypto.cpp and crypto.hpp: HMAC and the incremental Merkle tree. SHA-256
  itself is OpenSSL's and a parameter of the definitions.
\<close>

type_synonym hash_function = "bytes \<Rightarrow> checksum"

definition zero_checksum :: checksum where
  "zero_checksum = replicate 32 0"

section \<open>HMAC\<close>

text \<open>
  \<open>hmacSha256\<close> works in one buffer of 64 + 32 bytes: the padded key, then the inner hash. The first loop
  applies the inner pad in place, the second one turns it into the outer pad.
\<close>

definition hmac_block :: nat where
  "hmac_block = 64"

definition hmacSha256 :: "hash_function \<Rightarrow> bytes \<Rightarrow> bytes \<Rightarrow> checksum" where
  "hmacSha256 sha256 key data =
     (let buf = (if length key \<le> hmac_block then key else sha256 key);
          buf = buf @ replicate (hmac_block - length buf) 0;
          buf = map (\<lambda>b. b XOR 0x36) buf;
          inner = sha256 (buf @ data);
          buf = map (\<lambda>b. b XOR (0x36 XOR 0x5c)) buf
      in sha256 (buf @ inner))"

section \<open>Merkle trees\<close>

definition merkle_combine :: "hash_function \<Rightarrow> checksum \<Rightarrow> checksum \<Rightarrow> checksum" where
  "merkle_combine sha256 lhs rhs = sha256 (1 # lhs @ rhs)"

definition hash_leaf :: "hash_function \<Rightarrow> bytes \<Rightarrow> checksum" where
  "hash_leaf sha256 frac = sha256 (0 # frac)"

text \<open>The stack is kept with its top first.\<close>

record merkle =
  merkle_i :: u64
  merkle_stack :: "checksum list"

definition empty_merkle :: merkle where
  "empty_merkle = \<lparr>merkle_i = 0, merkle_stack = []\<rparr>"

text \<open>The loop of \<open>push_impl\<close>. With fewer than two nodes left it would write before the vector.\<close>

function carry :: "hash_function \<Rightarrow> u64 \<Rightarrow> checksum list \<Rightarrow> checksum list result" where
  "carry sha256 x stack =
     (if x AND 1 = 0 then Ok stack
      else (case stack of
              b # a # rest \<Rightarrow> carry sha256 (drop_bit 1 x) (merkle_combine sha256 a b # rest)
            | _ \<Rightarrow> Err Undefined))"
  by pat_completeness auto
termination
  by (relation "measure (\<lambda>(_, _, stack). length stack)") auto

declare carry.simps [simp del]

definition push_impl :: "hash_function \<Rightarrow> checksum \<Rightarrow> merkle \<Rightarrow> merkle result" where
  "push_impl sha256 value m =
     bind_result (carry sha256 (merkle_i m) (value # merkle_stack m)) (\<lambda>stack.
       Ok \<lparr>merkle_i = merkle_i m + 1, merkle_stack = stack\<rparr>)"

definition merkle_root :: "hash_function \<Rightarrow> merkle \<Rightarrow> checksum" where
  "merkle_root sha256 m =
     (case merkle_stack m of
        [] \<Rightarrow> zero_checksum
      | node # rest \<Rightarrow> foldl (\<lambda>result node. merkle_combine sha256 node result) node rest)"

primrec push_all :: "hash_function \<Rightarrow> checksum list \<Rightarrow> merkle \<Rightarrow> merkle result" where
  "push_all sha256 [] m = Ok m"
| "push_all sha256 (x # xs) m = bind_result (push_impl sha256 x m) (push_all sha256 xs)"

section \<open>HMAC is RFC 2104\<close>

definition pad_key :: "hash_function \<Rightarrow> bytes \<Rightarrow> bytes" where
  "pad_key sha256 key =
     (let k = (if length key \<le> 64 then key else sha256 key) in k @ replicate (64 - length k) 0)"

text \<open>
  C25. \<open>hmacSha256\<close> is HMAC as RFC 2104 defines it: \<open>H((K XOR opad) || H((K XOR ipad) || data))\<close>, where \<open>K\<close>
  is the key, hashed first when it is longer than the block, and padded with zeros to 64 bytes.
\<close>

theorem hmacSha256_rfc2104:
  "hmacSha256 sha256 key data =
     (let k = pad_key sha256 key
      in sha256 (map (\<lambda>b. b XOR 0x5c) k @ sha256 (map (\<lambda>b. b XOR 0x36) k @ data)))"
proof -
  have "map ((\<lambda>b. b XOR (0x36 XOR 0x5c)) \<circ> (\<lambda>b. b XOR 0x36)) k = map (\<lambda>b. b XOR 0x5c) k" for k :: bytes
    by (rule map_cong) (simp_all add: ac_simps)
  then show ?thesis unfolding hmacSha256_def pad_key_def Let_def hmac_block_def map_map by metis
qed

section \<open>Merkle trees have the least depth\<close>

text \<open>
  The tree the header describes: the left subtree is the largest perfect tree that does not take all of
  the leaves.
\<close>

fun split_point :: "nat \<Rightarrow> nat" where
  "split_point n = (if n \<le> 2 then 1 else 2 * split_point ((n + 1) div 2))"

declare split_point.simps [simp del]

lemma split_point_eq: "2 ^ k < n \<Longrightarrow> n \<le> 2 ^ Suc k \<Longrightarrow> split_point n = 2 ^ k"
proof (induction k arbitrary: n)
  case 0
  then show ?case by (subst split_point.simps) simp
next
  case (Suc k)
  have "2 < n" using Suc.prems(1) by (rule le_less_trans [rotated]) simp
  moreover have "split_point ((n + 1) div 2) = 2 ^ k"
    using Suc.prems by (intro Suc.IH) simp_all
  ultimately show ?case by (subst split_point.simps) simp
qed

lemma split_point_bounds: "2 \<le> n \<Longrightarrow> 0 < split_point n \<and> split_point n < n"
proof (induction n rule: split_point.induct)
  case (1 n)
  show ?case
  proof (cases "n \<le> 2")
    case True
    then show ?thesis using 1 by (subst (1 2) split_point.simps) simp
  next
    case False
    then have "0 < split_point ((n + 1) div 2)" "split_point ((n + 1) div 2) < (n + 1) div 2" using 1 by auto
    moreover have "split_point n = 2 * split_point ((n + 1) div 2)" using False by (subst split_point.simps) simp
    ultimately show ?thesis by linarith
  qed
qed

function merkle_spec :: "hash_function \<Rightarrow> checksum list \<Rightarrow> checksum" where
  "merkle_spec sha256 xs =
     (if xs = [] then zero_checksum
      else if length xs = 1 then hd xs
      else merkle_combine sha256 (merkle_spec sha256 (take (split_point (length xs)) xs))
             (merkle_spec sha256 (drop (split_point (length xs)) xs)))"
  by pat_completeness auto
termination
proof (relation "measure (\<lambda>(_, xs). length xs)", goal_cases)
  case (2 sha256 xs)
  then have "2 \<le> length xs" by (cases xs) (auto simp: Suc_le_eq)
  then show ?case using split_point_bounds [of "length xs"] by simp
next
  case (3 sha256 xs)
  then have "2 \<le> length xs" by (cases xs) (auto simp: Suc_le_eq)
  then show ?case using split_point_bounds [of "length xs"] 3 by auto
qed simp

declare merkle_spec.simps [simp del]

lemma merkle_spec_single [simp]: "merkle_spec sha256 [x] = x"
  by (subst merkle_spec.simps) simp

lemma merkle_spec_append:
  assumes "length xs = 2 ^ k" "ys \<noteq> []" "length ys \<le> 2 ^ k"
  shows "merkle_spec sha256 (xs @ ys) = merkle_combine sha256 (merkle_spec sha256 xs) (merkle_spec sha256 ys)"
proof -
  have "0 < length ys" using assms(2) by simp
  moreover have "0 < length xs" using assms(1) by simp
  ultimately have "1 < length (xs @ ys)" by (simp add: less_eq_Suc_le del: length_greater_0_conv)
  then have "length (xs @ ys) \<noteq> 1" "xs @ ys \<noteq> []" by auto
  moreover have "split_point (length (xs @ ys)) = 2 ^ k" using assms by (intro split_point_eq) auto
  ultimately show ?thesis using assms(1) by (subst merkle_spec.simps) auto
qed

text \<open>
  The stack after the leaves \<open>xs\<close>, in units of \<open>2 ^ j\<close> leaves: one perfect tree for each bit of the number
  of units.
\<close>

fun perfect_trees :: "hash_function \<Rightarrow> nat \<Rightarrow> nat \<Rightarrow> checksum list \<Rightarrow> checksum list" where
  "perfect_trees sha256 j n xs =
     (if n = 0 then []
      else if even n then perfect_trees sha256 (Suc j) (n div 2) xs
      else merkle_spec sha256 (drop ((n - 1) * 2 ^ j) xs) # perfect_trees sha256 (Suc j) (n div 2) (take ((n - 1) * 2 ^ j) xs))"

declare perfect_trees.simps [simp del]

lemma perfect_trees_even:
  "even n \<Longrightarrow> perfect_trees sha256 j n xs = perfect_trees sha256 (Suc j) (n div 2) xs"
  by (cases "n = 0") (simp_all add: perfect_trees.simps)

lemma perfect_trees_odd:
  assumes "odd n" "length xs = (n - 1) * 2 ^ j"
  shows "perfect_trees sha256 j n (xs @ ys) = merkle_spec sha256 ys # perfect_trees sha256 (Suc j) (n div 2) xs"
  using assms by (subst perfect_trees.simps) (auto elim: oddE)

lemma split_units:
  assumes "odd n" "length xs = n * 2 ^ j"
  obtains us vs where "xs = us @ vs" "length us = (n - 1) * 2 ^ j" "length us = n div 2 * 2 ^ Suc j" "length vs = 2 ^ j"
proof
  show "xs = take ((n - 1) * 2 ^ j) xs @ drop ((n - 1) * 2 ^ j) xs" by simp
  obtain m where n: "n = 2 * m + 1" using assms(1) by (rule oddE)
  show "length (take ((n - 1) * 2 ^ j) xs) = (n - 1) * 2 ^ j"
    "length (take ((n - 1) * 2 ^ j) xs) = n div 2 * 2 ^ Suc j"
    "length (drop ((n - 1) * 2 ^ j) xs) = 2 ^ j"
    using assms(2) by (simp_all add: n)
qed

lemma low_bit: "x AND 1 = 0 \<longleftrightarrow> even (unat x)" for x :: u64
  by (simp add: and_one_eq word_unat_eq_iff unat_mod_distrib unat_mod even_iff_mod_2_eq_zero)

lemma carry_perfect_trees:
  assumes "length xs = unat x * 2 ^ j" "length ys = 2 ^ j"
  shows "carry sha256 x (merkle_spec sha256 ys # perfect_trees sha256 j (unat x) xs) =
    Ok (perfect_trees sha256 j (unat x + 1) (xs @ ys))"
  using assms
proof (induction "unat x" arbitrary: x j xs ys rule: less_induct)
  case less
  show ?case
  proof (cases "x AND 1 = 0")
    case True
    then have "even (unat x)" by (simp only: low_bit)
    moreover from this have "odd (unat x + 1)" by simp
    ultimately show ?thesis
      using True less.prems by (subst carry.simps) (simp add: perfect_trees_odd perfect_trees_even)
  next
    case False
    then have odd: "odd (unat x)" by (simp only: low_bit) simp
    have half: "unat (drop_bit 1 x) = unat x div 2" using unat_drop_bit_eq [of 1 x] by (simp only: drop_bit_eq_div power_one_right)
    have "unat (drop_bit 1 x) < unat x" unfolding half using odd by (auto elim!: oddE)
    obtain us vs where xs: "xs = us @ vs" "length us = (unat x - 1) * 2 ^ j"
      "length us = unat x div 2 * 2 ^ Suc j" "length vs = 2 ^ j"
      using split_units [OF odd less.prems(1)] by metis
    have vy: "merkle_combine sha256 (merkle_spec sha256 vs) (merkle_spec sha256 ys) = merkle_spec sha256 (vs @ ys)"
      using less.prems(2) xs(4) by (subst merkle_spec_append [of _ j]) auto
    have "carry sha256 x (merkle_spec sha256 ys # perfect_trees sha256 j (unat x) xs) =
      carry sha256 (drop_bit 1 x) (merkle_spec sha256 (vs @ ys) # perfect_trees sha256 (Suc j) (unat (drop_bit 1 x)) us)"
      using False odd xs vy by (subst carry.simps) (simp add: perfect_trees_odd half [simplified])
    also have "\<dots> = Ok (perfect_trees sha256 (Suc j) (unat x div 2 + 1) (us @ vs @ ys))"
      using less.hyps [OF \<open>unat (drop_bit 1 x) < unat x\<close>, of us "Suc j" "vs @ ys"] xs less.prems(2)
      by (simp add: half [simplified])
    also have "perfect_trees sha256 (Suc j) (unat x div 2 + 1) (us @ vs @ ys) = perfect_trees sha256 j (unat x + 1) (xs @ ys)"
      using odd by (simp add: perfect_trees_even [of "unat x + 1"] xs(1) del: One_nat_def)
    finally show ?thesis .
  qed
qed

lemma fold_perfect_trees:
  assumes "length xs = n * 2 ^ j" "ys \<noteq> []" "length ys \<le> 2 ^ j"
  shows "foldl (\<lambda>result node. merkle_combine sha256 node result) (merkle_spec sha256 ys) (perfect_trees sha256 j n xs) =
    merkle_spec sha256 (xs @ ys)"
  using assms
proof (induction n arbitrary: j xs ys rule: less_induct)
  case (less n)
  consider "n = 0" | "n \<noteq> 0" "even n" | "odd n" by auto
  then show ?case
  proof cases
    case 1
    then show ?thesis using less.prems by (simp add: perfect_trees.simps)
  next
    case 2
    then show ?thesis using less.prems less.IH [of "n div 2" xs "Suc j" ys]
      by (simp add: perfect_trees_even)
  next
    case 3
    then have "n div 2 < n" by (auto elim: oddE)
    obtain us vs where xs: "xs = us @ vs" "length us = (n - 1) * 2 ^ j" "length us = n div 2 * 2 ^ Suc j" "length vs = 2 ^ j"
      using split_units [OF 3 less.prems(1)] by metis
    with less.prems less.IH [OF \<open>n div 2 < n\<close>, of us "Suc j" "vs @ ys"]
    show ?thesis
      by (simp add: perfect_trees_odd [OF 3] merkle_spec_append [of vs j])
  qed
qed

lemma root_perfect_trees:
  assumes "length xs = n * 2 ^ j" "n \<noteq> 0"
  shows "merkle_root sha256 \<lparr>merkle_i = i, merkle_stack = perfect_trees sha256 j n xs\<rparr> = merkle_spec sha256 xs"
  using assms
proof (induction n arbitrary: j rule: less_induct)
  case (less n)
  show ?case
  proof (cases "even n")
    case True
    then show ?thesis using less.prems less.IH [of "n div 2" "Suc j"]
      by (auto simp: perfect_trees_even elim!: evenE)
  next
    case False
    obtain us vs where xs: "xs = us @ vs" "length us = (n - 1) * 2 ^ j" "length us = n div 2 * 2 ^ Suc j" "length vs = 2 ^ j"
      using split_units [OF False less.prems(1)] by metis
    then have "vs \<noteq> []" by auto
    with xs fold_perfect_trees [of us "n div 2" "Suc j" vs sha256] show ?thesis
      by (simp add: perfect_trees_odd [OF False] merkle_root_def)
  qed
qed

lemma push_all_append:
  "push_all sha256 (xs @ ys) m = bind_result (push_all sha256 xs m) (push_all sha256 ys)"
proof (induction xs arbitrary: m)
  case (Cons x xs)
  then show ?case by (cases "push_impl sha256 x m") simp_all
qed simp

lemma push_all_trees:
  assumes "length xs < 2 ^ 64"
  shows "push_all sha256 xs empty_merkle =
    Ok \<lparr>merkle_i = of_nat (length xs), merkle_stack = perfect_trees sha256 0 (length xs) xs\<rparr>"
  using assms
proof (induction xs rule: rev_induct)
  case Nil
  then show ?case by (simp add: empty_merkle_def perfect_trees.simps)
next
  case (snoc x xs)
  have n: "unat (of_nat (length xs) :: u64) = length xs" using snoc.prems by (simp add: unat_of_nat take_bit_nat_eq_self)
  from carry_perfect_trees [of xs "of_nat (length xs)" 0 "[x]" sha256] snoc show ?case
    by (simp add: push_all_append push_impl_def n)
qed

text \<open>
  C24. \<open>Merkle::push_impl\<close> never reads below the bottom of its stack, and \<open>Merkle::root\<close> after pushing any
  fewer than \<open>2 ^ 64\<close> leaves is the root of the tree the header describes: the zero hash for no leaf, the
  leaf itself for one, and otherwise the combination of the roots of the first \<open>2 ^ k\<close> leaves, for the
  largest \<open>2 ^ k\<close> smaller than their number, and of the others.
\<close>

theorem merkle_root_refines:
  assumes "length xs < 2 ^ 64"
  shows "\<exists>m. push_all sha256 xs empty_merkle = Ok m \<and> merkle_root sha256 m = merkle_spec sha256 xs"
  using push_all_trees [OF assms] root_perfect_trees [of xs "length xs" 0 sha256 "of_nat (length xs)"]
  by (cases xs) (auto simp: empty_merkle_def merkle_root_def merkle_spec.simps)

theorem merkle_root_refines_witness:
  "\<exists>m. push_all (\<lambda>x. x) [[1], [2], [3]] empty_merkle = Ok m \<and>
     merkle_root (\<lambda>x. x) m = [1, 1, 1, 2, 3]"
proof -
  have "merkle_spec (\<lambda>x. x) [[1], [2], [3]] = [1, 1, 1, 2, 3]" by code_simp
  then show ?thesis using merkle_root_refines [of "[[1], [2], [3]]" "\<lambda>x. x"] by simp
qed

end
