(* ===== verification/Key_Values.thy ===== *)
theory Key_Values
  imports Blocks
begin

text \<open>
  Keys and rows of the key-value databases: \<open>compare_blob\<close> of
  libraries/psibase/common/include/psibase/blob.hpp, the key arithmetic of
  libraries/psibase/native/src/useTriedent.cpp, and a root of the trie library as the ordered list of its
  rows. The trie is used through the operations its header documents; \<open>key_value_trie\<close> states their laws.
\<close>

section \<open>Comparison\<close>

text \<open>\<open>memcmp\<close> of two arrays of the same size: negative, zero or positive.\<close>

fun memcmp :: "bytes \<Rightarrow> bytes \<Rightarrow> int" where
  "memcmp (a # as) (b # bs) = (if a = b then memcmp as bs else if a < b then -1 else 1)"
| "memcmp _ _ = 0"

definition compare_blob :: "bytes \<Rightarrow> bytes \<Rightarrow> int" where
  "compare_blob a b =
     (let min_size = min (length a) (length b);
          r = (if min_size = 0 then 0 else memcmp (take min_size a) (take min_size b))
      in if r \<noteq> 0 then r
         else if length a < length b then -1
         else if length a > length b then 1
         else 0)"

definition blob_less :: "bytes \<Rightarrow> bytes \<Rightarrow> bool" where
  "blob_less a b = (compare_blob a b < 0)"

lemma memcmp_take: "memcmp (take (min (length a) (length b)) a) (take (min (length a) (length b)) b) = memcmp a b"
  by (induction a b rule: memcmp.induct) auto

lemma compare_blob_Cons:
  "compare_blob (a # as) (b # bs) = (if a = b then compare_blob as bs else if a < b then -1 else 1)"
  using memcmp_take [of "a # as" "b # bs"] memcmp_take [of as bs]
  by (auto simp: compare_blob_def Let_def)

lemma compare_blob_sign:
  "(compare_blob a b < 0 \<longleftrightarrow> a < b) \<and> (compare_blob a b = 0 \<longleftrightarrow> a = b)"
proof (induction a b rule: memcmp.induct [case_names Both Left Right])
  case (Both a as b bs)
  then show ?case by (auto simp: compare_blob_Cons)
next
  case (Left b)
  then show ?case by (cases b) (auto simp: compare_blob_def)
next
  case (Right a)
  then show ?case by (cases a) (auto simp: compare_blob_def)
qed

lemma compare_blob_less [simp]: "compare_blob a b < 0 \<longleftrightarrow> a < b"
  and compare_blob_eq [simp]: "compare_blob a b = 0 \<longleftrightarrow> a = b"
  using compare_blob_sign [of a b] by auto

lemma compare_blob_greater [simp]: "0 < compare_blob a b \<longleftrightarrow> b < a"
  using compare_blob_less [of a b] compare_blob_eq [of a b] by (metis linorder_neqE not_less_iff_gr_or_eq)

lemma blob_less_iff [simp]: "blob_less a b \<longleftrightarrow> a < b"
  by (simp add: blob_less_def)

section \<open>Ranges of keys\<close>

text \<open>A range \<open>[lower, upper)\<close>, where an empty upper end stands for the end of the database.\<close>

definition in_range :: "bytes \<Rightarrow> bytes \<Rightarrow> bytes \<Rightarrow> bool" where
  "in_range lower upper k \<longleftrightarrow> lower \<le> k \<and> (upper = [] \<or> k < upper)"

definition keyExact :: "bytes \<Rightarrow> bytes" where
  "keyExact key = key"

definition keyNext :: "bytes \<Rightarrow> bytes" where
  "keyNext key = key @ [0]"

text \<open>The first key after those that start with the given one.\<close>

definition keyNextPrefix :: "bytes \<Rightarrow> bytes" where
  "keyNextPrefix key =
     (let result = rev (dropWhile (\<lambda>b. b = 0xff) (rev (keyExact key)))
      in if result = [] then [] else butlast result @ [last result + 1])"

lemma less_keyNext [simp]: "k < keyNext a \<longleftrightarrow> k \<le> a"
proof (induction a arbitrary: k)
  case Nil
  then show ?case by (cases k) (auto simp: keyNext_def)
next
  case (Cons b a)
  then show ?case by (cases k) (auto simp: keyNext_def)
qed

lemma keyNext_le: "keyNext a \<le> k \<longleftrightarrow> a < k"
  by (simp flip: not_less)

lemma keyNext_not_Nil [simp]: "keyNext a \<noteq> []"
  by (simp add: keyNext_def)

lemma in_range_keyNext: "in_range a (keyNext b) k \<longleftrightarrow> a \<le> k \<and> k \<le> b"
  by (simp add: in_range_def)

lemma keyNextPrefix_Cons:
  "keyNextPrefix (b # p) = (if keyNextPrefix p \<noteq> [] then b # keyNextPrefix p else if b = 0xff then [] else [b + 1])"
proof (cases "dropWhile (\<lambda>b. b = 0xff) (rev p) = []")
  case True
  then have "\<forall>b \<in> set p. b = 0xff" by (simp add: dropWhile_eq_Nil_conv)
  then have "dropWhile (\<lambda>b. b = 0xff) (rev p @ [b]) = dropWhile (\<lambda>b. b = 0xff) [b]"
    by (intro dropWhile_append2) simp
  with True show ?thesis by (simp add: keyNextPrefix_def keyExact_def Let_def)
next
  case False
  then obtain x where "x \<in> set (rev p)" "x \<noteq> 0xff" by (auto simp: dropWhile_eq_Nil_conv)
  with False show ?thesis
    by (auto simp: keyNextPrefix_def keyExact_def Let_def dropWhile_append1 butlast_append)
qed

lemma keyNextPrefix_Nil [simp]: "keyNextPrefix [] = []"
  by (simp add: keyNextPrefix_def keyExact_def)

lemma byte_less_Suc: "b \<noteq> 0xff \<Longrightarrow> a < b + 1 \<longleftrightarrow> a \<le> b" for a b :: u8
proof -
  assume "b \<noteq> 0xff"
  then have "unat b \<noteq> 255" by (simp add: word_unat_eq_iff)
  moreover have "unat b < 256" using unsigned_less [of b, where ?'a = nat] by simp
  ultimately have "unat (b + 1) = unat b + 1" by (simp add: unat_word_ariths)
  then show ?thesis by (simp add: word_less_nat_alt word_le_nat_alt less_Suc_eq_le)
qed

lemma byte_le_max: "a \<le> 0xff" for a :: u8
  using unsigned_less [of a, where ?'a = nat] by (simp add: word_le_nat_alt)

lemma in_range_prefix: "in_range p (keyNextPrefix p) k \<longleftrightarrow> prefix p k"
proof (induction p arbitrary: k)
  case Nil
  then show ?case by (simp add: in_range_def)
next
  case (Cons b p)
  show ?case
  proof (cases k)
    case (Cons c k')
    have "in_range (b # p) (keyNextPrefix (b # p)) (c # k') \<longleftrightarrow> b = c \<and> in_range p (keyNextPrefix p) k'"
      using byte_less_Suc [of b c] byte_le_max [of c]
      by (auto simp: in_range_def keyNextPrefix_Cons)
    with Cons.IH [of k'] Cons show ?thesis by simp
  qed (simp add: in_range_def)
qed

lemma prefix_le: "prefix p k \<Longrightarrow> p \<le> (k :: bytes)"
  using in_range_prefix [of p k] by (simp add: in_range_def)

section \<open>Rows\<close>

type_synonym rows = "(bytes, bytes) ordered_map"
type_synonym row = "bytes \<times> bytes"

definition kv_get :: "rows \<Rightarrow> bytes \<Rightarrow> bytes option" where
  "kv_get r k = map_of r k"

definition kv_greater_equal :: "rows \<Rightarrow> bytes \<Rightarrow> row option" where
  "kv_greater_equal r k = find (\<lambda>p. k \<le> fst p) r"

definition kv_less_than :: "rows \<Rightarrow> bytes \<Rightarrow> row option" where
  "kv_less_than r k = find (\<lambda>p. fst p < k) (rev r)"

definition kv_max :: "rows \<Rightarrow> bytes \<Rightarrow> row option" where
  "kv_max r p = find (\<lambda>q. prefix p (fst q)) (rev r)"

definition kv_upsert :: "'k \<Rightarrow> 'v \<Rightarrow> ('k :: linorder, 'v) ordered_map \<Rightarrow> ('k, 'v) ordered_map" where
  "kv_upsert k v r = map_insert k v (map_erase k r)"

definition kv_splice :: "rows \<Rightarrow> rows \<Rightarrow> bytes \<Rightarrow> bytes \<Rightarrow> rows" where
  "kv_splice r1 r2 lower upper =
     filter (\<lambda>p. fst p < lower) r1 @ filter (\<lambda>p. in_range lower upper (fst p)) r2 @
     filter (\<lambda>p. upper \<noteq> [] \<and> upper \<le> fst p) r1"

text \<open>\<open>[lower, upper)\<close> is not turned around.\<close>

definition range_ok :: "bytes \<Rightarrow> bytes \<Rightarrow> bool" where
  "range_ok lower upper \<longleftrightarrow> upper = [] \<or> lower \<le> upper"

lemma ordered_kv_upsert [omap]: "ordered r \<Longrightarrow> ordered (kv_upsert k v r)"
  by (simp add: kv_upsert_def omap)

lemma map_of_kv_upsert [omap]: "ordered r \<Longrightarrow> map_of (kv_upsert k v r) = (map_of r)(k \<mapsto> v)"
  by (simp add: kv_upsert_def omap)

lemma ordered_kv_splice [omap]:
  "ordered r1 \<Longrightarrow> ordered r2 \<Longrightarrow> range_ok lower upper \<Longrightarrow> ordered (kv_splice r1 r2 lower upper)"
  by (auto simp: kv_splice_def ordered_append ordered_filter in_range_def range_ok_def)

lemma map_of_filter_key: "map_of (filter (\<lambda>p. P (fst p)) r) k = (if P k then map_of r k else None)"
  by (induction r) auto

lemma map_of_kv_splice [omap]:
  assumes "range_ok lower upper"
  shows "map_of (kv_splice r1 r2 lower upper) k = (if in_range lower upper k then map_of r2 k else map_of r1 k)"
proof -
  have "map_of (kv_splice r1 r2 lower upper) k =
    ((map_of (filter (\<lambda>p. upper \<noteq> [] \<and> upper \<le> fst p) r1) ++
      map_of (filter (\<lambda>p. in_range lower upper (fst p)) r2)) ++ map_of (filter (\<lambda>p. fst p < lower) r1)) k"
    unfolding kv_splice_def map_of_append ..
  also have "\<dots> = (if k < lower then map_of r1 k else if in_range lower upper k then map_of r2 k else map_of r1 k)"
  proof -
    consider (lower) "k < lower" "\<not> (upper \<noteq> [] \<and> upper \<le> k)" "\<not> in_range lower upper k"
      | (inside) "\<not> k < lower" "\<not> (upper \<noteq> [] \<and> upper \<le> k)" "in_range lower upper k"
      | (upper) "\<not> k < lower" "upper \<noteq> [] \<and> upper \<le> k" "\<not> in_range lower upper k"
      using assms by (fastforce simp: in_range_def range_ok_def)
    then show ?thesis
    proof cases
      case upper
      then show ?thesis
        unfolding map_add_def map_of_filter_key [of "\<lambda>k. k < lower"] map_of_filter_key [of "in_range lower upper"]
          map_of_filter_key [of "\<lambda>k. upper \<noteq> [] \<and> upper \<le> k"]
        by simp
    qed (unfold map_add_def map_of_filter_key [of "\<lambda>k. k < lower"] map_of_filter_key [of "in_range lower upper"]
          map_of_filter_key [of "\<lambda>k. upper \<noteq> [] \<and> upper \<le> k"], auto split: option.split)
  qed
  also have "\<dots> = (if in_range lower upper k then map_of r2 k else map_of r1 k)"
    by (auto simp: in_range_def)
  finally show ?thesis .
qed

section \<open>The laws of the trie\<close>

text \<open>
  What clients of a trie rely on. \<open>content\<close> is the partial function a root stands for, and \<open>valid\<close> the roots
  the operations produce. The lemmas say that a read has the same result in every other root that has the
  same rows in the range the read depends on.
\<close>

locale key_value_trie =
  fixes content :: "'r \<Rightarrow> bytes \<Rightarrow> bytes option" and valid :: "'r \<Rightarrow> bool"
    and get :: "'r \<Rightarrow> bytes \<Rightarrow> bytes option"
    and greater_equal less_than max_prefix :: "'r \<Rightarrow> bytes \<Rightarrow> row option"
    and upsert :: "bytes \<Rightarrow> bytes \<Rightarrow> 'r \<Rightarrow> 'r" and remove :: "bytes \<Rightarrow> 'r \<Rightarrow> 'r"
    and splice :: "'r \<Rightarrow> 'r \<Rightarrow> bytes \<Rightarrow> bytes \<Rightarrow> 'r"
  assumes get_content: "get r k = content r k"
    and greater_equal_content: "valid r \<Longrightarrow> greater_equal r k = Some (a, v) \<longleftrightarrow>
      content r a = Some v \<and> k \<le> a \<and> (\<forall>b. k \<le> b \<longrightarrow> b < a \<longrightarrow> content r b = None)"
    and less_than_content: "valid r \<Longrightarrow> less_than r k = Some (a, v) \<longleftrightarrow>
      content r a = Some v \<and> a < k \<and> (\<forall>b. a < b \<longrightarrow> b < k \<longrightarrow> content r b = None)"
    and max_prefix_content: "valid r \<Longrightarrow> max_prefix r p = Some (a, v) \<longleftrightarrow>
      content r a = Some v \<and> prefix p a \<and> (\<forall>b. a < b \<longrightarrow> prefix p b \<longrightarrow> content r b = None)"
    and greater_equal_none: "valid r \<Longrightarrow> greater_equal r k = None \<longleftrightarrow> (\<forall>b. k \<le> b \<longrightarrow> content r b = None)"
    and less_than_none: "valid r \<Longrightarrow> less_than r k = None \<longleftrightarrow> (\<forall>b. b < k \<longrightarrow> content r b = None)"
    and max_prefix_none: "valid r \<Longrightarrow> max_prefix r p = None \<longleftrightarrow> (\<forall>b. prefix p b \<longrightarrow> content r b = None)"
    and upsert_content: "valid r \<Longrightarrow> content (upsert k v r) = (content r)(k \<mapsto> v)"
    and remove_content: "valid r \<Longrightarrow> content (remove k r) = (content r)(k := None)"
    and splice_content: "valid r \<Longrightarrow> valid s \<Longrightarrow> range_ok lower upper \<Longrightarrow>
      content (splice r s lower upper) = (\<lambda>k. if in_range lower upper k then content s k else content r k)"
    and upsert_valid: "valid r \<Longrightarrow> valid (upsert k v r)"
    and remove_valid: "valid r \<Longrightarrow> valid (remove k r)"
    and splice_valid: "valid r \<Longrightarrow> valid s \<Longrightarrow> range_ok lower upper \<Longrightarrow> valid (splice r s lower upper)"
begin

definition agree :: "'r \<Rightarrow> 'r \<Rightarrow> bytes \<Rightarrow> bytes \<Rightarrow> bool" where
  "agree r s lower upper \<longleftrightarrow> (\<forall>k. in_range lower upper k \<longrightarrow> content r k = content s k)"

lemma greater_equal_stable:
  assumes "valid r" "valid s" "greater_equal r k = Some (a, v)" "agree r s k (keyNext a)"
  shows "greater_equal s k = Some (a, v)"
  using assms by (auto simp: greater_equal_content agree_def in_range_keyNext)

lemma less_than_stable:
  assumes "valid r" "valid s" "less_than r k = Some (a, v)" "agree r s a k"
  shows "less_than s k = Some (a, v)"
  using assms by (auto simp: less_than_content agree_def in_range_def)

lemma max_prefix_stable:
  assumes "valid r" "valid s" "max_prefix r p = Some (a, v)" "agree r s a (keyNextPrefix p)"
  shows "max_prefix s p = Some (a, v)"
proof -
  have a: "content r a = Some v" "prefix p a" and above: "\<forall>b. a < b \<longrightarrow> prefix p b \<longrightarrow> content r b = None"
    using assms(1,3) by (auto simp: max_prefix_content)
  have "in_range a (keyNextPrefix p) b" if "a \<le> b" "prefix p b" for b
    using that in_range_prefix [of p b] by (auto simp: in_range_def)
  with assms(4) have "content r b = content s b" if "a \<le> b" "prefix p b" for b using that by (simp add: agree_def)
  with a above assms(2) show ?thesis by (simp add: max_prefix_content) 
qed

lemma max_prefix_none_stable:
  assumes "valid r" "valid s" "max_prefix r p = None" "agree r s p (keyNextPrefix p)"
  shows "max_prefix s p = None"
  using assms by (auto simp: max_prefix_none agree_def in_range_prefix)

end

lemma ordered_find_ge:
  assumes "ordered r"
  shows "find (\<lambda>p. k \<le> fst p) r = Some (a, v) \<longleftrightarrow>
    map_of r a = Some v \<and> k \<le> a \<and> (\<forall>b. k \<le> b \<longrightarrow> b < a \<longrightarrow> map_of r b = None)"
  using assms
proof (induction r)
  case (Cons p r)
  obtain x y where p: "p = (x, y)" by force
  show ?case
  proof (cases "k \<le> x")
    case True
    have "map_of r b = None" if "b < x" for b
      using Cons.prems p that by (fastforce simp: map_of_eq_None_iff)
    moreover have "x < b" if "map_of r b = Some w" for b w
      using Cons.prems p that by (fastforce dest: map_of_SomeD)
    ultimately show ?thesis using True p by (auto split: if_splits)
  next
    case False
    with Cons p show ?thesis by auto
  qed
qed simp

lemma ordered_find_last:
  assumes "ordered r"
  shows "find (\<lambda>p. P (fst p)) (rev r) = Some (a, v) \<longleftrightarrow>
    map_of r a = Some v \<and> P a \<and> (\<forall>b. a < b \<longrightarrow> P b \<longrightarrow> map_of r b = None)"
proof (cases "find (\<lambda>p. P (fst p)) (rev r)")
  case None
  then have "\<forall>p \<in> set r. \<not> P (fst p)" unfolding find_None_iff set_rev by blast
  with None show ?thesis by (force dest: map_of_SomeD)
next
  case (Some q)
  then obtain i where i: "i < length r" "P (fst (rev r ! i))" "q = rev r ! i" "\<forall>j < i. \<not> P (fst (rev r ! j))"
    by (auto simp: find_Some_iff)
  let ?n = "length r - Suc i"
  have q: "q = r ! ?n" "?n < length r" using i by (auto simp: rev_nth)
  have above: "\<not> P (fst (r ! j))" if "?n < j" "j < length r" for j
    using i(4) [rule_format, of "length r - Suc j"] that i(1) by (auto simp: rev_nth)
  have later: "\<not> P b" if "(b, w) \<in> set r" "fst q < b" for b w
  proof -
    note in_r = that(1)
    obtain j where j: "j < length r" "r ! j = (b, w)" using in_r by (metis in_set_conv_nth)
    have "\<not> j \<le> ?n"
    proof
      assume "j \<le> ?n"
      then have "fst (r ! j) \<le> fst (r ! ?n)"
        using assms q(2) sorted_wrt_nth_less [of "(<)" "map fst r" j ?n]
        by (cases "j = ?n") (auto simp: ordered_def)
      with that(2) j q(1) show False by simp
    qed
    with above [of j] j show ?thesis by simp
  qed
  have q_in: "map_of r (fst q) = Some (snd q)" using assms q by (auto simp: ordered_map_of)
  have "P (fst q)" using i by simp
  show ?thesis
  proof
    assume "find (\<lambda>p. P (fst p)) (rev r) = Some (a, v)"
    with Some q_in \<open>P (fst q)\<close> later show "map_of r a = Some v \<and> P a \<and> (\<forall>b. a < b \<longrightarrow> P b \<longrightarrow> map_of r b = None)"
      by (metis fst_conv map_of_SomeD not_None_eq option.inject snd_conv)
  next
    assume a: "map_of r a = Some v \<and> P a \<and> (\<forall>b. a < b \<longrightarrow> P b \<longrightarrow> map_of r b = None)"
    then have "\<not> a < fst q" using q_in \<open>P (fst q)\<close> by (metis option.distinct(1))
    moreover have "\<not> fst q < a" using a later by (metis map_of_SomeD)
    ultimately have "a = fst q" by simp
    with Some a q_in show "find (\<lambda>p. P (fst p)) (rev r) = Some (a, v)" by (cases q) auto
  qed
qed

lemma find_none_keys: "find (\<lambda>p. P (fst p)) r = None \<longleftrightarrow> (\<forall>b. P b \<longrightarrow> map_of r b = None)"
  unfolding find_None_iff map_of_eq_None_iff by blast

interpretation trie: key_value_trie map_of ordered kv_get kv_greater_equal kv_less_than kv_max
  kv_upsert map_erase kv_splice
proof
  show "kv_get r k = map_of r k" for r k by (simp add: kv_get_def)
  show "ordered r \<Longrightarrow> kv_greater_equal r k = Some (a, v) \<longleftrightarrow>
      map_of r a = Some v \<and> k \<le> a \<and> (\<forall>b. k \<le> b \<longrightarrow> b < a \<longrightarrow> map_of r b = None)" for r k a v
    by (simp add: kv_greater_equal_def ordered_find_ge)
  show "ordered r \<Longrightarrow> kv_less_than r k = Some (a, v) \<longleftrightarrow>
      map_of r a = Some v \<and> a < k \<and> (\<forall>b. a < b \<longrightarrow> b < k \<longrightarrow> map_of r b = None)" for r k a v
    by (simp add: kv_less_than_def ordered_find_last [where P = "\<lambda>x. x < k"])
  show "ordered r \<Longrightarrow> kv_max r p = Some (a, v) \<longleftrightarrow>
      map_of r a = Some v \<and> prefix p a \<and> (\<forall>b. a < b \<longrightarrow> prefix p b \<longrightarrow> map_of r b = None)" for r p a v
    by (simp add: kv_max_def ordered_find_last [where P = "prefix p"])
  show "kv_greater_equal r k = None \<longleftrightarrow> (\<forall>b. k \<le> b \<longrightarrow> map_of r b = None)" for r k
    by (simp add: kv_greater_equal_def find_none_keys [where P = "\<lambda>x. k \<le> x"])
  show "kv_less_than r k = None \<longleftrightarrow> (\<forall>b. b < k \<longrightarrow> map_of r b = None)" for r k
    using find_none_keys [where P = "\<lambda>x. x < k" and r = "rev r"] by (simp add: kv_less_than_def map_of_eq_None_iff)
  show "kv_max r p = None \<longleftrightarrow> (\<forall>b. prefix p b \<longrightarrow> map_of r b = None)" for r p
    using find_none_keys [where P = "prefix p" and r = "rev r"] by (simp add: kv_max_def map_of_eq_None_iff)
qed (auto simp: omap fun_eq_iff)

end
