(* ===== verification/Sockets.thy ===== *)
theory Sockets
  imports Key_Values
begin

text \<open>
  The socket table: libraries/psibase/native/include/psibase/Socket.hpp and src/Socket.cpp. A
  \<open>shared_ptr<Socket>\<close> is an address in a heap of sockets, \<open>Sockets::sockets\<close> a list of optional addresses
  indexed by file descriptor. The virtual functions of a socket and the rows written to the socket table
  are events, listed in the order in which they happen; \<open>SocketInfo\<close> is kept in its serialised form.
\<close>

section \<open>Data\<close>

record socket =
  sock_id :: nat
  sock_info :: bytes
  sock_canAutoClose :: bool
  sock_supportsP2P :: bool
  sock_attached :: bool
  sock_closed :: bool
  forceClose :: bool
  notifyClose :: bool
  autoClosing :: bool
  receiving :: bool
  closeLocks :: u16
  pendingRecv :: bool

type_synonym socket_ref = nat

record sockets =
  socket_heap :: "socket list"
  socket_table :: "socket_ref option list"
  socket_available :: "bool list"
  socket_stopped :: bool

datatype socket_event =
  On_Close socket_ref | On_Lock socket_ref | Enable_P2P socket_ref | Abandon socket_ref
  | Send socket_ref bytes u32 | Put_Row nat bytes | Remove_Row nat

record socket_change =
  change_socket :: socket_ref
  change_mask :: u32
  change_value :: u32

text \<open>\<open>SocketAutoCloseSet\<close>: a \<open>std::set\<close> of descriptors.\<close>

type_synonym auto_close_set = "nat list"

text \<open>A \<open>CloseLock\<close> that holds a lock has the descriptor of the socket.\<close>

type_synonym close_lock = "nat option"

datatype socket_errno = Errno_ok | Errno_acces | Errno_badf | Errno_notsup

definition flag_notifyClose :: u32 where "flag_notifyClose = 1"
definition flag_autoClose :: u32 where "flag_autoClose = 2"
definition flag_recv :: u32 where "flag_recv = 4"
definition flag_lockClose :: u32 where "flag_lockClose = 8"
definition setP2PFlag :: u32 where "setP2PFlag = 16"

definition has_flag :: "u32 \<Rightarrow> u32 \<Rightarrow> bool" where
  "has_flag x flag = (x AND flag \<noteq> 0)"

definition unreservedStart :: nat where
  "unreservedStart = 2"

section \<open>The state of one socket\<close>

definition closeRequested :: "socket \<Rightarrow> bool" where
  "closeRequested s = (forceClose s \<or> autoClosing s)"

definition isClosing :: "socket \<Rightarrow> bool" where
  "isClosing s = (closeRequested s \<and> closeLocks s = 0)"

definition tryConsumeRecv :: "socket \<Rightarrow> bool \<times> socket" where
  "tryConsumeRecv s =
     (if receiving s \<and> pendingRecv s \<and> \<not> closeRequested s
      then (True, s\<lparr>receiving := False, pendingRecv := False, closeLocks := closeLocks s + 1\<rparr>)
      else (False, s))"

definition tryClose :: "socket \<Rightarrow> bool \<times> socket" where
  "tryClose s = (if isClosing s \<and> \<not> sock_closed s then (True, s\<lparr>sock_closed := True\<rparr>) else (False, s))"

definition at_socket :: "sockets \<Rightarrow> socket_ref \<Rightarrow> socket" where
  "at_socket w r = socket_heap w ! r"

definition set_socket :: "socket_ref \<Rightarrow> socket \<Rightarrow> sockets \<Rightarrow> sockets" where
  "set_socket r s w = w\<lparr>socket_heap := (socket_heap w)[r := s]\<rparr>"

text \<open>The socket at a descriptor, if it is in range and open.\<close>

definition lookup_socket :: "sockets \<Rightarrow> int \<Rightarrow> socket_ref option" where
  "lookup_socket w fd =
     (if fd < 0 \<or> int (length (socket_table w)) \<le> fd then None else socket_table w ! nat fd)"

section \<open>Flags\<close>

definition insert_id :: "nat \<Rightarrow> auto_close_set \<Rightarrow> bool \<times> auto_close_set" where
  "insert_id i own = (if i \<in> set own then (False, own) else (True, insort i own))"

definition erase_id :: "nat \<Rightarrow> auto_close_set \<Rightarrow> bool \<times> auto_close_set" where
  "erase_id i own = (if i \<in> set own then (True, remove1 i own) else (False, own))"

definition updateSocketFlags :: "socket \<Rightarrow> u32 \<Rightarrow> u32 \<Rightarrow> auto_close_set \<Rightarrow> socket \<times> auto_close_set" where
  "updateSocketFlags s flags v own =
     (let (s, own) =
            (if has_flag flags flag_lockClose then
               (if has_flag v flag_lockClose then
                  (let (inserted, own') = insert_id (sock_id s) own
                   in ((if inserted then s\<lparr>closeLocks := closeLocks s + 1\<rparr> else s), own'))
                else
                  (let (erased, own') = erase_id (sock_id s) own
                   in ((if erased then s\<lparr>closeLocks := closeLocks s - 1\<rparr> else s), own')))
             else (s, own));
          s = (if has_flag flags flag_notifyClose then s\<lparr>notifyClose := has_flag v flag_notifyClose\<rparr> else s);
          s = (if has_flag flags flag_autoClose then s\<lparr>autoClosing := has_flag v flag_autoClose\<rparr> else s);
          s = (if has_flag flags flag_recv then s\<lparr>receiving := has_flag v flag_recv\<rparr> else s)
      in (s, own))"

definition checkSocketFlags :: "socket \<Rightarrow> socket_errno" where
  "checkSocketFlags s = (if isClosing s then Errno_acces else Errno_ok)"

text \<open>\<open>setFlags\<close>, where \<open>diff\<close> is the list of pending changes inside a subjective transaction.\<close>

definition setFlags ::
  "int \<Rightarrow> u32 \<Rightarrow> u32 \<Rightarrow> auto_close_set \<Rightarrow> socket_change list option \<Rightarrow> sockets \<Rightarrow>
     socket_errno \<times> auto_close_set \<times> socket_change list option \<times> sockets \<times> socket_event list"
where
  "setFlags fd flags v own diff w =
     (case lookup_socket w fd of
        None \<Rightarrow> (Errno_badf, own, diff, w, [])
      | Some r \<Rightarrow>
          if \<not> sock_canAutoClose (at_socket w r) then (Errno_notsup, own, diff, w, [])
          else if checkSocketFlags (at_socket w r) \<noteq> Errno_ok
          then (checkSocketFlags (at_socket w r), own, diff, w, [])
          else
            (case diff of
               Some changes \<Rightarrow>
                 (Errno_ok, own, Some (changes @ [\<lparr>change_socket = r, change_mask = ucast (ucast flags :: u8),
                    change_value = ucast (ucast v :: u8)\<rparr>]), w, [])
             | None \<Rightarrow>
                 (let (s, own) = updateSocketFlags (at_socket w r) flags v own;
                      (acquireLock, s) = tryConsumeRecv s;
                      (close, s) = tryClose s
                  in (Errno_ok, own, None, set_socket r s w,
                      (if acquireLock then [On_Lock r] else []) @ (if close then [On_Close r] else [])))))"

definition socket_enableP2P ::
  "int \<Rightarrow> socket_change list option \<Rightarrow> sockets \<Rightarrow> socket_errno \<times> socket_change list option \<times> socket_event list"
where
  "socket_enableP2P fd diff w =
     (case lookup_socket w fd of
        None \<Rightarrow> (Errno_badf, diff, [])
      | Some r \<Rightarrow>
          if \<not> sock_supportsP2P (at_socket w r) then (Errno_notsup, diff, [])
          else if isClosing (at_socket w r) then (Errno_acces, diff, [])
          else
            (case diff of
               Some changes \<Rightarrow>
                 (Errno_ok, Some (changes @ [\<lparr>change_socket = r, change_mask = setP2PFlag, change_value = setP2PFlag\<rparr>]), [])
             | None \<Rightarrow> (Errno_ok, None, [Enable_P2P r])))"

section \<open>Applying the changes of a transaction\<close>

primrec update_all :: "socket_change list \<Rightarrow> auto_close_set \<Rightarrow> sockets \<Rightarrow> auto_close_set \<times> sockets" where
  "update_all [] own w = (own, w)"
| "update_all (c # cs) own w =
     (let (s, own) = updateSocketFlags (at_socket w (change_socket c)) (change_mask c) (change_value c) own
      in update_all cs own (set_socket (change_socket c) s w))"

text \<open>The second loop: every change keeps only what has to be done for it once the table is unlocked.\<close>

primrec process_pending :: "socket_change list \<Rightarrow> sockets \<Rightarrow> socket_change list \<times> sockets" where
  "process_pending [] w = ([], w)"
| "process_pending (c # cs) w =
     (let v = change_value c AND setP2PFlag;
          (acquired, s) = tryConsumeRecv (at_socket w (change_socket c));
          v = (if acquired then v OR flag_recv else v);
          (close, s) = tryClose s;
          v = (if close then v OR flag_lockClose else v);
          (cs', w') = process_pending cs (set_socket (change_socket c) s w)
      in (c\<lparr>change_value := v\<rparr> # cs', w'))"

definition change_events :: "socket_change \<Rightarrow> socket_event list" where
  "change_events c =
     (if has_flag (change_value c) setP2PFlag then [Enable_P2P (change_socket c)] else []) @
     (if has_flag (change_value c) flag_recv then [On_Lock (change_socket c)] else []) @
     (if has_flag (change_value c) flag_lockClose then [On_Close (change_socket c)] else [])"

definition applyChanges ::
  "socket_change list \<Rightarrow> auto_close_set \<Rightarrow> sockets \<Rightarrow> bool \<times> auto_close_set \<times> sockets \<times> socket_event list"
where
  "applyChanges diff own w =
     (if list_ex (\<lambda>c. checkSocketFlags (at_socket w (change_socket c)) \<noteq> Errno_ok) diff then (False, own, w, [])
      else
        (let (own, w) = update_all diff own w;
             (diff, w) = process_pending diff w
         in (True, own, w, concat (map change_events diff))))"

section \<open>Locks\<close>

definition asyncClose :: "socket_ref \<Rightarrow> sockets \<Rightarrow> sockets \<times> socket_event list" where
  "asyncClose r w =
     (let (close, s) = tryClose ((at_socket w r)\<lparr>forceClose := True\<rparr>)
      in (set_socket r s w, if close then [On_Close r] else []))"

definition lockRecv :: "socket_ref \<Rightarrow> sockets \<Rightarrow> close_lock \<times> sockets" where
  "lockRecv r w =
     (let s = at_socket w r
      in if sock_closed s then (None, w)
         else if receiving s
         then (Some (sock_id s), set_socket r (s\<lparr>receiving := False, closeLocks := closeLocks s + 1\<rparr>) w)
         else (None, set_socket r (s\<lparr>pendingRecv := True\<rparr>) w))"

definition lockClose :: "socket_ref \<Rightarrow> sockets \<Rightarrow> close_lock \<times> sockets" where
  "lockClose r w =
     (let s = at_socket w r
      in if \<not> sock_closed s
         then (Some (sock_id s), set_socket r (s\<lparr>closeLocks := closeLocks s + 1\<rparr>) w)
         else (None, w))"

text \<open>
  The destructor of a \<open>CloseLock\<close> in its two parts: the counter is decremented with the table locked, and
  \<open>tryClose\<close> runs after it is unlocked. An empty slot is a null pointer.
\<close>

definition release_lock :: "nat \<Rightarrow> sockets \<Rightarrow> (socket_ref option \<times> sockets) result" where
  "release_lock fd w =
     (if socket_stopped w then Ok (None, w)
      else
        (case lookup_socket w (int fd) of
           None \<Rightarrow> Err Undefined
         | Some r \<Rightarrow>
             Ok (Some r, set_socket r ((at_socket w r)\<lparr>closeLocks := closeLocks (at_socket w r) - 1\<rparr>) w)))"

definition close_released :: "socket_ref \<Rightarrow> sockets \<Rightarrow> sockets \<times> socket_event list" where
  "close_released r w =
     (let (close, s) = tryClose (at_socket w r)
      in (set_socket r s w, if close then [On_Close r] else []))"

definition setOwner :: "close_lock \<Rightarrow> auto_close_set \<Rightarrow> close_lock \<times> auto_close_set" where
  "setOwner l own = (None, snd (insert_id (the l) own))"

text \<open>\<open>SocketAutoCloseSet::close\<close>. When the table has been stopped the set is left as it is.\<close>

primrec close_ids :: "nat list \<Rightarrow> sockets \<Rightarrow> (socket_ref list \<times> sockets) result" where
  "close_ids [] w = Ok ([], w)"
| "close_ids (i # is) w =
     (case lookup_socket w (int i) of
        None \<Rightarrow> Err Undefined
      | Some r \<Rightarrow>
          (let s = at_socket w r;
               (close, s) = tryClose (s\<lparr>closeLocks := closeLocks s - 1\<rparr>)
           in bind_result (close_ids is (set_socket r s w)) (\<lambda>(rs, w).
                Ok (if close then r # rs else rs, w))))"

definition close_owned :: "auto_close_set \<Rightarrow> sockets \<Rightarrow> (auto_close_set \<times> sockets \<times> socket_event list) result" where
  "close_owned own w =
     (if socket_stopped w then Ok (own, w, [])
      else bind_result (close_ids own w) (\<lambda>(toClose, w). Ok ([], w, map On_Close toClose)))"

definition owns :: "auto_close_set \<Rightarrow> socket_ref \<Rightarrow> sockets \<Rightarrow> bool" where
  "owns own r w =
     (let s = at_socket w r
      in sock_id s \<in> set own \<and> autoClosing s \<and> lookup_socket w (int (sock_id s)) = Some r)"

section \<open>The table\<close>

text \<open>\<open>dynamic_bitset::find_next(unreservedStart - 1)\<close>: the first free descriptor that is not reserved.\<close>

definition find_available :: "bool list \<Rightarrow> nat option" where
  "find_available av = find (\<lambda>i. av ! i) [unreservedStart ..< length av]"

definition attach_socket :: "socket_ref \<Rightarrow> nat \<Rightarrow> bool \<Rightarrow> sockets \<Rightarrow> sockets" where
  "attach_socket r i owned w =
     (let s = (at_socket w r)\<lparr>sock_id := i, sock_attached := True\<rparr>
      in set_socket r (if owned then s\<lparr>autoClosing := True, closeLocks := 1\<rparr> else s) w)"

definition add_socket ::
  "socket_ref \<Rightarrow> auto_close_set option \<Rightarrow> sockets \<Rightarrow> (auto_close_set option \<times> sockets \<times> socket_event list) result"
where
  "add_socket r own w =
     bind_result (check (\<not> socket_stopped w) ''Shutting down'') (\<lambda>_.
       bind_result
         (case find_available (socket_available w) of
            Some pos \<Rightarrow> Ok (pos, w\<lparr>socket_table := (socket_table w)[pos := Some r],
                                 socket_available := (socket_available w)[pos := False]\<rparr>)
          | None \<Rightarrow>
              bind_result (check (length (socket_table w) \<le> 2 ^ 31 - 1) ''Too many open sockets'') (\<lambda>_.
                Ok (length (socket_table w), w\<lparr>socket_table := socket_table w @ [Some r],
                                              socket_available := socket_available w @ [False]\<rparr>)))
         (\<lambda>(i, w).
            Ok (map_option (\<lambda>own. snd (insert_id i own)) own, attach_socket r i (own \<noteq> None) w,
                [Put_Row i (sock_info (at_socket w r))])))"

definition set_reserved :: "int \<Rightarrow> socket_ref \<Rightarrow> sockets \<Rightarrow> (sockets \<times> socket_event list) result" where
  "set_reserved fd r w =
     bind_result (check (\<not> socket_stopped w) ''Shutting down'') (\<lambda>_.
     bind_result (check (0 \<le> fd) ''invalid fd'') (\<lambda>_.
     bind_result (check (fd < int unreservedStart) ''Can only set reserved socket numbers'') (\<lambda>_.
       (let pos = nat fd;
            w = (if length (socket_available w) < pos + 1
                 then w\<lparr>socket_available := socket_available w @ replicate (pos + 1 - length (socket_available w)) True,
                        socket_table := take (pos + 1) (socket_table w @ replicate (pos + 1) None)\<rparr>
                 else w)
        in if \<not> socket_available w ! pos then
             (case socket_table w ! pos of
                None \<Rightarrow> Err Undefined
              | Some old \<Rightarrow>
                  bind_result (check (sock_info (at_socket w old) = sock_info (at_socket w r))
                                 ''Replacing socket does not match'') (\<lambda>_.
                    (let w = set_socket old ((at_socket w old)\<lparr>sock_attached := False\<rparr>) w;
                         w = w\<lparr>socket_table := (socket_table w)[pos := Some r]\<rparr>
                     in Ok (attach_socket r pos False w, []))))
           else
             (let w = w\<lparr>socket_table := (socket_table w)[pos := Some r],
                        socket_available := (socket_available w)[pos := False]\<rparr>
              in Ok (attach_socket r pos False w, [Put_Row pos (sock_info (at_socket w r))]))))))"

text \<open>\<open>Sockets::remove\<close>, and \<open>Socket::remove\<close> and the destructor of a socket.\<close>

definition sockets_remove :: "socket_ref \<Rightarrow> sockets \<Rightarrow> sockets \<times> socket_event list" where
  "sockets_remove r w =
     (let s = at_socket w r
      in if lookup_socket w (int (sock_id s)) = Some r
         then ((set_socket r (s\<lparr>sock_closed := True\<rparr>) w)\<lparr>socket_table := (socket_table w)[sock_id s := None]\<rparr>,
               [Remove_Row (sock_id s)])
         else (w, []))"

definition socket_remove :: "socket_ref \<Rightarrow> sockets \<Rightarrow> sockets \<times> socket_event list" where
  "socket_remove r w =
     (let s = at_socket w r
      in if sock_attached s then
           (let w = (set_socket r (s\<lparr>sock_attached := False\<rparr>) w)
                      \<lparr>socket_available := (socket_available w)[sock_id s := True]\<rparr>
            in ((if \<not> socket_stopped w then w\<lparr>socket_table := (socket_table w)[sock_id s := None]\<rparr> else w),
                [Remove_Row (sock_id s)]))
         else (w, []))"

definition destroy_socket :: "socket_ref \<Rightarrow> sockets \<Rightarrow> sockets" where
  "destroy_socket r w =
     (let s = at_socket w r
      in if sock_attached s then w\<lparr>socket_available := (socket_available w)[sock_id s := True]\<rparr> else w)"

definition writeInfo :: "socket_ref \<Rightarrow> sockets \<Rightarrow> socket_event list" where
  "writeInfo r w = (let s = at_socket w r in if sock_attached s then [Put_Row (sock_id s) (sock_info s)] else [])"

definition replace_socket :: "socket_ref \<Rightarrow> socket_ref \<Rightarrow> sockets \<Rightarrow> sockets \<times> socket_event list" where
  "replace_socket r other w =
     (let s = at_socket w r
      in if sock_attached s then
           (let t = (at_socket w other)\<lparr>sock_id := sock_id s, sock_attached := True, notifyClose := notifyClose s,
                       autoClosing := autoClosing s, receiving := receiving s, closeLocks := closeLocks s\<rparr>;
                w = set_socket other t (set_socket r (s\<lparr>sock_attached := False\<rparr>) w)
            in (w\<lparr>socket_table := (socket_table w)[sock_id s := Some other]\<rparr>, [Put_Row (sock_id s) (sock_info t)]))
         else (w, []))"

definition send_socket :: "int \<Rightarrow> bytes \<Rightarrow> u32 \<Rightarrow> sockets \<Rightarrow> socket_errno \<times> socket_event list" where
  "send_socket fd buf flg w =
     (case lookup_socket w fd of None \<Rightarrow> (Errno_badf, []) | Some r \<Rightarrow> (Errno_ok, [Send r buf flg]))"

definition shutdown_sockets :: "sockets \<Rightarrow> sockets \<times> socket_event list" where
  "shutdown_sockets w =
     (w\<lparr>socket_stopped := True, socket_table := []\<rparr>,
      concat (map (\<lambda>e. case e of None \<Rightarrow> [] | Some r \<Rightarrow> [Abandon r]) (socket_table w)))"

end
