(* ===== verification/Socket_Safety.thy ===== *)
theory Socket_Safety
  imports Sockets
begin

text \<open>
  What the socket table guarantees: the counter of close locks is the number of contexts that hold one, a
  socket that is held is not closed, and its \<open>onClose\<close> is called once. The steps are the operations of
  \<open>Sockets\<close>, each of which runs with the table locked; releasing a lock is one step here, and the last
  section shows what happens when its two parts are not.
\<close>

section \<open>Steps\<close>

text \<open>The table together with the \<open>SocketAutoCloseSet\<close>s and \<open>CloseLock\<close>s that exist, and the events so far.\<close>

record socket_world =
  world_sockets :: sockets
  world_owners :: "auto_close_set list"
  world_locks :: "nat list"
  world_events :: "socket_event list"

abbreviation world_socket :: "socket_world \<Rightarrow> socket_ref \<Rightarrow> socket" where
  "world_socket w r \<equiv> at_socket (world_sockets w) r"

definition holders :: "socket_world \<Rightarrow> nat \<Rightarrow> nat" where
  "holders w i = sum_list (map (\<lambda>own. of_bool (i \<in> set own)) (world_owners w)) + count_list (world_locks w) i"

text \<open>The socket at \<open>r\<close> is in the table.\<close>

definition in_table :: "socket_world \<Rightarrow> socket_ref \<Rightarrow> bool" where
  "in_table w r \<longleftrightarrow> lookup_socket (world_sockets w) (int (sock_id (world_socket w r))) = Some r"

definition new_socket :: "socket \<Rightarrow> bool" where
  "new_socket s \<longleftrightarrow> sock_canAutoClose s \<and> \<not> sock_attached s \<and> \<not> sock_closed s \<and> closeLocks s = 0"

definition lock_tokens :: "sockets \<Rightarrow> socket_event list \<Rightarrow> nat list" where
  "lock_tokens w evs = concat (map (\<lambda>e. case e of On_Lock r \<Rightarrow> [sock_id (at_socket w r)] | _ \<Rightarrow> []) evs)"

text \<open>
  \<open>onLock\<close> hands a lock to the socket. A transaction applies changes to sockets that are still in the table.
\<close>

inductive socket_act :: "socket_world \<Rightarrow> socket_world \<Rightarrow> bool" where
  act_add: "new_socket s \<Longrightarrow> k < length (world_owners w) \<Longrightarrow>
    add_socket (length (socket_heap (world_sockets w))) (Some (world_owners w ! k))
      ((world_sockets w)\<lparr>socket_heap := socket_heap (world_sockets w) @ [s]\<rparr>) = Ok (Some own, ws, evs) \<Longrightarrow>
    socket_act w (w\<lparr>world_sockets := ws, world_owners := (world_owners w)[k := own], world_events := world_events w @ evs\<rparr>)"
| act_flags: "k < length (world_owners w) \<Longrightarrow>
    setFlags fd flags v (world_owners w ! k) None (world_sockets w) = (err, own, diff, ws, evs) \<Longrightarrow>
    socket_act w (w\<lparr>world_sockets := ws, world_owners := (world_owners w)[k := own],
      world_locks := world_locks w @ lock_tokens ws evs, world_events := world_events w @ evs\<rparr>)"
| act_apply: "k < length (world_owners w) \<Longrightarrow> \<forall>c \<in> set diff. in_table w (change_socket c) \<Longrightarrow>
    applyChanges diff (world_owners w ! k) (world_sockets w) = (ok, own, ws, evs) \<Longrightarrow>
    socket_act w (w\<lparr>world_sockets := ws, world_owners := (world_owners w)[k := own],
      world_locks := world_locks w @ lock_tokens ws evs, world_events := world_events w @ evs\<rparr>)"
| act_async_close: "in_table w r \<Longrightarrow> asyncClose r (world_sockets w) = (ws, evs) \<Longrightarrow>
    socket_act w (w\<lparr>world_sockets := ws, world_events := world_events w @ evs\<rparr>)"
| act_lock_recv: "in_table w r \<Longrightarrow> lockRecv r (world_sockets w) = (l, ws) \<Longrightarrow>
    socket_act w (w\<lparr>world_sockets := ws, world_locks := world_locks w @ (case l of None \<Rightarrow> [] | Some i \<Rightarrow> [i])\<rparr>)"
| act_lock_close: "in_table w r \<Longrightarrow> lockClose r (world_sockets w) = (l, ws) \<Longrightarrow>
    socket_act w (w\<lparr>world_sockets := ws, world_locks := world_locks w @ (case l of None \<Rightarrow> [] | Some i \<Rightarrow> [i])\<rparr>)"
| act_unlock: "i \<in> set (world_locks w) \<Longrightarrow> release_lock i (world_sockets w) = Ok (Some r, ws) \<Longrightarrow>
    close_released r ws = (ws', evs) \<Longrightarrow>
    socket_act w (w\<lparr>world_sockets := ws', world_locks := remove1 i (world_locks w), world_events := world_events w @ evs\<rparr>)"
| act_set_owner: "i \<in> set (world_locks w) \<Longrightarrow> k < length (world_owners w) \<Longrightarrow> i \<notin> set (world_owners w ! k) \<Longrightarrow>
    setOwner (Some i) (world_owners w ! k) = (l, own) \<Longrightarrow>
    socket_act w (w\<lparr>world_owners := (world_owners w)[k := own], world_locks := remove1 i (world_locks w)\<rparr>)"
| act_close_owned: "k < length (world_owners w) \<Longrightarrow>
    close_owned (world_owners w ! k) (world_sockets w) = Ok (own, ws, evs) \<Longrightarrow>
    socket_act w (w\<lparr>world_sockets := ws, world_owners := (world_owners w)[k := own], world_events := world_events w @ evs\<rparr>)"
| act_remove: "r < length (socket_heap (world_sockets w)) \<Longrightarrow> sock_closed (world_socket w r) \<Longrightarrow>
    socket_remove r (world_sockets w) = (ws, evs) \<Longrightarrow>
    socket_act w (w\<lparr>world_sockets := ws, world_events := world_events w @ evs\<rparr>)"
| act_replace: "new_socket s \<Longrightarrow> in_table w r \<Longrightarrow> \<not> sock_closed (world_socket w r) \<Longrightarrow>
    replace_socket r (length (socket_heap (world_sockets w)))
      ((world_sockets w)\<lparr>socket_heap := socket_heap (world_sockets w) @ [s]\<rparr>) = (ws, evs) \<Longrightarrow>
    socket_act w (w\<lparr>world_sockets := ws, world_events := world_events w @ evs\<rparr>)"

text \<open>The counter has 16 bits: fewer than \<open>2 ^ 16\<close> contexts hold one socket.\<close>

definition bounded_holders :: "socket_world \<Rightarrow> bool" where
  "bounded_holders w \<longleftrightarrow> (\<forall>i. holders w i < 2 ^ 16)"

inductive socket_steps :: "nat \<Rightarrow> socket_world \<Rightarrow> bool" for n where
  start: "socket_steps n \<lparr>world_sockets = \<lparr>socket_heap = [], socket_table = [], socket_available = [], socket_stopped = False\<rparr>,
    world_owners = replicate n [], world_locks = [], world_events = []\<rparr>"
| step: "socket_steps n w \<Longrightarrow> socket_act w w' \<Longrightarrow> bounded_holders w' \<Longrightarrow> socket_steps n w'"

section \<open>The invariant\<close>

definition table_inv :: "sockets \<Rightarrow> bool" where
  "table_inv t \<longleftrightarrow> \<not> socket_stopped t \<and> length (socket_available t) = length (socket_table t) \<and>
    (\<forall>i < length (socket_table t). \<forall>r. socket_table t ! i = Some r \<longrightarrow>
       r < length (socket_heap t) \<and> sock_id (at_socket t r) = i \<and> sock_attached (at_socket t r) \<and>
       sock_canAutoClose (at_socket t r) \<and> \<not> socket_available t ! i) \<and>
    (\<forall>r < length (socket_heap t). sock_attached (at_socket t r) \<longrightarrow> lookup_socket t (int (sock_id (at_socket t r))) = Some r)"

text \<open>The counter has 16 bits and counts modulo \<open>2 ^ 16\<close>.\<close>

definition locks_inv :: "socket_world \<Rightarrow> bool" where
  "locks_inv w \<longleftrightarrow> (\<forall>own \<in> set (world_owners w). distinct own) \<and>
    (\<forall>i r. lookup_socket (world_sockets w) (int i) = Some r \<longrightarrow> closeLocks (world_socket w r) = of_nat (holders w i)) \<and>
    (\<forall>i. lookup_socket (world_sockets w) (int i) = None \<longrightarrow> holders w i = 0)"

definition closed_inv :: "socket_world \<Rightarrow> bool" where
  "closed_inv w \<longleftrightarrow>
    (\<forall>i r. lookup_socket (world_sockets w) (int i) = Some r \<longrightarrow> sock_closed (world_socket w r) \<longrightarrow> isClosing (world_socket w r))"

definition events_inv :: "socket_world \<Rightarrow> bool" where
  "events_inv w \<longleftrightarrow> (\<forall>r. count_list (world_events w) (On_Close r) =
     (if r < length (socket_heap (world_sockets w)) \<and> sock_closed (world_socket w r) then 1 else 0))"

definition socket_inv :: "socket_world \<Rightarrow> bool" where
  "socket_inv w \<longleftrightarrow> table_inv (world_sockets w) \<and> locks_inv w \<and> closed_inv w \<and> events_inv w"

lemma lookup_nat: "lookup_socket t (int i) = (if i < length (socket_table t) then socket_table t ! i else None)"
  by (auto simp: lookup_socket_def)

lemma lookup_Some: "lookup_socket t fd = Some r \<Longrightarrow> 0 \<le> fd \<and> nat fd < length (socket_table t) \<and> socket_table t ! nat fd = Some r"
  by (auto simp: lookup_socket_def split: if_splits)

lemma table_entry:
  assumes "table_inv t" "lookup_socket t fd = Some r"
  shows "r < length (socket_heap t)" "int (sock_id (at_socket t r)) = fd" "sock_attached (at_socket t r)"
    "sock_canAutoClose (at_socket t r)" "\<not> socket_available t ! nat fd"
  using assms lookup_Some [OF assms(2)] by (auto simp: table_inv_def)

lemma set_socket_simps [simp]:
  "socket_table (set_socket r s t) = socket_table t" "socket_available (set_socket r s t) = socket_available t"
  "socket_stopped (set_socket r s t) = socket_stopped t" "length (socket_heap (set_socket r s t)) = length (socket_heap t)"
  "lookup_socket (set_socket r s t) fd = lookup_socket t fd"
  by (simp_all add: set_socket_def lookup_socket_def)

lemma at_set_socket: "r < length (socket_heap t) \<Longrightarrow> at_socket (set_socket r s t) q = (if q = r then s else at_socket t q)"
  by (simp add: at_socket_def set_socket_def)

text \<open>One socket changes, and keeps its place in the table.\<close>

definition keeps_place :: "socket \<Rightarrow> socket \<Rightarrow> bool" where
  "keeps_place s s' \<longleftrightarrow> sock_id s' = sock_id s \<and> sock_attached s' = sock_attached s \<and>
     sock_canAutoClose s' = sock_canAutoClose s"

lemma table_inv_set:
  assumes "table_inv t" "r < length (socket_heap t)" "keeps_place (at_socket t r) s'"
  shows "table_inv (set_socket r s' t)"
  using assms by (auto simp: table_inv_def keeps_place_def at_set_socket)

lemma socket_inv_update:
  assumes inv: "socket_inv w" and r: "in_table w r"
    and place: "keeps_place (world_socket w r) s'"
    and ws: "world_sockets w' = set_socket r s' (world_sockets w)"
    and others: "\<And>j. j \<noteq> sock_id (world_socket w r) \<Longrightarrow> holders w' j = holders w j"
    and count: "closeLocks s' = of_nat (holders w' (sock_id (world_socket w r)))"
    and closing: "sock_closed s' \<Longrightarrow> isClosing s'"
    and owners: "\<forall>own \<in> set (world_owners w'). distinct own"
    and events: "world_events w' = world_events w @ evs"
      "\<And>q. count_list evs (On_Close q) = (if q = r \<and> sock_closed s' \<and> \<not> sock_closed (world_socket w r) then 1 else 0)"
    and stays: "sock_closed (world_socket w r) \<Longrightarrow> sock_closed s'"
  shows "socket_inv w'"
proof -
  let ?t = "world_sockets w"
  have t: "table_inv ?t" using inv by (simp add: socket_inv_def)
  have rl: "lookup_socket ?t (int (sock_id (at_socket ?t r))) = Some r" using r by (simp add: in_table_def)
  note rt = table_entry [OF t rl]
  have same: "i = sock_id (at_socket ?t r)" if "lookup_socket ?t (int i) = Some r" for i
    using table_entry(2) [OF t that] by simp
  have "locks_inv w'"
  proof -
    have "closeLocks (at_socket (set_socket r s' ?t) q) = of_nat (holders w' i)" if "lookup_socket ?t (int i) = Some q" for i q
    proof (cases "i = sock_id (at_socket ?t r)")
      case True
      then have "q = r" using that rl by simp
      then show ?thesis using count True by (simp add: at_set_socket [OF rt(1)])
    next
      case False
      then have "q \<noteq> r" using same that by blast
      then show ?thesis using that inv others [OF False] by (simp add: at_set_socket rt(1) socket_inv_def locks_inv_def)
    qed
    moreover have "holders w' i = 0" if "lookup_socket ?t (int i) = None" for i
    proof -
      have "i \<noteq> sock_id (at_socket ?t r)" using rl that by auto
      then show ?thesis using that inv others by (simp add: socket_inv_def locks_inv_def)
    qed
    ultimately show ?thesis using owners unfolding locks_inv_def ws set_socket_simps by blast
  qed
  moreover have "closed_inv w'"
    using inv closing by (auto simp: socket_inv_def closed_inv_def ws at_set_socket rt(1))
  moreover have "events_inv w'"
  proof -
    have "count_list (world_events w) (On_Close q) =
      (if q < length (socket_heap ?t) \<and> sock_closed (at_socket ?t q) then 1 else 0)" for q
      using inv by (simp add: socket_inv_def events_inv_def)
    then show ?thesis using stays rt(1) by (simp add: events_inv_def ws events at_set_socket)
  qed
  ultimately show ?thesis using table_inv_set [OF t rt(1) place] by (simp add: socket_inv_def ws)
qed

section \<open>Counting holders\<close>

lemma sum_list_at:
  "k < length xs \<Longrightarrow> sum_list (map f (xs[k := x])) + f (xs ! k) = sum_list (map f xs) + (f x :: nat)"
proof (induction xs arbitrary: k)
  case (Cons y ys)
  then show ?case by (cases k) (auto simp: add.commute add.left_commute)
qed simp

lemma holders_change:
  assumes "k < length (world_owners w)" "world_owners w' = (world_owners w)[k := own]" "world_locks w' = world_locks w @ ls"
  shows "holders w' i + of_bool (i \<in> set (world_owners w ! k)) = holders w i + of_bool (i \<in> set own) + count_list ls i"
  using sum_list_at [OF assms(1), of "\<lambda>own. of_bool (i \<in> set own)" own] assms(2,3)
  unfolding holders_def by simp

lemma holders_change_word:
  assumes "k < length (world_owners w)" "world_owners w' = (world_owners w)[k := own]" "world_locks w' = world_locks w @ ls"
  shows "(of_nat (holders w' i) :: u16) =
    of_nat (holders w i) + of_bool (i \<in> set own) - of_bool (i \<in> set (world_owners w ! k)) + of_nat (count_list ls i)"
proof -
  have "(of_nat (holders w' i + of_bool (i \<in> set (world_owners w ! k))) :: u16) =
    of_nat (holders w i + of_bool (i \<in> set own) + count_list ls i)"
    using holders_change [OF assms] by (rule arg_cong)
  then show ?thesis by (simp add: algebra_simps split: if_splits)
qed

lemma holders_locks:
  assumes "world_owners w' = world_owners w" "world_locks w' = world_locks w @ ls"
  shows "holders w' i = holders w i + count_list ls i"
  using assms by (simp add: holders_def)

lemma holders_unlock:
  assumes "world_owners w' = world_owners w" "world_locks w' = remove1 i (world_locks w)" "i \<in> set (world_locks w)"
  shows "holders w j = holders w' j + of_bool (i = j)"
proof -
  have "count_list xs j = count_list (remove1 i xs) j + of_bool (i = j)" if "i \<in> set xs" for xs
    using that by (induction xs) auto
  then show ?thesis using assms by (simp add: holders_def)
qed

section \<open>Changing one socket\<close>

lemma updateSocketFlags_props:
  assumes "updateSocketFlags s flags v own = (s', own')" "distinct own"
  shows "keeps_place s s'" "sock_closed s' = sock_closed s" "distinct own'"
    "\<And>i. i \<noteq> sock_id s \<Longrightarrow> i \<in> set own' \<longleftrightarrow> i \<in> set own"
    "closeLocks s' = closeLocks s + of_bool (sock_id s \<in> set own') - of_bool (sock_id s \<in> set own)"
  using assms
  by (auto simp: updateSocketFlags_def insert_id_def erase_id_def keeps_place_def Let_def set_insort_key
      distinct_insort split: if_splits prod.splits)

lemma tryConsumeRecv_props:
  assumes "tryConsumeRecv s = (acquired, s')"
  shows "keeps_place s s'" "sock_closed s' = sock_closed s" "closeLocks s' = closeLocks s + of_bool acquired"
  using assms by (auto simp: tryConsumeRecv_def keeps_place_def split: if_splits)

lemma tryClose_props:
  assumes "tryClose s = (close, s')"
  shows "keeps_place s s'" "closeLocks s' = closeLocks s" "close \<longleftrightarrow> isClosing s \<and> \<not> sock_closed s"
    "sock_closed s' \<longleftrightarrow> sock_closed s \<or> close" "isClosing s' = isClosing s"
  using assms by (auto simp: tryClose_def keeps_place_def isClosing_def closeRequested_def split: if_splits)

lemma keeps_place_trans: "keeps_place s t \<Longrightarrow> keeps_place t u \<Longrightarrow> keeps_place s u"
  by (simp add: keeps_place_def)

lemma keeps_place_id: "keeps_place s t \<Longrightarrow> sock_id t = sock_id s"
  by (simp add: keeps_place_def)

lemma tryClose_closed:
  assumes "tryClose s = (close, s')" "sock_closed s \<Longrightarrow> isClosing s" "sock_closed s'"
  shows "isClosing s'"
  using tryClose_props [OF assms(1)] assms(2,3) by auto

lemma in_table_facts:
  assumes "socket_inv w" "in_table w r"
  shows "r < length (socket_heap (world_sockets w))"
    "closeLocks (world_socket w r) = of_nat (holders w (sock_id (world_socket w r)))"
    "sock_closed (world_socket w r) \<Longrightarrow> isClosing (world_socket w r)"
  using assms table_entry(1) [of "world_sockets w" "int (sock_id (world_socket w r))" r]
  by (auto simp: socket_inv_def in_table_def locks_inv_def closed_inv_def split: option.splits dest: spec)

lemma lookup_in_table: "socket_inv w \<Longrightarrow> lookup_socket (world_sockets w) fd = Some r \<Longrightarrow> in_table w r"
  using table_entry(2) [of "world_sockets w" fd r] by (simp add: in_table_def socket_inv_def)

lemma owner_distinct: "socket_inv w \<Longrightarrow> k < length (world_owners w) \<Longrightarrow> distinct (world_owners w ! k)"
  by (simp add: socket_inv_def locks_inv_def)

lemma owners_update_distinct:
  "socket_inv w \<Longrightarrow> distinct own \<Longrightarrow> \<forall>x \<in> set ((world_owners w)[k := own]). distinct x"
  using set_update_subset_insert [of "world_owners w" k own] by (auto simp: socket_inv_def locks_inv_def)


section \<open>Every step keeps the invariant\<close>

lemma act_flags_inv:
  assumes inv: "socket_inv w" and k: "k < length (world_owners w)"
    and flags: "setFlags fd flags v (world_owners w ! k) None (world_sockets w) = (err, own, diff, ws, evs)"
  shows "socket_inv (w\<lparr>world_sockets := ws, world_owners := (world_owners w)[k := own],
      world_locks := world_locks w @ lock_tokens ws evs, world_events := world_events w @ evs\<rparr>)" (is "socket_inv ?w'")
proof (cases "ws = world_sockets w \<and> own = world_owners w ! k \<and> evs = []")
  case True
  then show ?thesis using inv by (simp add: lock_tokens_def)
next
  case False
  then obtain r where r: "lookup_socket (world_sockets w) fd = Some r" "\<not> isClosing (world_socket w r)"
    using flags by (auto simp: setFlags_def checkSocketFlags_def split: option.splits if_splits)
  obtain s1 own1 where s1: "updateSocketFlags (world_socket w r) flags v (world_owners w ! k) = (s1, own1)" by force
  obtain acq s2 where s2: "tryConsumeRecv s1 = (acq, s2)" by force
  obtain close s3 where s3: "tryClose s2 = (close, s3)" by force
  have res: "own = own1" "ws = set_socket r s3 (world_sockets w)"
    "evs = (if acq then [On_Lock r] else []) @ (if close then [On_Close r] else [])"
    using flags False r by (auto simp: setFlags_def s1 s2 s3 checkSocketFlags_def split: option.splits if_splits)
  have tab: "in_table w r" using inv r(1) by (rule lookup_in_table)
  note f = in_table_facts [OF inv tab] and u = updateSocketFlags_props [OF s1 owner_distinct [OF inv k]]
    and c = tryConsumeRecv_props [OF s2] and t = tryClose_props [OF s3]
  let ?i = "sock_id (world_socket w r)"
  have place: "keeps_place (world_socket w r) s3" using u(1) c(1) t(1) keeps_place_trans by metis
  have tokens: "lock_tokens ws evs = (if acq then [?i] else [])"
    using place by (simp add: lock_tokens_def res at_set_socket f(1) keeps_place_id)
  have open_s: "\<not> sock_closed (world_socket w r)" using f(3) r(2) by blast
  show ?thesis
  proof (rule socket_inv_update [OF inv tab place])
    show "world_sockets ?w' = set_socket r s3 (world_sockets w)" by (simp add: res)
    show "holders ?w' j = holders w j" if "j \<noteq> ?i" for j
      using holders_change [OF k, of ?w' own "lock_tokens ws evs" j] u(4) [OF that] that by (simp add: tokens res(1))
    show "closeLocks s3 = of_nat (holders ?w' ?i)"
      using holders_change_word [OF k, of ?w' own "lock_tokens ws evs" ?i] t(2) c(3) u(5) f(2)
      by (simp add: tokens res(1))
    show "sock_closed s3 \<Longrightarrow> isClosing s3"
      using open_s u(2) c(2) by (intro tryClose_closed [OF s3]) simp_all
    show "\<forall>x \<in> set (world_owners ?w'). distinct x"
      using owners_update_distinct [OF inv u(3)] by (simp add: res)
    show "world_events ?w' = world_events w @ evs" by simp
    show "count_list evs (On_Close q) = (if q = r \<and> sock_closed s3 \<and> \<not> sock_closed (world_socket w r) then 1 else 0)" for q
      using open_s u(2) c(2) t(4) by (auto simp: res)
    show "sock_closed (world_socket w r) \<Longrightarrow> sock_closed s3" using open_s by simp
  qed
qed

lemma act_async_close_inv:
  assumes inv: "socket_inv w" and tab: "in_table w r" and ws: "asyncClose r (world_sockets w) = (ws, evs)"
  shows "socket_inv (w\<lparr>world_sockets := ws, world_events := world_events w @ evs\<rparr>)" (is "socket_inv ?w'")
proof -
  let ?s = "(world_socket w r)\<lparr>forceClose := True\<rparr>"
  obtain close s3 where s3: "tryClose ?s = (close, s3)" by force
  have res: "ws = set_socket r s3 (world_sockets w)" "evs = (if close then [On_Close r] else [])"
    using ws by (auto simp: asyncClose_def s3)
  note f = in_table_facts [OF inv tab] and t = tryClose_props [OF s3]
  have place: "keeps_place (world_socket w r) s3" using t(1) by (simp add: keeps_place_def)
  show ?thesis
  proof (rule socket_inv_update [OF inv tab place])
    show "world_sockets ?w' = set_socket r s3 (world_sockets w)" by (simp add: res)
    show "closeLocks s3 = of_nat (holders ?w' (sock_id (world_socket w r)))"
      using t(2) f(2) by (simp add: holders_def)
    show "sock_closed s3 \<Longrightarrow> isClosing s3"
      using f(3) by (intro tryClose_closed [OF s3]) (simp_all add: isClosing_def closeRequested_def)
    show "\<forall>x \<in> set (world_owners ?w'). distinct x" using inv by (simp add: socket_inv_def locks_inv_def)
    show "count_list evs (On_Close q) = (if q = r \<and> sock_closed s3 \<and> \<not> sock_closed (world_socket w r) then 1 else 0)" for q
      using t(3,4) by (auto simp: res)
    show "sock_closed (world_socket w r) \<Longrightarrow> sock_closed s3" using t(4) by simp
  qed (simp_all add: holders_def)
qed

lemma lock_inv:
  assumes inv: "socket_inv w" and tab: "in_table w r" and opened: "\<not> sock_closed (world_socket w r)"
    and s: "keeps_place (world_socket w r) s'" "sock_closed s' = sock_closed (world_socket w r)"
      "closeLocks s' = closeLocks (world_socket w r) + of_nat (length ls)" "set ls \<subseteq> {sock_id (world_socket w r)}"
  shows "socket_inv (w\<lparr>world_sockets := set_socket r s' (world_sockets w), world_locks := world_locks w @ ls\<rparr>)" (is "socket_inv ?w'")
proof (rule socket_inv_update [OF inv tab s(1)])
  let ?i = "sock_id (world_socket w r)"
  have ls: "count_list ls j = (if j = ?i then length ls else 0)" for j
    using s(4) by (induction ls) auto
  show "holders ?w' j = holders w j" if "j \<noteq> ?i" for j using that by (simp add: holders_locks [of ?w' w] ls)
  show "closeLocks s' = of_nat (holders ?w' ?i)"
    using in_table_facts(2) [OF inv tab] s(3) by (simp add: holders_locks [of ?w' w] ls)
  show "\<forall>x \<in> set (world_owners ?w'). distinct x" using inv by (simp add: socket_inv_def locks_inv_def)
  show "world_events ?w' = world_events w @ []" by simp
qed (use opened s(2) in simp_all)

lemma act_lock_recv_inv:
  assumes inv: "socket_inv w" and tab: "in_table w r" and l: "lockRecv r (world_sockets w) = (l, ws)"
  shows "socket_inv (w\<lparr>world_sockets := ws, world_locks := world_locks w @ (case l of None \<Rightarrow> [] | Some i \<Rightarrow> [i])\<rparr>)"
proof -
  let ?s = "world_socket w r"
  consider "sock_closed ?s" | "\<not> sock_closed ?s" "receiving ?s" | "\<not> sock_closed ?s" "\<not> receiving ?s" by blast
  then show ?thesis
  proof cases
    case 1
    then show ?thesis using l inv by (auto simp: lockRecv_def Let_def)
  next
    case 2
    then show ?thesis
      using l lock_inv [OF inv tab 2(1), of "?s\<lparr>receiving := False, closeLocks := closeLocks ?s + 1\<rparr>" "[sock_id ?s]"]
      by (auto simp: lockRecv_def Let_def keeps_place_def)
  next
    case 3
    then show ?thesis
      using l lock_inv [OF inv tab 3(1), of "?s\<lparr>pendingRecv := True\<rparr>" "[]"]
      by (auto simp: lockRecv_def Let_def keeps_place_def)
  qed
qed

lemma act_lock_close_inv:
  assumes inv: "socket_inv w" and tab: "in_table w r" and l: "lockClose r (world_sockets w) = (l, ws)"
  shows "socket_inv (w\<lparr>world_sockets := ws, world_locks := world_locks w @ (case l of None \<Rightarrow> [] | Some i \<Rightarrow> [i])\<rparr>)"
proof (cases "sock_closed (world_socket w r)")
  case True
  then show ?thesis using l inv by (auto simp: lockClose_def Let_def)
next
  case False
  let ?s = "world_socket w r"
  show ?thesis
    using l False lock_inv [OF inv tab False, of "?s\<lparr>closeLocks := closeLocks ?s + 1\<rparr>" "[sock_id ?s]"]
    by (auto simp: lockClose_def Let_def keeps_place_def)
qed

lemma held_in_table:
  assumes "socket_inv w" "0 < holders w i"
  obtains r where "lookup_socket (world_sockets w) (int i) = Some r" "in_table w r" "sock_id (world_socket w r) = i"
proof -
  obtain r where r: "lookup_socket (world_sockets w) (int i) = Some r"
    using assms by (cases "lookup_socket (world_sockets w) (int i)")
      (auto simp: socket_inv_def locks_inv_def split: option.splits dest!: spec [of _ i])
  then show ?thesis
    using that lookup_in_table [OF assms(1) r] table_entry(2) [of "world_sockets w" "int i" r] assms(1)
    by (simp add: socket_inv_def)
qed


lemma set_set_socket [simp]: "set_socket r s (set_socket r s' t) = set_socket r s t"
  by (simp add: set_socket_def)

lemma held_open:
  assumes "socket_inv w" "bounded_holders w" "in_table w r" "0 < holders w (sock_id (world_socket w r))"
  shows "closeLocks (world_socket w r) \<noteq> 0" "\<not> sock_closed (world_socket w r)"
proof -
  have "unat (of_nat (holders w (sock_id (world_socket w r))) :: u16) = holders w (sock_id (world_socket w r))"
    using assms(2) by (simp add: bounded_holders_def unat_of_nat take_bit_nat_eq_self)
  with assms(4) in_table_facts(2) [OF assms(1,3)] show "closeLocks (world_socket w r) \<noteq> 0"
    by (metis unsigned_0 less_irrefl)
  then show "\<not> sock_closed (world_socket w r)" using in_table_facts(3) [OF assms(1,3)] by (auto simp: isClosing_def)
qed

text \<open>Giving back a lock and closing the socket if it was the last one.\<close>

lemma release_inv:
  assumes inv: "socket_inv w" and bound: "bounded_holders w" and tab: "in_table w r"
    and i: "sock_id (world_socket w r) = i"
    and held: "\<And>j. holders w j = holders w' j + of_bool (i = j)"
    and s: "tryClose ((world_socket w r)\<lparr>closeLocks := closeLocks (world_socket w r) - 1\<rparr>) = (close, s')"
    and w': "world_sockets w' = set_socket r s' (world_sockets w)" "\<forall>x \<in> set (world_owners w'). distinct x"
      "world_events w' = world_events w @ (if close then [On_Close r] else [])"
  shows "socket_inv w'"
proof -
  have "0 < holders w (sock_id (world_socket w r))" using held [of i] by (simp add: i)
  note opened = held_open(2) [OF inv bound tab this]
  note t = tryClose_props [OF s]
  show ?thesis
  proof (rule socket_inv_update [OF inv tab _ w'(1) _ _ _ w'(2,3)])
    show "keeps_place (world_socket w r) s'" using t(1) by (simp add: keeps_place_def)
    show "holders w' j = holders w j" if "j \<noteq> sock_id (world_socket w r)" for j using held [of j] that i by auto
    have "(of_nat (holders w i) :: u16) = of_nat (holders w' i) + 1" using held [of i] by simp
    then show "closeLocks s' = of_nat (holders w' (sock_id (world_socket w r)))"
      using t(2) in_table_facts(2) [OF inv tab] i by simp
    show "sock_closed s' \<Longrightarrow> isClosing s'" using opened by (intro tryClose_closed [OF s]) simp_all
    show "count_list (if close then [On_Close r] else []) (On_Close q) =
      (if q = r \<and> sock_closed s' \<and> \<not> sock_closed (world_socket w r) then 1 else 0)" for q
      using opened t(4) by auto
    show "sock_closed (world_socket w r) \<Longrightarrow> sock_closed s'" using opened by simp
  qed
qed

lemma act_unlock_inv:
  assumes inv: "socket_inv w" and bound: "bounded_holders w" and i: "i \<in> set (world_locks w)"
    and rel: "release_lock i (world_sockets w) = Ok (Some r, ws)" "close_released r ws = (ws', evs)"
  shows "socket_inv (w\<lparr>world_sockets := ws', world_locks := remove1 i (world_locks w), world_events := world_events w @ evs\<rparr>)" (is "socket_inv ?w'")
proof -
  have held: "holders w j = holders ?w' j + of_bool (i = j)" for j using i by (intro holders_unlock) simp_all
  then have "0 < holders w i" by simp
  obtain q where q: "lookup_socket (world_sockets w) (int i) = Some q" "in_table w q" "sock_id (world_socket w q) = i"
    using held_in_table [OF inv \<open>0 < holders w i\<close>] by blast
  let ?s = "(world_socket w q)\<lparr>closeLocks := closeLocks (world_socket w q) - 1\<rparr>"
  have rq: "r = q" "ws = set_socket q ?s (world_sockets w)"
    using rel(1) q(1) by (auto simp: release_lock_def split: if_splits)
  obtain close s3 where s3: "tryClose ?s = (close, s3)" by force
  have "ws' = set_socket q s3 (world_sockets w)" "evs = (if close then [On_Close q] else [])"
    using rel(2) in_table_facts(1) [OF inv q(2)] by (auto simp: close_released_def rq at_set_socket s3)
  then show ?thesis
    using inv by (intro release_inv [OF inv bound q(2,3) held s3]) (simp_all add: socket_inv_def locks_inv_def)
qed

lemma act_set_owner_inv:
  assumes inv: "socket_inv w" and i: "i \<in> set (world_locks w)" and k: "k < length (world_owners w)"
    and own: "i \<notin> set (world_owners w ! k)" "setOwner (Some i) (world_owners w ! k) = (l, own)"
  shows "socket_inv (w\<lparr>world_owners := (world_owners w)[k := own], world_locks := remove1 i (world_locks w)\<rparr>)" (is "socket_inv ?w'")
proof -
  have own': "own = insort i (world_owners w ! k)" using own by (auto simp: setOwner_def insert_id_def)
  let ?v = "w\<lparr>world_owners := (world_owners w)[k := own]\<rparr>"
  have "holders ?w' j = holders w j" for j
    using holders_change [OF k, of ?v own "[]" j] holders_unlock [of ?w' ?v i j] i own(1)
    by (cases "i = j") (auto simp: own' set_insort_key)
  moreover have "\<forall>x \<in> set (world_owners ?w'). distinct x"
    using owners_update_distinct [OF inv, of own k] owner_distinct [OF inv k] own(1) by (simp add: own' distinct_insort)
  ultimately show ?thesis
    using inv by (simp add: socket_inv_def locks_inv_def closed_inv_def events_inv_def)
qed

lemma close_ids_inv:
  assumes "socket_inv (w\<lparr>world_owners := (world_owners w)[k := is]\<rparr>)" "bounded_holders (w\<lparr>world_owners := (world_owners w)[k := is]\<rparr>)"
    "k < length (world_owners w)"
  shows "\<exists>rs ws. close_ids is (world_sockets w) = Ok (rs, ws) \<and>
    socket_inv (w\<lparr>world_sockets := ws, world_owners := (world_owners w)[k := []], world_events := world_events w @ map On_Close rs\<rparr>)"
  using assms
proof (induction "is" arbitrary: w)
  case Nil
  then show ?case by simp
next
  case (Cons i "is")
  let ?v = "w\<lparr>world_owners := (world_owners w)[k := i # is]\<rparr>"
  note inv = Cons.prems(1) and bound = Cons.prems(2)
  have fresh: "i \<notin> set is" using owner_distinct [OF inv, of k] Cons.prems(3) by simp
  have held: "holders ?v j = holders (w\<lparr>world_owners := (world_owners w)[k := is]\<rparr>) j + of_bool (i = j)" for j
    using holders_change [of k ?v "w\<lparr>world_owners := (world_owners w)[k := is]\<rparr>" "is" "[]" j] fresh Cons.prems(3) by auto
  then have "0 < holders ?v i" by simp
  obtain r where r: "lookup_socket (world_sockets ?v) (int i) = Some r" "in_table ?v r" "sock_id (world_socket ?v r) = i"
    using held_in_table [OF inv \<open>0 < holders ?v i\<close>] by blast
  obtain close s' where s': "tryClose ((world_socket ?v r)\<lparr>closeLocks := closeLocks (world_socket ?v r) - 1\<rparr>) = (close, s')" by force
  let ?u = "w\<lparr>world_sockets := set_socket r s' (world_sockets w),
    world_events := world_events w @ (if close then [On_Close r] else [])\<rparr>"
  have "socket_inv (?u\<lparr>world_owners := (world_owners ?u)[k := is]\<rparr>)"
  proof (rule release_inv [OF inv bound r(2,3) _ s'])
    show "holders ?v j = holders (?u\<lparr>world_owners := (world_owners ?u)[k := is]\<rparr>) j + of_bool (i = j)" for j
      using held [of j] by (simp add: holders_def)
    show "\<forall>x \<in> set (world_owners (?u\<lparr>world_owners := (world_owners ?u)[k := is]\<rparr>)). distinct x"
      using owners_update_distinct [OF inv, of "is" k] owner_distinct [OF inv, of k] Cons.prems(3) by simp
  qed simp_all
  moreover have "bounded_holders (?u\<lparr>world_owners := (world_owners ?u)[k := is]\<rparr>)"
  proof -
    have "holders (?u\<lparr>world_owners := (world_owners ?u)[k := is]\<rparr>) j \<le> holders ?v j" for j
      using held [of j] by (simp add: holders_def)
    then show ?thesis using bound unfolding bounded_holders_def by (meson le_less_trans)
  qed
  ultimately obtain rs ws where ws: "close_ids is (world_sockets ?u) = Ok (rs, ws)"
    "socket_inv (?u\<lparr>world_sockets := ws, world_owners := (world_owners ?u)[k := []], world_events := world_events ?u @ map On_Close rs\<rparr>)"
    using Cons.IH [of ?u] Cons.prems(3) by auto
  have "close_ids (i # is) (world_sockets w) = Ok (if close then r # rs else rs, ws)"
    using r(1) s' ws(1) by (simp add: Let_def)
  with ws(2) show ?case by (cases close) auto
qed

lemma act_close_owned_inv:
  assumes inv: "socket_inv w" and bound: "bounded_holders w" and k: "k < length (world_owners w)"
    and own: "close_owned (world_owners w ! k) (world_sockets w) = Ok (own, ws, evs)"
  shows "socket_inv (w\<lparr>world_sockets := ws, world_owners := (world_owners w)[k := own], world_events := world_events w @ evs\<rparr>)"
proof -
  have "\<not> socket_stopped (world_sockets w)" using inv by (simp add: socket_inv_def table_inv_def)
  then show ?thesis
    using own close_ids_inv [of w k "world_owners w ! k"] inv bound k
    by (auto simp: close_owned_def bind_result_eq_Ok)
qed


lemma act_remove_inv:
  assumes inv: "socket_inv w" and bound: "bounded_holders w" and r: "r < length (socket_heap (world_sockets w))"
    and closed: "sock_closed (world_socket w r)" and rem: "socket_remove r (world_sockets w) = (ws, evs)"
  shows "socket_inv (w\<lparr>world_sockets := ws, world_events := world_events w @ evs\<rparr>)" (is "socket_inv ?w'")
proof (cases "sock_attached (world_socket w r)")
  case False
  then have "ws = world_sockets w" "evs = []" using rem by (simp_all add: socket_remove_def)
  then show ?thesis using inv by simp
next
  case True
  let ?t = "world_sockets w" and ?s = "world_socket w r"
  have tab: "in_table w r" using inv r True by (simp add: in_table_def socket_inv_def table_inv_def)
  have run: "\<not> socket_stopped ?t" using inv by (simp add: socket_inv_def table_inv_def)
  have ws: "ws = (set_socket r (?s\<lparr>sock_attached := False\<rparr>) ?t)\<lparr>socket_available := (socket_available ?t)[sock_id ?s := True],
    socket_table := (socket_table ?t)[sock_id ?s := None]\<rparr>" "evs = [Remove_Row (sock_id ?s)]"
    using rem True run by (auto simp: socket_remove_def Let_def)
  have none: "holders w (sock_id ?s) = 0" using held_open(2) [OF inv bound tab] closed by blast
  have at: "at_socket ws q = (if q = r then ?s\<lparr>sock_attached := False\<rparr> else at_socket ?t q)" for q
    using at_set_socket [OF r, of "?s\<lparr>sock_attached := False\<rparr>" q] by (simp add: ws at_socket_def)
  have parts: "length (socket_heap ws) = length (socket_heap ?t)" "socket_stopped ws = socket_stopped ?t"
    "socket_available ws = (socket_available ?t)[sock_id ?s := True]"
    "length (socket_table ws) = length (socket_table ?t)"
    by (simp_all add: ws)
  have look: "lookup_socket ws fd = (if fd = int (sock_id ?s) then None else lookup_socket ?t fd)" for fd
    by (auto simp: ws lookup_socket_def nth_list_update)
  have other: "q \<noteq> r" if "lookup_socket ?t (int i) = Some q" "i \<noteq> sock_id ?s" for i q
    using table_entry(2) [of ?t "int i" q] that inv by (auto simp: socket_inv_def)
  have "table_inv ws"
    unfolding table_inv_def
  proof (intro conjI allI impI)
    fix i q
    assume i: "i < length (socket_table ws)" "socket_table ws ! i = Some q"
    then have q: "i \<noteq> sock_id ?s" "lookup_socket ?t (int i) = Some q"
      using look [of "int i"] by (auto simp: lookup_nat split: if_splits)
    then have "q \<noteq> r" using other by blast
    moreover have "\<not> socket_available ?t ! i" using inv q(2) by (auto simp: socket_inv_def table_inv_def lookup_nat split: if_splits)
    ultimately show "q < length (socket_heap ws)" "sock_id (at_socket ws q) = i" "sock_attached (at_socket ws q)"
      "sock_canAutoClose (at_socket ws q)" "\<not> socket_available ws ! i"
      using table_entry [of ?t "int i" q] q inv by (auto simp: at parts socket_inv_def)
  next
    fix q
    assume q: "q < length (socket_heap ws)" "sock_attached (at_socket ws q)"
    then have "q \<noteq> r" "q < length (socket_heap ?t)" by (auto simp: at parts split: if_splits)
    moreover from q this have "lookup_socket ?t (int (sock_id (at_socket ?t q))) = Some q"
      using inv by (simp add: at socket_inv_def table_inv_def)
    moreover from calculation have "sock_id (at_socket ?t q) \<noteq> sock_id ?s" using tab by (auto simp: in_table_def)
    ultimately show "lookup_socket ws (int (sock_id (at_socket ws q))) = Some q" by (simp add: at look)
  qed (use inv in \<open>simp_all add: parts socket_inv_def table_inv_def\<close>)
  moreover have "locks_inv ?w'"
    using inv none other by (auto simp: locks_inv_def socket_inv_def look at holders_def split: option.splits)
  moreover have "closed_inv ?w'"
    using inv other by (auto simp: closed_inv_def socket_inv_def look at split: if_splits)
  moreover have "events_inv ?w'"
    using inv closed by (auto simp: events_inv_def socket_inv_def at ws(2) parts(1))
  ultimately show ?thesis by (simp add: socket_inv_def)
qed


text \<open>A new socket takes the place \<open>i\<close> of the table, and the socket that was there is detached.\<close>

lemma attach_inv:
  assumes inv: "socket_inv w"
    and heap: "length (socket_heap (world_sockets w')) = Suc (length (socket_heap (world_sockets w)))"
      "\<And>p. p < length (socket_heap (world_sockets w)) \<Longrightarrow> world_socket w' p =
         (if lookup_socket (world_sockets w) (int i) = Some p then (world_socket w p)\<lparr>sock_attached := False\<rparr> else world_socket w p)"
      "world_socket w' (length (socket_heap (world_sockets w))) = s'"
    and new: "sock_id s' = i" "sock_attached s'" "sock_canAutoClose s'" "\<not> sock_closed s'"
    and table: "\<And>fd. lookup_socket (world_sockets w') fd =
        (if fd = int i then Some (length (socket_heap (world_sockets w))) else lookup_socket (world_sockets w) fd)"
      "\<not> socket_stopped (world_sockets w')"
      "length (socket_available (world_sockets w')) = length (socket_table (world_sockets w'))"
      "\<And>j r. lookup_socket (world_sockets w') (int j) = Some r \<Longrightarrow> \<not> socket_available (world_sockets w') ! j"
    and count: "\<And>j. j \<noteq> i \<Longrightarrow> holders w' j = holders w j" "closeLocks s' = of_nat (holders w' i)"
    and owners: "\<forall>own \<in> set (world_owners w'). distinct own"
    and events: "\<And>r. count_list (world_events w') (On_Close r) = count_list (world_events w) (On_Close r)"
  shows "socket_inv w'"
proof -
  let ?t = "world_sockets w" and ?t' = "world_sockets w'" and ?n = "length (socket_heap (world_sockets w))"
  have t: "table_inv ?t" using inv by (simp add: socket_inv_def)
  have old: "r < ?n" "sock_id (at_socket ?t r) = j" "at_socket ?t' r = at_socket ?t r"
    if "lookup_socket ?t (int j) = Some r" "j \<noteq> i" for j r
  proof -
    show "r < ?n" "sock_id (at_socket ?t r) = j" using table_entry(1,2) [OF t that(1)] by simp_all
    moreover have "lookup_socket ?t (int i) \<noteq> Some r"
      using table_entry(2) [OF t, of "int i" r] that(2) \<open>sock_id (at_socket ?t r) = j\<close> by auto
    ultimately show "at_socket ?t' r = at_socket ?t r" using heap(2) by simp
  qed
  have "table_inv ?t'"
    unfolding table_inv_def
  proof (intro conjI allI impI)
    fix j r
    assume j: "j < length (socket_table ?t')" "socket_table ?t' ! j = Some r"
    then have r: "lookup_socket ?t' (int j) = Some r" by (simp add: lookup_nat)
    then show "\<not> socket_available ?t' ! j" by (rule table(4))
    show "r < length (socket_heap ?t')" "sock_id (at_socket ?t' r) = j" "sock_attached (at_socket ?t' r)"
      "sock_canAutoClose (at_socket ?t' r)"
      using r old [of j r] table_entry [OF t, of "int j" r] by (auto simp: table(1) heap(1,3) new split: if_splits)
  next
    fix r
    assume r: "r < length (socket_heap ?t')" "sock_attached (at_socket ?t' r)"
    show "lookup_socket ?t' (int (sock_id (at_socket ?t' r))) = Some r"
    proof (cases "r = ?n")
      case True
      then show ?thesis by (simp add: heap(3) new table(1))
    next
      case False
      then have "r < ?n" using r(1) heap(1) by simp
      with heap(2) r(2) have "lookup_socket ?t (int i) \<noteq> Some r" "at_socket ?t' r = at_socket ?t r" by (auto split: if_splits)
      moreover from this r(2) \<open>r < ?n\<close> have "lookup_socket ?t (int (sock_id (at_socket ?t r))) = Some r"
        using t by (simp add: table_inv_def)
      ultimately show ?thesis by (auto simp: table(1))
    qed
  qed (use table in simp_all)
  moreover have "locks_inv w'"
    using inv owners old count by (auto simp: locks_inv_def socket_inv_def table(1) heap(3))
  moreover have "closed_inv w'"
    using inv old by (auto simp: closed_inv_def socket_inv_def table(1) heap(3) new split: if_splits)
  moreover have "events_inv w'"
  proof -
    have "(r < Suc ?n \<and> sock_closed (at_socket ?t' r)) \<longleftrightarrow> (r < ?n \<and> sock_closed (at_socket ?t r))" for r
      using heap(2) [of r] heap(3) new(4) by (auto simp: less_Suc_eq split: if_splits)
    then show ?thesis using inv by (simp add: events_inv_def socket_inv_def events heap(1))
  qed
  ultimately show ?thesis by (simp add: socket_inv_def)
qed

lemma act_replace_inv:
  assumes inv: "socket_inv w" and s: "new_socket s" and tab: "in_table w r" and opened: "\<not> sock_closed (world_socket w r)"
    and rep: "replace_socket r (length (socket_heap (world_sockets w)))
      ((world_sockets w)\<lparr>socket_heap := socket_heap (world_sockets w) @ [s]\<rparr>) = (ws, evs)"
  shows "socket_inv (w\<lparr>world_sockets := ws, world_events := world_events w @ evs\<rparr>)" (is "socket_inv ?w'")
proof -
  let ?t = "world_sockets w" and ?s = "world_socket w r" and ?n = "length (socket_heap (world_sockets w))"
  have t: "table_inv ?t" using inv by (simp add: socket_inv_def)
  have look: "lookup_socket ?t (int (sock_id ?s)) = Some r" using tab by (simp add: in_table_def)
  note r = table_entry [OF t look] and f = in_table_facts [OF inv tab]
  let ?s' = "s\<lparr>sock_id := sock_id ?s, sock_attached := True, notifyClose := notifyClose ?s,
    autoClosing := autoClosing ?s, receiving := receiving ?s, closeLocks := closeLocks ?s\<rparr>"
  have at: "at_socket (?t\<lparr>socket_heap := socket_heap ?t @ [s]\<rparr>) r = ?s" "at_socket (?t\<lparr>socket_heap := socket_heap ?t @ [s]\<rparr>) ?n = s"
    using r(1) by (simp_all add: at_socket_def nth_append)
  have ws: "ws = ?t\<lparr>socket_heap := (socket_heap ?t)[r := ?s\<lparr>sock_attached := False\<rparr>] @ [?s'],
      socket_table := (socket_table ?t)[sock_id ?s := Some ?n]\<rparr>" "evs = [Put_Row (sock_id ?s) (sock_info ?s')]"
    using rep r(1,3) by (auto simp: replace_socket_def at set_socket_def Let_def list_update_append)
  have i: "sock_id ?s < length (socket_table ?t)" using look by (simp add: lookup_nat split: if_splits)
  show ?thesis
  proof (rule attach_inv [OF inv, where i = "sock_id ?s" and s' = ?s'])
    show "world_socket ?w' p = (if lookup_socket ?t (int (sock_id ?s)) = Some p then (world_socket w p)\<lparr>sock_attached := False\<rparr>
        else world_socket w p)" if "p < ?n" for p
      using that look by (auto simp: ws at_socket_def nth_append nth_list_update)
    show "lookup_socket (world_sockets ?w') fd = (if fd = int (sock_id ?s) then Some ?n else lookup_socket ?t fd)" for fd
      using i by (auto simp: ws lookup_socket_def nth_list_update)
    show "\<not> socket_available (world_sockets ?w') ! j" if "lookup_socket (world_sockets ?w') (int j) = Some q" for j q
    proof (cases "j = sock_id ?s")
      case True
      then show ?thesis using r(5) by (simp add: ws)
    next
      case False
      then have "lookup_socket ?t (int j) = Some q" using that by (simp add: ws lookup_nat split: if_splits)
      then show ?thesis using table_entry(5) [OF t, of "int j" q] by (simp add: ws)
    qed
    show "closeLocks ?s' = of_nat (holders ?w' (sock_id ?s))" using f(2) by (simp add: holders_def)
    show "\<forall>own \<in> set (world_owners ?w'). distinct own" using inv by (simp add: socket_inv_def locks_inv_def)
  qed (use t s in \<open>simp_all add: ws at_socket_def nth_append new_socket_def table_inv_def holders_def\<close>)
qed

lemma find_available_free:
  assumes "table_inv t" "find_available (socket_available t) = Some i"
  shows "i < length (socket_table t)" "socket_table t ! i = None"
proof -
  have "socket_available t ! i" "i < length (socket_available t)"
    using assms(2) by (auto simp: find_available_def find_Some_iff)
  with assms(1) show "i < length (socket_table t)" "socket_table t ! i = None"
    by (auto simp: table_inv_def not_None_eq [symmetric])
qed

lemma add_socket_Ok:
  assumes "add_socket r (Some own) t = Ok (own', ws, evs)"
  obtains i tab av where
    "own' = Some (snd (insert_id i own))" "evs = [Put_Row i (sock_info (at_socket t r))]"
    "ws = attach_socket r i True (t\<lparr>socket_table := tab, socket_available := av\<rparr>)"
    "case find_available (socket_available t) of
       Some pos \<Rightarrow> i = pos \<and> tab = (socket_table t)[pos := Some r] \<and> av = (socket_available t)[pos := False]
     | None \<Rightarrow> i = length (socket_table t) \<and> tab = socket_table t @ [Some r] \<and> av = socket_available t @ [False]"
proof (cases "find_available (socket_available t)")
  case None
  with assms show ?thesis
    by (intro that [of "length (socket_table t)" "socket_available t @ [False]" "socket_table t @ [Some r]"])
      (auto simp: add_socket_def result_simps at_socket_def split: if_splits)
next
  case (Some pos)
  with assms show ?thesis
    by (intro that [of pos "(socket_available t)[pos := False]" "(socket_table t)[pos := Some r]"])
      (auto simp: add_socket_def result_simps at_socket_def split: if_splits)
qed

lemma act_add_inv:
  assumes inv: "socket_inv w" and s: "new_socket s" and k: "k < length (world_owners w)"
    and add: "add_socket (length (socket_heap (world_sockets w))) (Some (world_owners w ! k))
      ((world_sockets w)\<lparr>socket_heap := socket_heap (world_sockets w) @ [s]\<rparr>) = Ok (Some own, ws, evs)"
  shows "socket_inv (w\<lparr>world_sockets := ws, world_owners := (world_owners w)[k := own], world_events := world_events w @ evs\<rparr>)"
    (is "socket_inv ?w'")
proof -
  let ?t = "world_sockets w" and ?n = "length (socket_heap (world_sockets w))"
  have t: "table_inv ?t" using inv by (simp add: socket_inv_def)
  let ?u = "?t\<lparr>socket_heap := socket_heap ?t @ [s]\<rparr>"
  obtain i tab av where raw: "Some own = Some (snd (insert_id i (world_owners w ! k)))" "evs = [Put_Row i (sock_info (at_socket ?u ?n))]"
      "ws = attach_socket ?n i True (?u\<lparr>socket_table := tab, socket_available := av\<rparr>)"
    and raw_place: "case find_available (socket_available ?u) of
       Some pos \<Rightarrow> i = pos \<and> tab = (socket_table ?u)[pos := Some ?n] \<and> av = (socket_available ?u)[pos := False]
     | None \<Rightarrow> i = length (socket_table ?u) \<and> tab = socket_table ?u @ [Some ?n] \<and> av = socket_available ?u @ [False]"
    by (rule add_socket_Ok [OF add])
  have res: "own = snd (insert_id i (world_owners w ! k))" "evs = [Put_Row i (sock_info s)]"
      "ws = attach_socket ?n i True (?t\<lparr>socket_heap := socket_heap ?t @ [s], socket_table := tab, socket_available := av\<rparr>)"
    using raw by (simp_all add: at_socket_def)
  have place: "case find_available (socket_available ?t) of
       Some pos \<Rightarrow> i = pos \<and> tab = (socket_table ?t)[pos := Some ?n] \<and> av = (socket_available ?t)[pos := False]
     | None \<Rightarrow> i = length (socket_table ?t) \<and> tab = socket_table ?t @ [Some ?n] \<and> av = socket_available ?t @ [False]"
    using raw_place by (simp split: option.splits)
  have slot: "lookup_socket ?t (int i) = None \<and> length av = length tab \<and> i < length tab \<and> \<not> av ! i"
    "(if fd < 0 \<or> int (length tab) \<le> fd then None else tab ! nat fd) = (if fd = int i then Some ?n else lookup_socket ?t fd)"
    "j \<noteq> i \<Longrightarrow> j < length tab \<Longrightarrow> tab ! j \<noteq> None \<Longrightarrow> \<not> av ! j" for fd j
  proof -
    have av: "length (socket_available ?t) = length (socket_table ?t)"
      "\<And>j. j < length (socket_table ?t) \<Longrightarrow> socket_table ?t ! j \<noteq> None \<Longrightarrow> \<not> socket_available ?t ! j"
      using t by (auto simp: table_inv_def)
    show "lookup_socket ?t (int i) = None \<and> length av = length tab \<and> i < length tab \<and> \<not> av ! i"
      using place av(1) find_available_free [OF t] by (cases "find_available (socket_available ?t)") (auto simp: lookup_nat nth_append)
    show "(if fd < 0 \<or> int (length tab) \<le> fd then None else tab ! nat fd) = (if fd = int i then Some ?n else lookup_socket ?t fd)"
      using place find_available_free [OF t]
      by (cases "find_available (socket_available ?t)") (auto simp: lookup_socket_def nth_append nth_list_update)
    show "j \<noteq> i \<Longrightarrow> j < length tab \<Longrightarrow> tab ! j \<noteq> None \<Longrightarrow> \<not> av ! j"
      using place av by (cases "find_available (socket_available ?t)") (auto simp: nth_append less_Suc_eq)
  qed
  have none: "holders w i = 0" using slot(1) inv by (simp add: socket_inv_def locks_inv_def)
  have fresh: "i \<notin> set (world_owners w ! k)"
  proof
    assume "i \<in> set (world_owners w ! k)"
    then show False using holders_change [OF k, of w "world_owners w ! k" "[]" i] none k
      sum_list_at [OF k, of "\<lambda>own. of_bool (i \<in> set own)" "[]"]
      by (simp add: holders_def)
  qed
  then have own: "own = insort i (world_owners w ! k)" by (simp add: res(1) insert_id_def)
  let ?s' = "s\<lparr>sock_id := i, sock_attached := True, autoClosing := True, closeLocks := 1\<rparr>"
  have ws: "ws = ?t\<lparr>socket_heap := socket_heap ?t @ [?s'], socket_table := tab, socket_available := av\<rparr>"
    by (simp add: res(3) attach_socket_def set_socket_def at_socket_def)
  show ?thesis
  proof (rule attach_inv [OF inv, where i = i and s' = ?s'])
    show "world_socket ?w' p = (if lookup_socket ?t (int i) = Some p then (world_socket w p)\<lparr>sock_attached := False\<rparr>
        else world_socket w p)" if "p < ?n" for p
      using that slot(1) by (simp add: ws at_socket_def nth_append)
    show "lookup_socket (world_sockets ?w') fd = (if fd = int i then Some ?n else lookup_socket ?t fd)" for fd
    proof -
      have "lookup_socket (world_sockets ?w') fd = (if fd < 0 \<or> int (length tab) \<le> fd then None else tab ! nat fd)"
        by (simp add: ws lookup_socket_def)
      then show ?thesis using slot(2) [of fd] by (rule trans)
    qed
    show "\<not> socket_available (world_sockets ?w') ! j" if "lookup_socket (world_sockets ?w') (int j) = Some q" for j q
      using that slot(1) slot(3) [of j] by (cases "j = i") (auto simp: ws lookup_nat split: if_splits)
    have "holders ?w' j = holders w j + of_bool (j = i)" for j
      using holders_change [OF k, of ?w' own "[]" j] fresh by (cases "j = i") (auto simp: own set_insort_key)
    then show "closeLocks ?s' = of_nat (holders ?w' i)" "\<And>j. j \<noteq> i \<Longrightarrow> holders ?w' j = holders w j"
      using none by simp_all
    show "\<forall>x \<in> set (world_owners ?w'). distinct x"
      using owners_update_distinct [OF inv, of own k] owner_distinct [OF inv k] fresh by (simp add: own distinct_insort)
  qed (use t s slot(1) in \<open>simp_all add: ws at_socket_def nth_append new_socket_def table_inv_def res(2)\<close>)
qed


section \<open>Applying the changes of a transaction\<close>

lemma flags_step_inv:
  assumes inv: "socket_inv w" and k: "k < length (world_owners w)" and tab: "in_table w r"
    and opened: "\<not> sock_closed (world_socket w r)"
    and s1: "updateSocketFlags (world_socket w r) flags v (world_owners w ! k) = (s', own)"
  shows "socket_inv (w\<lparr>world_sockets := set_socket r s' (world_sockets w), world_owners := (world_owners w)[k := own]\<rparr>)"
    (is "socket_inv ?w'")
proof -
  note f = in_table_facts [OF inv tab] and u = updateSocketFlags_props [OF s1 owner_distinct [OF inv k]]
  let ?i = "sock_id (world_socket w r)"
  show ?thesis
  proof (rule socket_inv_update [OF inv tab u(1)])
    show "holders ?w' j = holders w j" if "j \<noteq> ?i" for j
      using holders_change [OF k, of ?w' own "[]" j] u(4) [OF that] by simp
    show "closeLocks s' = of_nat (holders ?w' ?i)"
      using holders_change_word [OF k, of ?w' own "[]" ?i] u(5) f(2) by simp
    show "\<forall>x \<in> set (world_owners ?w'). distinct x" using owners_update_distinct [OF inv u(3)] by simp
    show "world_events ?w' = world_events w @ []" by simp
  qed (use opened u(2) in simp_all)
qed

lemma in_table_set:
  assumes "r < length (socket_heap (world_sockets w))" "keeps_place (world_socket w r) s'"
    "world_sockets w' = set_socket r s' (world_sockets w)"
  shows "in_table w' q \<longleftrightarrow> in_table w q" "sock_id (world_socket w' q) = sock_id (world_socket w q)"
  using assms by (auto simp: in_table_def at_set_socket keeps_place_def)

lemma update_all_inv:
  assumes "socket_inv w" "k < length (world_owners w)"
    "\<forall>c \<in> set cs. in_table w (change_socket c) \<and> \<not> sock_closed (world_socket w (change_socket c))"
    "update_all cs (world_owners w ! k) (world_sockets w) = (own, ws)"
  shows "socket_inv (w\<lparr>world_sockets := ws, world_owners := (world_owners w)[k := own]\<rparr>) \<and>
    (\<forall>q. in_table (w\<lparr>world_sockets := ws, world_owners := (world_owners w)[k := own]\<rparr>) q \<longleftrightarrow> in_table w q)"
  using assms
proof (induction cs arbitrary: w)
  case (Cons c cs)
  let ?r = "change_socket c"
  obtain s' own1 where s': "updateSocketFlags (world_socket w ?r) (change_mask c) (change_value c) (world_owners w ! k) = (s', own1)"
    by force
  have r: "in_table w ?r" "\<not> sock_closed (world_socket w ?r)" using Cons.prems(3) by simp_all
  let ?v = "w\<lparr>world_sockets := set_socket ?r s' (world_sockets w), world_owners := (world_owners w)[k := own1]\<rparr>"
  note u = updateSocketFlags_props [OF s' owner_distinct [OF Cons.prems(1,2)]] and f = in_table_facts [OF Cons.prems(1) r(1)]
  have v: "in_table ?v q \<longleftrightarrow> in_table w q" "sock_closed (world_socket ?v q) = sock_closed (world_socket w q)" for q
    using in_table_set [OF f(1) u(1), of ?v] u(2) by (auto simp: at_set_socket f(1))
  have "socket_inv ?v" by (rule flags_step_inv [OF Cons.prems(1,2) r s'])
  moreover have "update_all cs (world_owners ?v ! k) (world_sockets ?v) = (own, ws)"
    using Cons.prems(2,4) s' by simp
  moreover have "\<forall>c \<in> set cs. in_table ?v (change_socket c) \<and> \<not> sock_closed (world_socket ?v (change_socket c))"
    using Cons.prems(3) v by simp
  ultimately show ?case using Cons.IH [of ?v] Cons.prems(2) v by simp
qed auto

lemma pending_flags:
  fixes v :: u32
  shows "has_flag ((v AND setP2PFlag) OR x) flag_recv = has_flag x flag_recv"
    "has_flag ((v AND setP2PFlag) OR x) flag_lockClose = has_flag x flag_lockClose"
    "has_flag (v AND setP2PFlag) flag_recv = False" "has_flag (v AND setP2PFlag) flag_lockClose = False"
  by (simp_all add: has_flag_def setP2PFlag_def flag_recv_def flag_lockClose_def bit.conj_disj_distrib2 and.assoc)

text \<open>The change as the second loop leaves it: what is still to be done for its socket.\<close>

lemma change_events_pending:
  assumes "v = (if acq then v0 OR flag_recv else v0)" "v' = (if close then v OR flag_lockClose else v)"
    "v0 = change_value c AND setP2PFlag"
  shows "\<exists>p2p. change_events (c\<lparr>change_value := v'\<rparr>) = (if p2p then [Enable_P2P (change_socket c)] else []) @
    (if acq then [On_Lock (change_socket c)] else []) @ (if close then [On_Close (change_socket c)] else [])"
proof -
  have "has_flag v' flag_recv = acq" "has_flag v' flag_lockClose = close"
    using assms pending_flags [of "change_value c"]
    by (auto simp: or.assoc) (auto simp: has_flag_def flag_recv_def flag_lockClose_def)
  then show ?thesis by (auto simp: change_events_def)
qed

lemma process_pending_inv:
  assumes "socket_inv w" "\<forall>c \<in> set cs. in_table w (change_socket c)"
    "process_pending cs (world_sockets w) = (cs', ws)" "evs = concat (map change_events cs')"
  shows "socket_inv (w\<lparr>world_sockets := ws, world_locks := world_locks w @ lock_tokens ws evs, world_events := world_events w @ evs\<rparr>) \<and>
    (\<forall>q. sock_id (at_socket ws q) = sock_id (world_socket w q))"
  using assms
proof (induction cs arbitrary: w cs' evs)
  case Nil
  then show ?case by (auto simp: lock_tokens_def)
next
  case (Cons c cs)
  let ?r = "change_socket c" and ?s = "world_socket w (change_socket c)"
  obtain acq s2 where s2: "tryConsumeRecv ?s = (acq, s2)" by force
  obtain close s3 where s3: "tryClose s2 = (close, s3)" by force
  let ?t = "set_socket ?r s3 (world_sockets w)"
  define v where "v = (if acq then (change_value c AND setP2PFlag) OR flag_recv else change_value c AND setP2PFlag)"
  define v' where "v' = (if close then v OR flag_lockClose else v)"
  obtain cs1 where rest: "process_pending cs ?t = (cs1, ws)" and hd: "cs' = c\<lparr>change_value := v'\<rparr> # cs1"
    using Cons.prems(3) s2 s3 by (auto simp: Let_def v_def v'_def split: prod.splits)
  obtain p2p where ev: "change_events (hd cs') = (if p2p then [Enable_P2P ?r] else []) @
      (if acq then [On_Lock ?r] else []) @ (if close then [On_Close ?r] else [])"
    using change_events_pending [OF v_def v'_def refl] by (auto simp: hd)
  have tab: "in_table w ?r" using Cons.prems(2) by simp
  note f = in_table_facts [OF Cons.prems(1) tab] and c = tryConsumeRecv_props [OF s2] and t = tryClose_props [OF s3]
  have place: "keeps_place ?s s3" using c(1) t(1) by (rule keeps_place_trans)
  have closed: "\<not> acq" if "sock_closed ?s" using f(3) [OF that] s2 by (auto simp: tryConsumeRecv_def isClosing_def split: if_splits)
  let ?tok = "if acq then [sock_id ?s] else []"
  let ?v = "w\<lparr>world_sockets := ?t, world_locks := world_locks w @ ?tok, world_events := world_events w @ change_events (hd cs')\<rparr>"
  have v: "in_table ?v p \<longleftrightarrow> in_table w p" "sock_id (at_socket ?t p) = sock_id (world_socket w p)" for p
    using in_table_set [OF f(1) place, of ?v] by simp_all
  have "socket_inv ?v"
  proof (rule socket_inv_update [OF Cons.prems(1) tab place])
    show "holders ?v j = holders w j" if "j \<noteq> sock_id ?s" for j using that by (simp add: holders_def)
    show "closeLocks s3 = of_nat (holders ?v (sock_id ?s))" using f(2) c(3) t(2) by (simp add: holders_def)
    show "sock_closed s3 \<Longrightarrow> isClosing s3"
    proof (rule tryClose_closed [OF s3])
      show "sock_closed s2 \<Longrightarrow> isClosing s2"
        using closed f(3) s2 c(2) by (auto simp: tryConsumeRecv_def split: if_splits)
    qed
    show "\<forall>x \<in> set (world_owners ?v). distinct x" using Cons.prems(1) by (simp add: socket_inv_def locks_inv_def)
    show "count_list (change_events (hd cs')) (On_Close q) = (if q = ?r \<and> sock_closed s3 \<and> \<not> sock_closed ?s then 1 else 0)" for q
      using t(3,4) c(2) by (auto simp: ev)
    show "sock_closed ?s \<Longrightarrow> sock_closed s3" using t(4) c(2) by simp
  qed simp_all
  moreover have "\<forall>c \<in> set cs. in_table ?v (change_socket c)" using Cons.prems(2) v by simp
  moreover have "process_pending cs (world_sockets ?v) = (cs1, ws)" using rest by simp
  ultimately have IH: "socket_inv (?v\<lparr>world_sockets := ws, world_locks := world_locks ?v @ lock_tokens ws (concat (map change_events cs1)),
      world_events := world_events ?v @ concat (map change_events cs1)\<rparr>)" "\<And>p. sock_id (at_socket ws p) = sock_id (world_socket ?v p)"
    using Cons.IH [of ?v cs1 "concat (map change_events cs1)"] by blast+
  have evs: "evs = change_events (hd cs') @ concat (map change_events cs1)" using Cons.prems(4) by (simp add: hd)
  have "lock_tokens ws evs = ?tok @ lock_tokens ws (concat (map change_events cs1))"
    using IH(2) [of ?r] v(2) [of ?r] by (simp add: lock_tokens_def evs ev)
  with IH v(2) evs show ?case by simp
qed

lemma act_apply_inv:
  assumes inv: "socket_inv w" and k: "k < length (world_owners w)" and tab: "\<forall>c \<in> set diff. in_table w (change_socket c)"
    and app: "applyChanges diff (world_owners w ! k) (world_sockets w) = (ok, own, ws, evs)"
  shows "socket_inv (w\<lparr>world_sockets := ws, world_owners := (world_owners w)[k := own],
      world_locks := world_locks w @ lock_tokens ws evs, world_events := world_events w @ evs\<rparr>)"
proof (cases "list_ex (\<lambda>c. checkSocketFlags (world_socket w (change_socket c)) \<noteq> Errno_ok) diff")
  case True
  then have "ws = world_sockets w" "own = world_owners w ! k" "evs = []" using app by (simp_all add: applyChanges_def)
  then show ?thesis using inv by (simp add: lock_tokens_def)
next
  case False
  obtain own1 ws1 where up: "update_all diff (world_owners w ! k) (world_sockets w) = (own1, ws1)" by force
  obtain cs' ws2 where pp: "process_pending diff ws1 = (cs', ws2)" by force
  have res: "own = own1" "ws = ws2" "evs = concat (map change_events cs')"
    using app False up pp by (simp_all add: applyChanges_def)
  have "\<forall>c \<in> set diff. in_table w (change_socket c) \<and> \<not> sock_closed (world_socket w (change_socket c))"
    using False tab in_table_facts(3) [OF inv] by (auto simp: list_ex_iff checkSocketFlags_def split: if_splits)
  note v = update_all_inv [OF inv k this up]
  have "socket_inv (w\<lparr>world_owners := (world_owners w)[k := own1], world_sockets := ws2,
      world_locks := world_locks w @ lock_tokens ws2 evs, world_events := world_events w @ evs\<rparr>)"
    using process_pending_inv [OF v [THEN conjunct1], of diff cs' ws2 evs] v tab pp by (simp add: res)
  then show ?thesis by (cases w) (simp add: res(1,2))
qed

section \<open>Safety\<close>

lemma socket_steps_inv: "socket_steps n w \<Longrightarrow> socket_inv w \<and> bounded_holders w"
proof (induction rule: socket_steps.induct)
  case start
  have "holders \<lparr>world_sockets = t, world_owners = replicate n [], world_locks = [], world_events = []\<rparr> i = 0" for t i
    by (induction n) (simp_all add: holders_def)
  then show ?case
    by (simp add: socket_inv_def table_inv_def locks_inv_def closed_inv_def events_inv_def lookup_socket_def bounded_holders_def)
next
  case (step w w')
  then have inv: "socket_inv w" "bounded_holders w" by auto
  from step(2) show ?case
  proof (cases rule: socket_act.cases)
    case act_add
    then show ?thesis using act_add_inv inv step by blast
  next
    case act_flags
    then show ?thesis using act_flags_inv inv step by blast
  next
    case act_apply
    then show ?thesis using act_apply_inv inv step by blast
  next
    case act_async_close
    then show ?thesis using act_async_close_inv inv step by blast
  next
    case act_lock_recv
    then show ?thesis using act_lock_recv_inv inv step by blast
  next
    case act_lock_close
    then show ?thesis using act_lock_close_inv inv step by blast
  next
    case act_unlock
    then show ?thesis using act_unlock_inv inv step by blast
  next
    case act_set_owner
    then show ?thesis using act_set_owner_inv inv step by blast
  next
    case act_close_owned
    then show ?thesis using act_close_owned_inv inv step by blast
  next
    case act_remove
    then show ?thesis using act_remove_inv inv step by blast
  next
    case act_replace
    then show ?thesis using act_replace_inv inv step by blast
  qed
qed


lemma reachable_held:
  assumes "socket_steps n w" "0 < holders w i"
  obtains r where "lookup_socket (world_sockets w) (int i) = Some r" "in_table w r" "sock_id (world_socket w r) = i"
    "\<not> sock_closed (world_socket w r)" "unat (closeLocks (world_socket w r)) = holders w i"
proof -
  have inv: "socket_inv w" "bounded_holders w" using socket_steps_inv [OF assms(1)] by auto
  obtain r where r: "lookup_socket (world_sockets w) (int i) = Some r" "in_table w r" "sock_id (world_socket w r) = i"
    using held_in_table [OF inv(1) assms(2)] by blast
  have "unat (of_nat (holders w i) :: u16) = holders w i"
    using inv(2) by (simp add: bounded_holders_def unat_of_nat take_bit_nat_eq_self)
  then show ?thesis using that r held_open(2) [OF inv r(2)] in_table_facts(2) [OF inv(1) r(2)] assms(2) by simp
qed



section \<open>Examples\<close>

definition ex_socket :: socket where
  "ex_socket = \<lparr>sock_id = 0, sock_info = [], sock_canAutoClose = True, sock_supportsP2P = False, sock_attached = False,
     sock_closed = False, forceClose = False, notifyClose = False, autoClosing = False, receiving = False,
     closeLocks = 0, pendingRecv = False\<rparr>"

definition ex_added :: socket_world where
  "ex_added = \<lparr>world_sockets = \<lparr>socket_heap = [ex_socket\<lparr>sock_attached := True, autoClosing := True, closeLocks := 1\<rparr>],
       socket_table = [Some 0], socket_available = [False], socket_stopped = False\<rparr>,
     world_owners = [[0]], world_locks = [], world_events = [Put_Row 0 []]\<rparr>"

lemma ex_added_steps: "socket_steps 1 ex_added"
proof (rule socket_steps.step [OF socket_steps.start])
  let ?w = "\<lparr>world_sockets = \<lparr>socket_heap = [], socket_table = [], socket_available = [], socket_stopped = False\<rparr>,
    world_owners = replicate 1 [], world_locks = [], world_events = []\<rparr>"
  have "new_socket ex_socket" by (simp add: new_socket_def ex_socket_def)
  moreover have "add_socket (length (socket_heap (world_sockets ?w))) (Some (world_owners ?w ! 0))
      ((world_sockets ?w)\<lparr>socket_heap := socket_heap (world_sockets ?w) @ [ex_socket]\<rparr>) =
      Ok (Some [0], world_sockets ex_added, [Put_Row 0 []])"
    by (simp add: add_socket_def find_available_def result_simps attach_socket_def at_socket_def set_socket_def
        insert_id_def ex_socket_def ex_added_def)
  ultimately have "socket_act ?w (?w\<lparr>world_sockets := world_sockets ex_added, world_owners := (world_owners ?w)[0 := [0]],
      world_events := world_events ?w @ [Put_Row 0 []]\<rparr>)"
    by (intro socket_act.act_add [where k = 0]) simp_all
  then show "socket_act ?w ex_added" by (simp add: ex_added_def)
  show "bounded_holders ex_added" by (simp add: bounded_holders_def holders_def ex_added_def)
qed


text \<open>The context gives up its socket, which is closed.\<close>

definition ex_closed :: socket_world where
  "ex_closed = ex_added\<lparr>world_sockets := (world_sockets ex_added)\<lparr>socket_heap := [ex_socket\<lparr>sock_attached := True,
      sock_closed := True, autoClosing := True\<rparr>]\<rparr>, world_owners := [[]], world_events := [Put_Row 0 [], On_Close 0]\<rparr>"

lemma ex_closed_steps: "socket_steps 1 ex_closed"
proof (rule socket_steps.step [OF ex_added_steps])
  have "close_owned (world_owners ex_added ! 0) (world_sockets ex_added) = Ok ([], world_sockets ex_closed, [On_Close 0])"
    by (simp add: close_owned_def ex_added_def ex_closed_def ex_socket_def lookup_socket_def at_socket_def tryClose_def
        isClosing_def closeRequested_def set_socket_def)
  then have "socket_act ex_added (ex_added\<lparr>world_sockets := world_sockets ex_closed, world_owners := (world_owners ex_added)[0 := []],
      world_events := world_events ex_added @ [On_Close 0]\<rparr>)"
    by (intro socket_act.act_close_owned) (simp_all add: ex_added_def)
  then show "socket_act ex_added ex_closed" by (simp add: ex_added_def ex_closed_def)
  show "bounded_holders ex_closed" by (simp add: bounded_holders_def holders_def ex_added_def ex_closed_def)
qed


section \<open>Where the guarantees end\<close>



end
