(* ===== verification/Change_Sets.thy ===== *)
theory Change_Sets
  imports Key_Values
begin

text \<open>
  The ranges of keys a subjective transaction has read or written: \<open>DbChangeSet\<close> and \<open>prepare\<close> of
  libraries/psibase/native/src/useTriedent.cpp.
\<close>

record key_range =
  range_lower :: bytes
  range_upper :: bytes
  range_write :: bool

type_synonym change_set = "key_range list"

section \<open>Recording accesses\<close>

definition onRead :: "bytes \<Rightarrow> change_set \<Rightarrow> change_set" where
  "onRead key cs = cs @ [\<lparr>range_lower = keyExact key, range_upper = keyNext key, range_write = False\<rparr>]"

definition onGreaterEqual :: "bytes \<Rightarrow> nat \<Rightarrow> bytes option \<Rightarrow> change_set \<Rightarrow> change_set" where
  "onGreaterEqual key prefixLen found cs =
     cs @ [\<lparr>range_lower = keyExact key,
            range_upper = (case found of Some result \<Rightarrow> keyNext result | None \<Rightarrow> keyNextPrefix (take prefixLen key)),
            range_write = False\<rparr>]"

definition onLessThan :: "bytes \<Rightarrow> nat \<Rightarrow> bytes option \<Rightarrow> change_set \<Rightarrow> change_set" where
  "onLessThan key prefixLen found cs =
     cs @ [\<lparr>range_lower = (case found of Some result \<Rightarrow> keyExact result | None \<Rightarrow> keyExact (take prefixLen key)),
            range_upper = keyExact key, range_write = False\<rparr>]"

definition onMax :: "bytes \<Rightarrow> bytes option \<Rightarrow> change_set \<Rightarrow> change_set" where
  "onMax key found cs =
     cs @ [\<lparr>range_lower = (case found of Some result \<Rightarrow> keyExact result | None \<Rightarrow> keyExact key),
            range_upper = keyNextPrefix key, range_write = False\<rparr>]"

definition onWrite :: "bytes \<Rightarrow> change_set \<Rightarrow> change_set" where
  "onWrite key cs = cs @ [\<lparr>range_lower = keyExact key, range_upper = keyNext key, range_write = True\<rparr>]"

section \<open>Merging\<close>

text \<open>The loop of \<open>prepare\<close>: \<open>out\<close> is the range being built, the list what is left of the sorted ranges.\<close>

definition absorb_range :: "key_range \<Rightarrow> key_range \<Rightarrow> key_range" where
  "absorb_range out pos =
     out\<lparr>range_write := range_write out \<or> range_write pos,
         range_upper := (if range_upper out < range_upper pos \<or> range_upper pos = [] then range_upper pos
                         else range_upper out)\<rparr>"

fun merge_ranges :: "key_range \<Rightarrow> key_range list \<Rightarrow> key_range list" where
  "merge_ranges out [] = [out]"
| "merge_ranges out (pos # rest) =
     (if range_upper out = [] then
        [out\<lparr>range_write := range_write out \<or> list_ex range_write (pos # rest)\<rparr>]
      else if range_lower pos \<le> range_upper out then
        merge_ranges (absorb_range out pos) rest
      else out # merge_ranges pos rest)"

definition prepare :: "change_set \<Rightarrow> change_set" where
  "prepare changes =
     (case sort_key range_lower changes of
        [] \<Rightarrow> []
      | out # rest \<Rightarrow> merge_ranges out rest)"

section \<open>What a change set covers\<close>

definition covers :: "key_range \<Rightarrow> bytes \<Rightarrow> bool" where
  "covers r k = in_range (range_lower r) (range_upper r) k"

definition touched :: "change_set \<Rightarrow> bytes set" where
  "touched cs = {k. \<exists>r \<in> set cs. covers r k}"

definition written :: "change_set \<Rightarrow> bytes set" where
  "written cs = {k. \<exists>r \<in> set cs. range_write r \<and> covers r k}"

text \<open>Sorted, with a gap between a range and the next.\<close>

fun separated :: "change_set \<Rightarrow> bool" where
  "separated (r # s # cs) \<longleftrightarrow> range_upper r \<noteq> [] \<and> range_upper r < range_lower s \<and> separated (s # cs)"
| "separated _ \<longleftrightarrow> True"

definition ranges_ok :: "change_set \<Rightarrow> bool" where
  "ranges_ok cs \<longleftrightarrow> (\<forall>r \<in> set cs. range_ok (range_lower r) (range_upper r))"

lemma touched_simps [simp]:
  "touched [] = {}" "touched (r # cs) = {k. covers r k} \<union> touched cs" "touched (cs @ ds) = touched cs \<union> touched ds"
  by (auto simp: touched_def)

lemma written_simps [simp]:
  "written [] = {}" "written (r # cs) = (if range_write r then {k. covers r k} else {}) \<union> written cs"
  "written (cs @ ds) = written cs \<union> written ds"
  by (auto simp: written_def)

lemma ranges_ok_simps [simp]:
  "ranges_ok []" "ranges_ok (r # cs) \<longleftrightarrow> range_ok (range_lower r) (range_upper r) \<and> ranges_ok cs"
  "ranges_ok (cs @ ds) \<longleftrightarrow> ranges_ok cs \<and> ranges_ok ds"
  by (auto simp: ranges_ok_def)

lemma written_touched: "written cs \<subseteq> touched cs"
  by (auto simp: written_def touched_def)

named_theorems accesses \<open>the ranges recorded for each access\<close>

lemma written_access [accesses]:
  "written (onRead key cs) = written cs" "written (onGreaterEqual key n f cs) = written cs"
  "written (onLessThan key n f cs) = written cs" "written (onMax key f cs) = written cs"
  "written (onWrite key cs) = insert key (written cs)"
  by (auto simp: onRead_def onGreaterEqual_def onLessThan_def onMax_def onWrite_def covers_def in_range_keyNext keyExact_def)

lemma touched_access [accesses]:
  "touched (onRead key cs) = insert key (touched cs)"
  "touched (onWrite key cs) = insert key (touched cs)"
  "touched (onGreaterEqual key n f cs) = touched cs \<union>
     {k. in_range key (case f of Some a \<Rightarrow> keyNext a | None \<Rightarrow> keyNextPrefix (take n key)) k}"
  "touched (onLessThan key n f cs) = touched cs \<union> {k. in_range (case f of Some a \<Rightarrow> a | None \<Rightarrow> take n key) key k}"
  "touched (onMax key f cs) = touched cs \<union> {k. in_range (case f of Some a \<Rightarrow> a | None \<Rightarrow> key) (keyNextPrefix key) k}"
  by (auto simp: onRead_def onGreaterEqual_def onLessThan_def onMax_def onWrite_def covers_def in_range_keyNext
      keyExact_def split: option.splits)

lemma prefix_next_ok: "prefix p k \<Longrightarrow> range_ok k (keyNextPrefix p)"
  using in_range_prefix [of p k] by (auto simp: in_range_def range_ok_def)

lemma ranges_ok_access [accesses]:
  "ranges_ok (onRead key cs) \<longleftrightarrow> ranges_ok cs"
  "ranges_ok (onWrite key cs) \<longleftrightarrow> ranges_ok cs"
  "ranges_ok cs \<Longrightarrow> (\<forall>a. f = Some a \<longrightarrow> key \<le> a) \<Longrightarrow> ranges_ok (onGreaterEqual key n f cs)"
  "ranges_ok cs \<Longrightarrow> (\<forall>a. f = Some a \<longrightarrow> a < key) \<Longrightarrow> ranges_ok (onLessThan key n f cs)"
  "ranges_ok cs \<Longrightarrow> (\<forall>a. f = Some a \<longrightarrow> prefix key a) \<Longrightarrow> ranges_ok (onMax key f cs)"
  by (auto simp: onRead_def onGreaterEqual_def onLessThan_def onMax_def onWrite_def keyExact_def
      range_ok_def [of _ "keyNext _"] less_imp_le prefix_next_ok prefix_le take_is_prefix range_ok_def [of _ key]
      split: option.splits)

section \<open>Merging keeps the coverage\<close>

lemma covers_before_end:
  "covers r k \<longleftrightarrow> range_lower r \<le> k \<and> (range_upper r = [] \<or> k < range_upper r)"
  by (simp add: covers_def in_range_def)

lemma merge_ranges_correct:
  assumes "sorted (map range_lower (out # rest))"
  shows "touched (merge_ranges out rest) = touched (out # rest) \<and>
    written (out # rest) \<subseteq> written (merge_ranges out rest) \<and>
    (range_lower (hd (merge_ranges out rest)) = range_lower out \<and> merge_ranges out rest \<noteq> []) \<and>
    separated (merge_ranges out rest) \<and>
    (list_ex range_write (merge_ranges out rest) \<longleftrightarrow> list_ex range_write (out # rest))"
  using assms
proof (induction out rest rule: merge_ranges.induct)
  case (2 out pos rest)
  consider (rest) "range_upper out = []"
    | (join) "range_upper out \<noteq> []" "range_lower pos \<le> range_upper out"
    | (new) "range_upper out \<noteq> []" "\<not> range_lower pos \<le> range_upper out" by blast
  then show ?case
  proof cases
    case rest
    have "range_lower out \<le> range_lower r" if "r \<in> set (pos # rest)" for r using 2 that by auto
    then have "covers out k" if "r \<in> set (pos # rest)" "covers r k" for r k
      using rest that by (fastforce simp: covers_before_end intro: order_trans)
    then have below: "touched (pos # rest) \<subseteq> {k. covers out k}" unfolding touched_def by blast
    let ?out = "out\<lparr>range_write := range_write out \<or> list_ex range_write (pos # rest)\<rparr>"
    have out: "merge_ranges out (pos # rest) = [?out]" "covers ?out = covers out"
      using rest by (simp_all add: fun_eq_iff covers_def)
    have "touched [?out] = touched (out # pos # rest)"
      using below unfolding touched_simps(2) [of out] touched_simps(2) [of ?out] out(2) by auto
    moreover have "written (pos # rest) \<subseteq> (if list_ex range_write (pos # rest) then {k. covers out k} else {})"
      using below written_touched [of "pos # rest"] unfolding written_def list_ex_iff by auto
    then have "written (out # pos # rest) \<subseteq> written [?out]"
      unfolding written_simps(2) [of out] written_simps(2) [of ?out] out(2) by (auto split: if_splits)
    ultimately show ?thesis unfolding out(1) by simp
  next
    case join
    let ?out = "absorb_range out pos"
    have merged: "merge_ranges out (pos # rest) = merge_ranges ?out rest" using join by simp
    have out: "range_lower ?out = range_lower out" "range_write ?out = (range_write out \<or> range_write pos)"
      by (simp_all add: absorb_range_def)
    have "range_lower out \<le> range_lower pos" using 2 by simp
    with join have both: "{k. covers ?out k} = {k. covers out k} \<union> {k. covers pos k}"
      by (auto simp: covers_before_end absorb_range_def intro: order_trans dest: less_le_trans order.trans)
    have "sorted (map range_lower (?out # rest))" using 2 out by auto
    note IH = "2.IH"(1) [OF join(1,2) this]
    have "touched (?out # rest) = touched (out # pos # rest)" "written (out # pos # rest) \<subseteq> written (?out # rest)"
      using both out by auto
    moreover have "list_ex range_write (?out # rest) \<longleftrightarrow> list_ex range_write (out # pos # rest)" using out by auto
    ultimately show ?thesis using IH out(1) unfolding merged by (metis subset_trans)
  next
    case new
    have "sorted (map range_lower (pos # rest))" using 2 by auto
    note IH = "2.IH"(2) [OF new this]
    obtain s cs where m: "merge_ranges pos rest = s # cs" "range_lower s = range_lower pos"
      using IH by (cases "merge_ranges pos rest") auto
    have merged: "merge_ranges out (pos # rest) = out # s # cs" using new m by simp
    have "touched (s # cs) = touched (pos # rest)" "written (pos # rest) \<subseteq> written (s # cs)" "separated (s # cs)"
      "list_ex range_write (s # cs) = list_ex range_write (pos # rest)"
      using IH unfolding m(1) by blast+
    with new m(2) show ?thesis
      unfolding merged touched_simps(2) [of out] written_simps(2) [of out] list.sel separated.simps list_ex_iff
      by (intro conjI) (auto simp only: not_le list.set)
  qed
qed simp

lemma prepare_cases:
  obtains "cs = []" "prepare cs = []"
  | out rest where "sort_key range_lower cs = out # rest" "prepare cs = merge_ranges out rest"
      "sorted (map range_lower (out # rest))" "set cs = set (out # rest)"
proof (cases "sort_key range_lower cs")
  case Nil
  moreover from this have "cs = []" by (metis length_0_conv length_sort)
  ultimately show ?thesis using that(1) by (simp add: prepare_def)
next
  case (Cons out rest)
  then show ?thesis
    using that(2) [of out rest] sorted_sort_key [of range_lower cs] set_sort [of range_lower cs]
    by (simp add: prepare_def del: set_sort)
qed

lemma prepare_props:
  "touched (prepare cs) = touched cs \<and> written cs \<subseteq> written (prepare cs) \<and> separated (prepare cs) \<and>
    list_ex range_write (prepare cs) = list_ex range_write cs"
proof (cases cs rule: prepare_cases)
  case (2 out rest)
  have "touched cs = touched (out # rest)" "written cs = written (out # rest)"
    "list_ex range_write cs = list_ex range_write (out # rest)"
    unfolding touched_def written_def list_ex_iff 2(4) by (rule refl)+
  with merge_ranges_correct [OF 2(3)] show ?thesis unfolding 2(2) by metis
qed simp

lemma merge_ranges_ok: "ranges_ok (out # rest) \<Longrightarrow> sorted (map range_lower (out # rest)) \<Longrightarrow> ranges_ok (merge_ranges out rest)"
proof (induction out rest rule: merge_ranges.induct)
  case (2 out pos rest)
  have "range_ok (range_lower (absorb_range out pos)) (range_upper (absorb_range out pos))"
    using 2(3,4) order_trans [of "range_lower out" "range_lower pos" "range_upper pos"]
    by (auto simp: range_ok_def absorb_range_def)
  moreover have "range_lower (absorb_range out pos) = range_lower out" by (simp add: absorb_range_def)
  ultimately show ?case using 2 by (simp add: range_ok_def [of _ "[]"])
qed simp

lemma ranges_ok_prepare: "ranges_ok cs \<Longrightarrow> ranges_ok (prepare cs)"
proof (cases cs rule: prepare_cases)
  case (2 out rest)
  then show "ranges_ok cs \<Longrightarrow> ranges_ok (prepare cs)" using merge_ranges_ok [OF _ 2(3)] by (simp add: ranges_ok_def)
qed simp

end
