(* ===== verification/Databases.thy ===== *)
theory Databases
  imports Change_Sets Sockets
begin

text \<open>
  Revisions, sessions and subjective transactions: libraries/psibase/native/src/useTriedent.cpp. A root of
  the trie is the ordered list of its rows; roots are persistent values, so that sharing them needs no
  addresses. \<open>is_equal_weak\<close> of the trie may give up on roots that are equal, and is a parameter.

  Vectors used as stacks (\<open>writeRevisions\<close>, \<open>subjectiveRevisions\<close>) have their back at the head of the list.
\<close>

section \<open>Databases and their numbers\<close>

type_synonym db_id = u32

definition db_service :: db_id where "db_service = 0"
definition db_native :: db_id where "db_native = 2"
definition db_prevAuthServices :: db_id where "db_prevAuthServices = 5"
definition numChainDatabases :: nat where "numChainDatabases = 6"
definition beginIndependent :: db_id where "beginIndependent = 64"
definition db_nativeSubjective :: db_id where "db_nativeSubjective = 65"
definition endPersistent :: db_id where "endPersistent = 66"
definition endIndependent :: db_id where "endIndependent = 68"
definition db_temporary :: db_id where "db_temporary = endIndependent"

definition numIndependentDatabases :: nat where
  "numIndependentDatabases = unat endIndependent - unat beginIndependent"

definition numPersistentDatabases :: nat where
  "numPersistentDatabases = unat endPersistent - unat beginIndependent"

definition isIndependent :: "db_id \<Rightarrow> bool" where
  "isIndependent db = (beginIndependent \<le> db \<and> db < endIndependent)"

definition independentIndex :: "db_id \<Rightarrow> nat" where
  "independentIndex db = unat db - unat beginIndependent"

type_synonym revision = "rows list"
type_synonym independent_revision = "rows list"
type_synonym weak_equality = "rows \<Rightarrow> rows \<Rightarrow> bytes \<Rightarrow> bytes \<Rightarrow> bool"

definition emptyRevision :: revision where
  "emptyRevision = replicate numChainDatabases []"

section \<open>The shared database\<close>

text \<open>
  \<open>topRoot\<close> holds the roots of the head revision, of the revision of each block, and of the persistent
  subjective databases; \<open>shared_disk\<close> is what \<open>set_top_root\<close> has stored.
\<close>

record shared_db =
  topRoot :: "(bytes, rows list) ordered_map"
  shared_disk :: "(bytes, rows list) ordered_map"
  shared_head :: revision
  shared_subjective :: independent_revision

definition revisionHeadKey :: bytes where "revisionHeadKey = [0]"
definition revisionByIdPrefix :: u8 where "revisionByIdPrefix = 1"
definition subjectiveKey :: bytes where "subjectiveKey = [2]"

definition revisionById :: "block_id \<Rightarrow> bytes" where
  "revisionById bid = revisionByIdPrefix # bid"

definition loadRevision :: "(bytes, rows list) ordered_map \<Rightarrow> bytes \<Rightarrow> bool \<Rightarrow> revision option result" where
  "loadRevision troot key nullIfNotFound =
     (case map_of troot key of
        Some roots \<Rightarrow>
          bind_result (check (length roots = numChainDatabases) ''wrong number of roots in database'') (\<lambda>_. Ok (Some roots))
      | None \<Rightarrow> Ok (if nullIfNotFound then None else Some emptyRevision))"

definition min_database_size :: nat where
  "min_database_size = 32 * 1024 * 1024"

text \<open>Opening a database: the constructor of \<open>SharedDatabaseImpl\<close>.\<close>

definition open_database :: "nat list \<Rightarrow> (bytes, rows list) ordered_map \<Rightarrow> shared_db result" where
  "open_database sizes disk =
     (if list_ex (\<lambda>n. n < min_database_size) sizes then Err (Runtime_Error ''Requested database size is too small'')
      else
        bind_result (loadRevision disk revisionHeadKey False) (\<lambda>head.
          bind_result
            (case map_of disk subjectiveKey of
               None \<Rightarrow> Ok (replicate numIndependentDatabases [])
             | Some roots \<Rightarrow>
                 bind_result (check (length roots = numPersistentDatabases) ''Wrong number of subjective databases'') (\<lambda>_.
                   Ok (roots @ replicate (numIndependentDatabases - numPersistentDatabases) [])))
            (\<lambda>subjective. Ok \<lparr>topRoot = disk, shared_disk = disk, shared_head = the head, shared_subjective = subjective\<rparr>)))"

definition persistent :: "shared_db \<Rightarrow> rows list" where
  "persistent sh = take numPersistentDatabases (shared_subjective sh)"

definition clone_shared :: "shared_db \<Rightarrow> shared_db" where
  "clone_shared sh =
     sh\<lparr>shared_subjective := persistent sh @ replicate (numIndependentDatabases - numPersistentDatabases) []\<rparr>"

definition store_top :: "bytes \<Rightarrow> rows list \<Rightarrow> shared_db \<Rightarrow> shared_db" where
  "store_top key roots sh = (let troot = kv_upsert key roots (topRoot sh) in sh\<lparr>topRoot := troot, shared_disk := troot\<rparr>)"

definition setHead :: "revision \<Rightarrow> shared_db \<Rightarrow> shared_db" where
  "setHead r sh = (store_top revisionHeadKey r sh)\<lparr>shared_head := r\<rparr>"

definition shared_writeRevision :: "block_id \<Rightarrow> revision \<Rightarrow> shared_db \<Rightarrow> shared_db" where
  "shared_writeRevision bid r sh = store_top (revisionById bid) r sh"

definition getRevision :: "block_id \<Rightarrow> shared_db \<Rightarrow> revision option result" where
  "getRevision bid sh = loadRevision (topRoot sh) (revisionById bid) True"

definition put_subjective :: "nat \<Rightarrow> rows \<Rightarrow> shared_db \<Rightarrow> shared_db" where
  "put_subjective i r sh =
     (let sh = sh\<lparr>shared_subjective := (shared_subjective sh)[i := r]\<rparr> in store_top subjectiveKey (persistent sh) sh)"

definition kvPutSubjective :: "db_id \<Rightarrow> bytes \<Rightarrow> bytes \<Rightarrow> shared_db \<Rightarrow> shared_db" where
  "kvPutSubjective db key v sh =
     (let i = independentIndex db in put_subjective i (kv_upsert key v (shared_subjective sh ! i)) sh)"

definition kvRemoveSubjective :: "db_id \<Rightarrow> bytes \<Rightarrow> shared_db \<Rightarrow> shared_db" where
  "kvRemoveSubjective db key sh =
     (let i = independentIndex db in put_subjective i (map_erase key (shared_subjective sh ! i)) sh)"

definition kvGetSubjective :: "db_id \<Rightarrow> bytes \<Rightarrow> shared_db \<Rightarrow> bytes option" where
  "kvGetSubjective db key sh = kv_get (shared_subjective sh ! independentIndex db) key"

text \<open>
  \<open>SharedDatabase::commitSubjective\<close>: the changes of a transaction that started from \<open>original\<close> and ended
  with \<open>updated\<close>. It returns whether it succeeded and the new value of \<open>original\<close>.
\<close>

definition unchanged :: "weak_equality \<Rightarrow> rows \<Rightarrow> rows \<Rightarrow> change_set \<Rightarrow> bool" where
  "unchanged weak original current cs = list_all (\<lambda>r. weak original current (range_lower r) (range_upper r)) cs"

definition splice_changes :: "rows \<Rightarrow> rows \<Rightarrow> change_set \<Rightarrow> rows" where
  "splice_changes current updated cs =
     foldl (\<lambda>db r. if range_write r then kv_splice db updated (range_lower r) (range_upper r) else db) current cs"

definition has_change :: "change_set list \<Rightarrow> socket_change list \<Rightarrow> bool" where
  "has_change changes socketChanges =
     (socketChanges \<noteq> [] \<or> list_ex (\<lambda>cs. list_ex range_write cs) changes)"

record commit_result =
  commit_ok :: bool
  commit_original :: independent_revision
  commit_shared :: shared_db
  commit_owner :: auto_close_set
  commit_sockets :: sockets
  commit_events :: "socket_event list"

definition shared_commit ::
  "weak_equality \<Rightarrow> independent_revision \<Rightarrow> independent_revision \<Rightarrow> change_set list \<Rightarrow> socket_change list \<Rightarrow>
     auto_close_set \<Rightarrow> sockets \<Rightarrow> shared_db \<Rightarrow> commit_result"
where
  "shared_commit weak original updated changes socketChanges closing socks sh =
     (let changes = map prepare changes;
          fail = \<lparr>commit_ok = False, commit_original = shared_subjective sh, commit_shared = sh,
                  commit_owner = closing, commit_sockets = socks, commit_events = []\<rparr>
      in if \<not> has_change changes socketChanges then
           \<lparr>commit_ok = True, commit_original = original, commit_shared = sh,
            commit_owner = closing, commit_sockets = socks, commit_events = []\<rparr>
         else if \<not> list_all (\<lambda>i. unchanged weak (original ! i) (shared_subjective sh ! i) (changes ! i))
                     [0 ..< numIndependentDatabases]
         then fail
         else
           (let (ok, closing', socks', evs) = applyChanges socketChanges closing socks
            in if \<not> ok then fail
               else
                 (let sh = sh\<lparr>shared_subjective :=
                            map (\<lambda>i. splice_changes (shared_subjective sh ! i) (updated ! i) (changes ! i))
                              [0 ..< numIndependentDatabases]\<rparr>
                  in \<lparr>commit_ok = True, commit_original = original,
                      commit_shared = store_top subjectiveKey (persistent sh) sh,
                      commit_owner = closing', commit_sockets = socks', commit_events = evs\<rparr>)))"

section \<open>Sessions\<close>

record subjective_revision =
  changeSetPos :: "nat list"
  socketChangePos :: nat
  subjective_db :: independent_revision
  subjective_temporary :: rows

record database =
  baseRevision :: revision
  writeSession :: bool
  readSession :: bool
  writeRevisions :: "revision list"
  readOnlyRevision :: "revision option"
  temporaryDb :: rows
  subjectiveChanges :: "change_set list"
  socketChanges :: "socket_change list"
  subjectiveRevisions :: "subjective_revision list"
  subjectiveLimit :: nat
  callbackFlags :: u32

definition new_database :: "revision \<Rightarrow> database" where
  "new_database r = \<lparr>baseRevision = r, writeSession = False, readSession = False, writeRevisions = [],
     readOnlyRevision = None, temporaryDb = [], subjectiveChanges = replicate numIndependentDatabases [],
     socketChanges = [], subjectiveRevisions = [], subjectiveLimit = 0, callbackFlags = 0\<rparr>"

text \<open>\<open>DatabaseImpl::db\<close>, as the value of the reference it returns and as an assignment to it.\<close>

definition db_root :: "database \<Rightarrow> revision \<Rightarrow> db_id \<Rightarrow> rows result" where
  "db_root d rv db =
     (if isIndependent db then
        bind_result (check (subjectiveRevisions d \<noteq> [])
                       ''subjectiveCheckout is required to access the subjective database'') (\<lambda>_.
          Ok (subjective_db (hd (subjectiveRevisions d)) ! independentIndex db))
      else if db = db_temporary then
        Ok (if subjectiveRevisions d \<noteq> [] then subjective_temporary (hd (subjectiveRevisions d)) else temporaryDb d)
      else if unat db < length rv then Ok (rv ! unat db)
      else Err Undefined)"

definition set_top_subjective :: "(subjective_revision \<Rightarrow> subjective_revision) \<Rightarrow> database \<Rightarrow> database" where
  "set_top_subjective f d = d\<lparr>subjectiveRevisions := f (hd (subjectiveRevisions d)) # tl (subjectiveRevisions d)\<rparr>"

definition assign_root :: "db_id \<Rightarrow> rows \<Rightarrow> database \<Rightarrow> database" where
  "assign_root db r d =
     (if isIndependent db then
        set_top_subjective (\<lambda>s. s\<lparr>subjective_db := (subjective_db s)[independentIndex db := r]\<rparr>) d
      else if db = db_temporary then
        (if subjectiveRevisions d \<noteq> [] then set_top_subjective (\<lambda>s. s\<lparr>subjective_temporary := r\<rparr>) d
         else d\<lparr>temporaryDb := r\<rparr>)
      else d\<lparr>writeRevisions := (hd (writeRevisions d))[unat db := r] # tl (writeRevisions d)\<rparr>)"

text \<open>Recording an access in \<open>getChangeSet(db)\<close>, if the database has one.\<close>

definition log_access :: "db_id \<Rightarrow> (change_set \<Rightarrow> change_set) \<Rightarrow> database \<Rightarrow> database" where
  "log_access db f d =
     (if isIndependent db then
        d\<lparr>subjectiveChanges := (subjectiveChanges d)
             [independentIndex db := f (subjectiveChanges d ! independentIndex db)]\<rparr>
      else d)"

text \<open>The revision \<open>DatabaseImpl::read\<close> and \<open>DatabaseImpl::write\<close> pass on.\<close>

definition read_revision :: "database \<Rightarrow> revision result" where
  "read_revision d =
     bind_result
       (case readOnlyRevision d of
          Some r \<Rightarrow> Ok r
        | None \<Rightarrow>
            bind_result (check (writeRevisions d \<noteq> []) ''no database sessions active'') (\<lambda>_. Ok (hd (writeRevisions d))))
       (\<lambda>r. if readSession d \<or> writeSession d then Ok r else Err (Runtime_Error ''no database sessions active''))"

definition write_revision :: "database \<Rightarrow> revision result" where
  "write_revision d =
     bind_result (check (writeSession d \<and> writeRevisions d \<noteq> []) ''no database write sessions active'') (\<lambda>_.
       Ok (hd (writeRevisions d)))"

definition setRevision :: "revision \<Rightarrow> database \<Rightarrow> database result" where
  "setRevision r d =
     bind_result (check (writeRevisions d = [] \<and> readOnlyRevision d = None) ''setRevision: database session is active'') (\<lambda>_.
       Ok (d\<lparr>baseRevision := r\<rparr>))"

definition getModifiedRevision :: "database \<Rightarrow> revision" where
  "getModifiedRevision d = (if writeRevisions d \<noteq> [] then hd (writeRevisions d) else baseRevision d)"

definition startRead :: "database \<Rightarrow> database result" where
  "startRead d =
     bind_result (check (writeRevisions d = [] \<and> readOnlyRevision d = None) ''startRead: database session already active'') (\<lambda>_.
       Ok ((if \<not> readSession d \<and> \<not> writeSession d then d\<lparr>readSession := True\<rparr> else d)
             \<lparr>readOnlyRevision := Some (baseRevision d)\<rparr>))"

definition startWrite :: "bool \<Rightarrow> database \<Rightarrow> database result" where
  "startWrite writer d =
     bind_result (check (readOnlyRevision d = None) ''startWrite: can't mix read and write revisions'') (\<lambda>_.
     bind_result (check writer ''startWrite: writer is null'') (\<lambda>_.
       Ok (d\<lparr>writeSession := True, readSession := False,
             writeRevisions := getModifiedRevision d # writeRevisions d\<rparr>)))"

definition commit_session :: "database \<Rightarrow> database result" where
  "commit_session d =
     (if readOnlyRevision d \<noteq> None then Ok (d\<lparr>readOnlyRevision := None\<rparr>)
      else
        (case writeRevisions d of
           [r] \<Rightarrow> Err (Runtime_Error ''final commit needs writeRevision()'')
         | r # _ # rs \<Rightarrow> Ok (d\<lparr>writeRevisions := r # rs\<rparr>)
         | [] \<Rightarrow> Err (Runtime_Error ''mismatched commit'')))"

definition writeRevision :: "block_id \<Rightarrow> database \<Rightarrow> shared_db \<Rightarrow> (revision \<times> database \<times> shared_db) result" where
  "writeRevision bid d sh =
     bind_result (check (writeSession d) ''writeSession is missing'') (\<lambda>_.
     bind_result (check (length (writeRevisions d) = 1) ''not final commit'') (\<lambda>_.
       (let rv = hd (writeRevisions d)
        in Ok (rv, d\<lparr>baseRevision := rv, writeRevisions := []\<rparr>, shared_writeRevision bid rv sh))))"

definition abort_session :: "database \<Rightarrow> database" where
  "abort_session d =
     (if readOnlyRevision d \<noteq> None then d\<lparr>readOnlyRevision := None\<rparr>
      else if writeRevisions d \<noteq> [] then d\<lparr>writeRevisions := tl (writeRevisions d)\<rparr>
      else d)"

text \<open>A result that is not null is a revision whose only root is the one in \<open>native\<close>.\<close>

definition getPrevAuthServices :: "database \<Rightarrow> revision option result" where
  "getPrevAuthServices d =
     bind_result (read_revision d) (\<lambda>rv.
       (let root = rv ! unat db_prevAuthServices
        in Ok (if root \<noteq> [] then Some (emptyRevision[unat db_native := root]) else None)))"

definition setPrevAuthServices :: "revision option \<Rightarrow> database \<Rightarrow> database result" where
  "setPrevAuthServices r d =
     bind_result (write_revision d) (\<lambda>_.
       Ok (assign_root db_prevAuthServices (case r of Some rv \<Rightarrow> rv ! unat db_native | None \<Rightarrow> []) d))"

section \<open>Reading and writing\<close>

definition kvPutRaw :: "db_id \<Rightarrow> bytes \<Rightarrow> bytes \<Rightarrow> database \<Rightarrow> database result" where
  "kvPutRaw db key v d =
     bind_result (write_revision d) (\<lambda>rv.
       (let d = log_access db (onWrite key) d
        in bind_result (db_root d rv db) (\<lambda>r. Ok (assign_root db (kv_upsert key v r) d))))"

definition kvRemoveRaw :: "db_id \<Rightarrow> bytes \<Rightarrow> database \<Rightarrow> database result" where
  "kvRemoveRaw db key d =
     bind_result (write_revision d) (\<lambda>rv.
       (let d = log_access db (onWrite key) d
        in bind_result (db_root d rv db) (\<lambda>r. Ok (assign_root db (map_erase key r) d))))"

definition kvGetRaw :: "db_id \<Rightarrow> bytes \<Rightarrow> database \<Rightarrow> (bytes option \<times> database) result" where
  "kvGetRaw db key d =
     bind_result (read_revision d) (\<lambda>rv.
       (let d = log_access db (onRead key) d
        in bind_result (db_root d rv db) (\<lambda>r. Ok (kv_get r key, d))))"

text \<open>
  \<open>matchKeySize\<close> bytes of the key that is found have to be those of the key that is searched. The key has
  that many bytes: a larger number would read past its end.
\<close>

definition match_key :: "bytes \<Rightarrow> nat \<Rightarrow> row option \<Rightarrow> row option" where
  "match_key key n found =
     (case found of
        None \<Rightarrow> None
      | Some (k, v) \<Rightarrow>
          if length k < n \<or> (n \<noteq> 0 \<and> memcmp (take n k) (take n key) \<noteq> 0) then None else Some (k, v))"

definition kvGreaterEqualRaw :: "db_id \<Rightarrow> bytes \<Rightarrow> nat \<Rightarrow> database \<Rightarrow> (row option \<times> database) result" where
  "kvGreaterEqualRaw db key matchKeySize d =
     (if length key < matchKeySize then Err Undefined
      else
        bind_result (read_revision d) (\<lambda>rv.
          bind_result (db_root d rv db) (\<lambda>r.
            (let found = match_key key matchKeySize (kv_greater_equal r key)
             in Ok (found, log_access db (onGreaterEqual key matchKeySize (map_option fst found)) d)))))"

definition kvLessThanRaw :: "db_id \<Rightarrow> bytes \<Rightarrow> nat \<Rightarrow> database \<Rightarrow> (row option \<times> database) result" where
  "kvLessThanRaw db key matchKeySize d =
     (if length key < matchKeySize then Err Undefined
      else
        bind_result (read_revision d) (\<lambda>rv.
          bind_result (db_root d rv db) (\<lambda>r.
            (let found = match_key key matchKeySize (kv_less_than r key)
             in Ok (found, log_access db (onLessThan key matchKeySize (map_option fst found)) d)))))"

definition kvMaxRaw :: "db_id \<Rightarrow> bytes \<Rightarrow> database \<Rightarrow> (row option \<times> database) result" where
  "kvMaxRaw db key d =
     bind_result (read_revision d) (\<lambda>rv.
       bind_result (db_root d rv db) (\<lambda>r.
         (let found = kv_max r key
          in Ok (found, log_access db (onMax key (map_option fst found)) d))))"

section \<open>Subjective transactions\<close>

definition maxSubjectiveTransactionDepth :: nat where
  "maxSubjectiveTransactionDepth = 8"

definition getChangeSetPos :: "change_set list \<Rightarrow> nat list" where
  "getChangeSetPos changes = map length changes"

definition clear_changes :: "database \<Rightarrow> database" where
  "clear_changes d = d\<lparr>subjectiveChanges := map (\<lambda>_. []) (subjectiveChanges d), socketChanges := []\<rparr>"

definition resize_changes :: "subjective_revision \<Rightarrow> database \<Rightarrow> database" where
  "resize_changes s d =
     d\<lparr>subjectiveChanges := map2 take (changeSetPos s) (subjectiveChanges d),
       socketChanges := take (socketChangePos s) (socketChanges d)\<rparr>"

definition empty_subjective :: subjective_revision where
  "empty_subjective = \<lparr>changeSetPos = replicate numIndependentDatabases 0, socketChangePos = 0,
     subjective_db = replicate numIndependentDatabases [], subjective_temporary = []\<rparr>"

definition checkoutEmptySubjective :: "database \<Rightarrow> database result" where
  "checkoutEmptySubjective d =
     bind_result (check (subjectiveRevisions d = [])
                    ''Checking out specific subjective content is only possible at the top level'') (\<lambda>_.
       Ok (d\<lparr>subjectiveRevisions := [empty_subjective, empty_subjective], callbackFlags := 0\<rparr>))"

definition checkoutSubjective :: "shared_db \<Rightarrow> database \<Rightarrow> database result" where
  "checkoutSubjective sh d =
     bind_result (check (length (subjectiveRevisions d) \<le> maxSubjectiveTransactionDepth)
                    ''checkoutSubjective nesting exceeded limit'') (\<lambda>_.
       (let d = (if subjectiveRevisions d = []
                 then d\<lparr>subjectiveRevisions := [\<lparr>changeSetPos = replicate numIndependentDatabases 0, socketChangePos = 0,
                          subjective_db = shared_subjective sh, subjective_temporary = temporaryDb d\<rparr>],
                        callbackFlags := 0\<rparr>
                 else d)
        in Ok (d\<lparr>subjectiveRevisions :=
                   \<lparr>changeSetPos = getChangeSetPos (subjectiveChanges d), socketChangePos = length (socketChanges d),
                    subjective_db = subjective_db (hd (subjectiveRevisions d)),
                    subjective_temporary = subjective_temporary (hd (subjectiveRevisions d))\<rparr> # subjectiveRevisions d\<rparr>)))"

text \<open>
  \<open>DatabaseImpl::commitSubjective\<close>. The result has the flags that were passed to the callbacks, if any.
\<close>

record subjective_commit =
  sc_ok :: bool
  sc_database :: database
  sc_shared :: shared_db
  sc_owner :: auto_close_set
  sc_sockets :: sockets
  sc_events :: "socket_event list"
  sc_callbacks :: "u32 list"

definition commitSubjective ::
  "weak_equality \<Rightarrow> bool \<Rightarrow> auto_close_set \<Rightarrow> sockets \<Rightarrow> shared_db \<Rightarrow> database \<Rightarrow> subjective_commit result"
where
  "commitSubjective weak hasCallbacks closing socks sh d =
     bind_result (check (subjectiveLimit d < length (subjectiveRevisions d))
                    ''commitSubjective requires checkoutSubjective'') (\<lambda>_.
       (case subjectiveRevisions d of
          s # p # q # rest \<Rightarrow>
            Ok \<lparr>sc_ok = True,
                sc_database = d\<lparr>subjectiveRevisions :=
                  p\<lparr>subjective_db := subjective_db s, subjective_temporary := subjective_temporary s\<rparr> # q # rest\<rparr>,
                sc_shared = sh, sc_owner = closing, sc_sockets = socks, sc_events = [], sc_callbacks = []\<rparr>
        | [s1, s0] \<Rightarrow>
            if writeSession d then
              (let r = shared_commit weak (subjective_db s0) (subjective_db s1) (subjectiveChanges d) (socketChanges d)
                         closing socks sh
               in if \<not> commit_ok r then
                    (let t0 = s0\<lparr>subjective_db := commit_original r, changeSetPos := replicate numIndependentDatabases 0,
                                 socketChangePos := 0\<rparr>;
                         t1 = s1\<lparr>subjective_db := commit_original r, subjective_temporary := subjective_temporary s0,
                                 changeSetPos := replicate numIndependentDatabases 0, socketChangePos := 0\<rparr>
                     in Ok \<lparr>sc_ok = False,
                            sc_database = clear_changes (d\<lparr>subjectiveRevisions := [t1, t0]\<rparr>),
                            sc_shared = commit_shared r, sc_owner = commit_owner r, sc_sockets = commit_sockets r,
                            sc_events = commit_events r, sc_callbacks = []\<rparr>)
                  else
                    (let run = callbackFlags d \<noteq> 0 \<and> hasCallbacks
                     in Ok \<lparr>sc_ok = True,
                            sc_database = clear_changes (d\<lparr>temporaryDb := subjective_temporary s1, subjectiveRevisions := [],
                              callbackFlags := (if run then 0 else callbackFlags d)\<rparr>),
                            sc_shared = commit_shared r, sc_owner = commit_owner r, sc_sockets = commit_sockets r,
                            sc_events = commit_events r, sc_callbacks = (if run then [callbackFlags d] else [])\<rparr>))
            else
              Ok \<lparr>sc_ok = True, sc_database = clear_changes (d\<lparr>subjectiveRevisions := []\<rparr>), sc_shared = sh,
                  sc_owner = closing, sc_sockets = socks, sc_events = [], sc_callbacks = []\<rparr>
        | _ \<Rightarrow> Err Undefined))"

definition abortSubjective :: "database \<Rightarrow> database result" where
  "abortSubjective d =
     bind_result (check (subjectiveLimit d < length (subjectiveRevisions d))
                    ''abortSubjective requires checkoutSubjective'') (\<lambda>_.
       Ok (if 2 < length (subjectiveRevisions d)
           then (resize_changes (hd (subjectiveRevisions d)) d)\<lparr>subjectiveRevisions := tl (subjectiveRevisions d)\<rparr>
           else clear_changes (d\<lparr>subjectiveRevisions := []\<rparr>)))"

definition saveSubjective :: "database \<Rightarrow> nat \<times> database" where
  "saveSubjective d = (subjectiveLimit d, d\<lparr>subjectiveLimit := length (subjectiveRevisions d)\<rparr>)"

text \<open>\<open>subjectiveRevisions[subjectiveLimit]\<close> counts from the front of the vector, the end of the list.\<close>

definition restoreSubjective :: "nat \<Rightarrow> database \<Rightarrow> database result" where
  "restoreSubjective depth d =
     bind_result (check (depth \<le> subjectiveLimit d) ''Wrong subjective depth'') (\<lambda>_.
       (let n = length (subjectiveRevisions d);
            d' = (if subjectiveLimit d = 0 then clear_changes (d\<lparr>subjectiveRevisions := []\<rparr>)
                  else if subjectiveLimit d < n then
                    (resize_changes (subjectiveRevisions d ! (n - 1 - subjectiveLimit d)) d)
                      \<lparr>subjectiveRevisions := drop (n - subjectiveLimit d) (subjectiveRevisions d)\<rparr>
                  else d)
        in Ok (d'\<lparr>subjectiveLimit := depth\<rparr>)))"

definition clearTemporary :: "database \<Rightarrow> database result" where
  "clearTemporary d =
     bind_result (check (subjectiveRevisions d = [])
                    ''Cannot clear subjective db while a subjective transaction is pending'') (\<lambda>_.
       Ok (d\<lparr>temporaryDb := []\<rparr>))"

definition setCallbackFlags :: "u32 \<Rightarrow> database \<Rightarrow> database" where
  "setCallbackFlags flags d = d\<lparr>callbackFlags := callbackFlags d OR flags\<rparr>"

definition socketSetFlags ::
  "int \<Rightarrow> u32 \<Rightarrow> u32 \<Rightarrow> auto_close_set \<Rightarrow> sockets \<Rightarrow> database \<Rightarrow>
     socket_errno \<times> auto_close_set \<times> sockets \<times> socket_event list \<times> database"
where
  "socketSetFlags fd flags v closing socks d =
     (let diff = (if subjectiveRevisions d = [] then None else Some (socketChanges d));
          (err, closing, diff, socks, evs) = setFlags fd flags v closing diff socks
      in (err, closing, socks, evs, case diff of None \<Rightarrow> d | Some cs \<Rightarrow> d\<lparr>socketChanges := cs\<rparr>))"

definition socketEnableP2P :: "bool \<Rightarrow> int \<Rightarrow> sockets \<Rightarrow> database \<Rightarrow> (socket_errno \<times> socket_event list \<times> database) result" where
  "socketEnableP2P hasP2P fd socks d =
     bind_result (check hasP2P ''P2P not supported'') (\<lambda>_.
       (let diff = (if subjectiveRevisions d = [] then None else Some (socketChanges d));
            (err, diff, evs) = socket_enableP2P fd diff socks
        in Ok (err, evs, case diff of None \<Rightarrow> d | Some cs \<Rightarrow> d\<lparr>socketChanges := cs\<rparr>)))"

section \<open>Removing old revisions\<close>

text \<open>
  The two loops of \<open>removeRevisions\<close> walk the keys of \<open>topRoot\<close> in order with \<open>get_greater_equal\<close>, from
  \<open>key\<close> followed by a zero byte after each. The first one returns the key where it stopped and whether it
  met the irreversible block. \<open>is_snapshot\<close> is whether the native subjective database has a snapshot row for
  the block; the previous block of a status row is read by fracpack.
\<close>

definition is_revision_key :: "block_id \<Rightarrow> bytes \<Rightarrow> bool" where
  "is_revision_key irreversible key = (length key = 1 + length irreversible \<and> hd key = revisionByIdPrefix)"

lemma entries_after_less:
  fixes troot :: "(bytes, 'v) ordered_map"
  assumes "find (\<lambda>p. key \<le> fst p) troot = Some p"
  shows "length (filter (\<lambda>q. fst p @ [0] \<le> fst q) troot) < length (filter (\<lambda>q. key \<le> fst q) troot)"
    "length (filter (\<lambda>q. fst p @ [0] \<le> fst q) (map_erase k troot)) < length (filter (\<lambda>q. key \<le> fst q) troot)"
proof -
  have p: "p \<in> set troot" "key \<le> fst p" using assms by (auto simp: find_Some_iff)
  have after: "fst p @ [0] \<le> x \<longleftrightarrow> fst p < x" for x using keyNext_le [of "fst p" x] by (simp add: keyNext_def)
  have "length (filter (\<lambda>q. fst p < fst q) troot) < length (filter (\<lambda>q. key \<le> fst q) troot)"
  proof -
    obtain xs ys where t: "troot = xs @ p # ys" using p(1) by (meson split_list)
    have "length (filter (\<lambda>q. fst p < fst q) zs) \<le> length (filter (\<lambda>q. key \<le> fst q) zs)" for zs
      using p(2) by (induction zs) auto
    from this [of xs] this [of ys] show ?thesis using p(2) by (simp add: t)
  qed
  moreover have "length (filter P (map_erase k troot)) \<le> length (filter P troot)" for P
    by (simp add: map_erase_def length_filter_conv_card)
      (rule card_mono; auto)
  ultimately show "length (filter (\<lambda>q. fst p @ [0] \<le> fst q) troot) < length (filter (\<lambda>q. key \<le> fst q) troot)"
    "length (filter (\<lambda>q. fst p @ [0] \<le> fst q) (map_erase k troot)) < length (filter (\<lambda>q. key \<le> fst q) troot)"
    unfolding after by (auto intro: le_less_trans)
qed

function remove_old ::
  "(block_id \<Rightarrow> bool) \<Rightarrow> block_id \<Rightarrow> bytes \<Rightarrow> bool \<Rightarrow> (bytes, rows list) ordered_map \<Rightarrow>
     bytes \<times> bool \<times> (bytes, rows list) ordered_map"
where
  "remove_old is_snapshot irreversible key hasIrreversible troot =
     (case find (\<lambda>p. key \<le> fst p) troot of
        None \<Rightarrow> (key, hasIrreversible, troot)
      | Some p \<Rightarrow>
          (let key = fst p; bid = tl key
           in if \<not> is_revision_key irreversible key \<or> memcmp (take 4 bid) (take 4 irreversible) > 0
              then (key, hasIrreversible, troot)
              else if bid = irreversible then remove_old is_snapshot irreversible (key @ [0]) True troot
              else remove_old is_snapshot irreversible (key @ [0]) hasIrreversible
                     (if is_snapshot bid then troot else map_erase key troot)))"
  by pat_completeness auto
termination
  by (relation "measure (\<lambda>(_, _, key, _, troot). length (filter (\<lambda>q. key \<le> fst q) troot))")
    (auto dest: entries_after_less split: if_splits)

declare remove_old.simps [simp del]

function remove_orphans ::
  "bytes \<Rightarrow> (bytes \<Rightarrow> block_id option) \<Rightarrow> block_id \<Rightarrow> bytes \<Rightarrow> (bytes, rows list) ordered_map \<Rightarrow>
     (bytes, rows list) ordered_map result"
where
  "remove_orphans statusKey head_previous irreversible key troot =
     (case find (\<lambda>p. key \<le> fst p) troot of
        None \<Rightarrow> Ok troot
      | Some p \<Rightarrow>
          if \<not> is_revision_key irreversible (fst p) then Ok troot
          else if length (snd p) \<noteq> numChainDatabases then Err (Abort ''wrong number of roots in fork'')
          else
            (case kv_get (snd p ! unat db_native) statusKey of
               None \<Rightarrow> Err (Runtime_Error ''Status row missing in fork'')
             | Some status \<Rightarrow>
                 (case head_previous status of
                    None \<Rightarrow> Err (Runtime_Error ''Status row is missing head information in fork'')
                  | Some prv \<Rightarrow>
                      remove_orphans statusKey head_previous irreversible (fst p @ [0])
                        (if map_of troot (revisionById prv) = None then map_erase (fst p) troot else troot))))"
  by pat_completeness auto
termination
  by (relation "measure (\<lambda>(_, _, _, key, troot). length (filter (\<lambda>q. key \<le> fst q) troot))")
    (auto dest: entries_after_less split: if_splits)

declare remove_orphans.simps [simp del]

definition removeRevisions ::
  "(block_id \<Rightarrow> bytes) \<Rightarrow> bytes \<Rightarrow> (bytes \<Rightarrow> block_id option) \<Rightarrow> block_id \<Rightarrow> shared_db \<Rightarrow> shared_db result"
where
  "removeRevisions snapshotKey statusKey head_previous irreversible sh =
     (let subjective = shared_subjective sh ! independentIndex db_nativeSubjective;
          (key, hasIrreversible, troot) =
            remove_old (\<lambda>bid. kv_get subjective (snapshotKey bid) \<noteq> None) irreversible [revisionByIdPrefix] False (topRoot sh)
      in bind_result
           (if hasIrreversible then remove_orphans statusKey head_previous irreversible key troot else Ok troot)
           (\<lambda>troot. Ok (sh\<lparr>topRoot := troot, shared_disk := troot\<rparr>)))"

end
