(* ===== verification/Subjective_Tx.thy ===== *)
theory Subjective_Tx
  imports Databases
begin

text \<open>
  Subjective transactions are serializable. A transaction reads and writes a private copy of the
  subjective databases; \<open>commitSubjective\<close> checks the ranges it accessed and splices the ranges it wrote
  into the databases as they are then.
\<close>

section \<open>Reads depend on the ranges they record\<close>

lemma memcmp_eq_0: "length a = length b \<Longrightarrow> memcmp a b = 0 \<longleftrightarrow> a = b"
  by (induction a b rule: list_induct2) auto

lemma match_key_Some:
  assumes "n \<le> length key"
  shows "match_key key n found = Some (a, v) \<longleftrightarrow> found = Some (a, v) \<and> prefix (take n key) a"
proof -
  have "length a < n \<or> (n \<noteq> 0 \<and> memcmp (take n a) (take n key) \<noteq> 0) \<longleftrightarrow> \<not> prefix (take n key) a" for a :: bytes
  proof (cases "length a < n")
    case True
    then show ?thesis using assms prefix_length_le [of "take n key" a] by auto
  next
    case False
    then have "memcmp (take n a) (take n key) = 0 \<longleftrightarrow> take n a = take n key" using assms by (intro memcmp_eq_0) simp
    moreover have "take n a = take n key \<longleftrightarrow> prefix (take n key) a"
    proof
      show "take n a = take n key \<Longrightarrow> prefix (take n key) a" using take_is_prefix [of n a] by simp
      show "prefix (take n key) a \<Longrightarrow> take n a = take n key" using assms by (auto simp: prefix_def)
    qed
    ultimately show ?thesis using False by (cases n) auto
  qed
  note mismatch = this
  show ?thesis
  proof (cases found)
    case (Some p)
    obtain k w where "p = (k, w)" by force
    then have "match_key key n found = (if \<not> prefix (take n key) k then None else Some (k, w))"
      using Some mismatch [of k] by (simp add: match_key_def)
    then show ?thesis using Some \<open>p = (k, w)\<close> by auto
  qed (simp add: match_key_def)
qed

lemma in_range_match:
  assumes "n \<le> length key"
  shows "in_range key (keyNextPrefix (take n key)) b \<longleftrightarrow> key \<le> b \<and> prefix (take n key) b"
proof -
  have "take n key \<le> key" by (intro prefix_le take_is_prefix)
  then show ?thesis using in_range_prefix [of "take n key" b] by (auto simp: in_range_def dest: order_trans)
qed

lemma below_match:
  assumes "take n key \<le> b" "b < key"
  shows "prefix (take n key) (b :: bytes)"
proof -
  have "prefix (take n key) key" by (rule take_is_prefix)
  then have "keyNextPrefix (take n key) = [] \<or> key < keyNextPrefix (take n key)"
    using in_range_prefix [of "take n key" key] by (simp add: in_range_def)
  with assms show ?thesis using in_range_prefix [of "take n key" b] by (auto simp: in_range_def dest: less_trans)
qed

definition agree_on :: "bytes set \<Rightarrow> rows \<Rightarrow> rows \<Rightarrow> bool" where
  "agree_on K r s \<longleftrightarrow> (\<forall>k \<in> K. map_of r k = map_of s k)"

lemma greater_equal_agrees:
  assumes "ordered r" "ordered s" "n \<le> length key"
    and found: "found = match_key key n (kv_greater_equal r key)"
    and agree: "agree_on (touched (onGreaterEqual key n (map_option fst found) cs)) r s"
  shows "match_key key n (kv_greater_equal s key) = found"
proof (cases found)
  case (Some p)
  obtain a v where p: "p = (a, v)" by force
  then have a: "kv_greater_equal r key = Some (a, v)" "prefix (take n key) a"
    using Some found match_key_Some [OF assms(3)] by auto
  moreover have "trie.agree r s key (keyNext a)"
    using agree by (simp add: agree_on_def touched_access Some p trie.agree_def)
  ultimately have "kv_greater_equal s key = Some (a, v)" using trie.greater_equal_stable assms(1,2) by blast
  then show ?thesis using a(2) match_key_Some [OF assms(3)] by (simp add: Some p)
next
  case None
  have absent: "map_of s b = None" if b: "key \<le> b" "prefix (take n key) b" for b
  proof -
    have "map_of r b = None"
    proof (rule ccontr)
      assume "map_of r b \<noteq> None"
      then obtain a v where a: "kv_greater_equal r key = Some (a, v)"
        using b(1) trie.greater_equal_none [OF assms(1), of key] by (cases "kv_greater_equal r key") auto
      then have "key \<le> a" "a \<le> b"
        using \<open>map_of r b \<noteq> None\<close> b(1) trie.greater_equal_content [OF assms(1)] by (auto simp: not_less [symmetric])
      then have "prefix (take n key) a"
        using b in_range_match [OF assms(3), of b] in_range_match [OF assms(3), of a]
        by (auto simp: in_range_def dest: le_less_trans)
      then show False using a None found match_key_Some [OF assms(3), of "Some (a, v)" a v] by simp
    qed
    moreover have "in_range key (keyNextPrefix (take n key)) b" using b in_range_match [OF assms(3)] by simp
    ultimately show ?thesis using agree by (simp add: agree_on_def touched_access None)
  qed
  have "match_key key n (kv_greater_equal s key) \<noteq> Some (a, v)" for a v
  proof
    assume "match_key key n (kv_greater_equal s key) = Some (a, v)"
    then have "kv_greater_equal s key = Some (a, v)" "prefix (take n key) a" using match_key_Some [OF assms(3)] by auto
    then have "map_of s a = Some v" "key \<le> a" using trie.greater_equal_content [OF assms(2), of key a v] by auto
    with absent [of a] \<open>prefix (take n key) a\<close> show False by simp
  qed
  then have "match_key key n (kv_greater_equal s key) = None" by (cases "match_key key n (kv_greater_equal s key)") auto
  then show ?thesis by (simp add: None)
qed

lemma less_than_agrees:
  assumes "ordered r" "ordered s" "n \<le> length key"
    and found: "found = match_key key n (kv_less_than r key)"
    and agree: "agree_on (touched (onLessThan key n (map_option fst found) cs)) r s"
  shows "match_key key n (kv_less_than s key) = found"
proof (cases found)
  case (Some p)
  obtain a v where p: "p = (a, v)" by force
  then have a: "kv_less_than r key = Some (a, v)" "prefix (take n key) a"
    using Some found match_key_Some [OF assms(3)] by auto
  moreover have "trie.agree r s a key"
    using agree by (simp add: agree_on_def touched_access Some p trie.agree_def)
  ultimately have "kv_less_than s key = Some (a, v)" using trie.less_than_stable assms(1,2) by blast
  then show ?thesis using a(2) match_key_Some [OF assms(3)] by (simp add: Some p)
next
  case None
  have absent: "map_of s b = None" if b: "b < key" "prefix (take n key) b" for b
  proof -
    have "map_of r b = None"
    proof (rule ccontr)
      assume "map_of r b \<noteq> None"
      then obtain a v where a: "kv_less_than r key = Some (a, v)"
        using b(1) trie.less_than_none [OF assms(1), of key] by (cases "kv_less_than r key") auto
      then have "a < key" "b \<le> a"
        using \<open>map_of r b \<noteq> None\<close> b(1) trie.less_than_content [OF assms(1)] by (auto simp: not_less [symmetric])
      then have "prefix (take n key) a" using prefix_le [OF b(2)] by (intro below_match) simp_all
      then show False using a None found match_key_Some [OF assms(3), of "Some (a, v)" a v] by simp
    qed
    moreover have "in_range (take n key) key b" using b prefix_le [OF b(2)] by (simp add: in_range_def)
    ultimately show ?thesis using agree by (simp add: agree_on_def touched_access None)
  qed
  have "match_key key n (kv_less_than s key) \<noteq> Some (a, v)" for a v
  proof
    assume "match_key key n (kv_less_than s key) = Some (a, v)"
    then have "kv_less_than s key = Some (a, v)" "prefix (take n key) a" using match_key_Some [OF assms(3)] by auto
    then have "map_of s a = Some v" "a < key" using trie.less_than_content [OF assms(2), of key a v] by auto
    with absent [of a] \<open>prefix (take n key) a\<close> show False by simp
  qed
  then have "match_key key n (kv_less_than s key) = None" by (cases "match_key key n (kv_less_than s key)") auto
  then show ?thesis by (simp add: None)
qed

lemma max_agrees:
  assumes "ordered r" "ordered s" and agree: "agree_on (touched (onMax key (map_option fst (kv_max r key)) cs)) r s"
  shows "kv_max s key = kv_max r key"
proof (cases "kv_max r key")
  case None
  then show ?thesis
    using trie.max_prefix_none_stable [OF assms(1,2) None] agree
    by (simp add: agree_on_def touched_access trie.agree_def)
next
  case (Some p)
  obtain a v where p: "p = (a, v)" by force
  then show ?thesis
    using trie.max_prefix_stable [OF assms(1,2), of key a v] agree Some
    by (simp add: agree_on_def touched_access trie.agree_def)
qed

lemma get_agrees: "agree_on (touched (onRead key cs)) r s \<Longrightarrow> kv_get s key = kv_get r key"
  by (simp add: agree_on_def touched_access kv_get_def)

lemma agree_upsert: "ordered r \<Longrightarrow> ordered s \<Longrightarrow> agree_on K r s \<Longrightarrow> agree_on K (kv_upsert k v r) (kv_upsert k v s)"
  by (simp add: agree_on_def omap)

lemma agree_erase: "agree_on K r s \<Longrightarrow> agree_on K (map_erase k r) (map_erase k s)"
  by (simp add: agree_on_def omap)


section \<open>Transactions\<close>

text \<open>
  The calls a service makes between \<open>checkoutSubjective\<close> and \<open>commitSubjective\<close>, each depending on the
  results so far. A nested transaction is checked out and committed inside.
\<close>

datatype tx_call =
  Call_Get db_id bytes
| Call_Greater_Equal db_id bytes nat
| Call_Less_Than db_id bytes nat
| Call_Max db_id bytes
| Call_Put db_id bytes bytes
| Call_Remove db_id bytes
| Call_Checkout
| Call_Commit

datatype tx_reply = Reply_Value "bytes option" | Reply_Row "row option" | Reply_Done

datatype 'a tx = Tx_Return 'a | Tx_Call tx_call "tx_reply \<Rightarrow> 'a tx"

text \<open>Committing a nested transaction; the outermost one is committed by its caller.\<close>

definition commit_nested :: "database \<Rightarrow> database result" where
  "commit_nested d =
     (if length (subjectiveRevisions d) \<le> 2 then Err Undefined
      else bind_result (commitSubjective (\<lambda>_ _ _ _. False) False [] \<lparr>socket_heap = [], socket_table = [], socket_available = [],
               socket_stopped = False\<rparr> \<lparr>topRoot = [], shared_disk = [], shared_head = [], shared_subjective = []\<rparr> d)
             (\<lambda>r. Ok (sc_database r)))"

primrec run_call :: "shared_db \<Rightarrow> database \<Rightarrow> tx_call \<Rightarrow> (tx_reply \<times> database) result" where
  "run_call sh d (Call_Get db key) = bind_result (kvGetRaw db key d) (\<lambda>(v, d). Ok (Reply_Value v, d))"
| "run_call sh d (Call_Greater_Equal db key n) = bind_result (kvGreaterEqualRaw db key n d) (\<lambda>(r, d). Ok (Reply_Row r, d))"
| "run_call sh d (Call_Less_Than db key n) = bind_result (kvLessThanRaw db key n d) (\<lambda>(r, d). Ok (Reply_Row r, d))"
| "run_call sh d (Call_Max db key) = bind_result (kvMaxRaw db key d) (\<lambda>(r, d). Ok (Reply_Row r, d))"
| "run_call sh d (Call_Put db key v) = bind_result (kvPutRaw db key v d) (\<lambda>d. Ok (Reply_Done, d))"
| "run_call sh d (Call_Remove db key) = bind_result (kvRemoveRaw db key d) (\<lambda>d. Ok (Reply_Done, d))"
| "run_call sh d Call_Checkout = bind_result (checkoutSubjective sh d) (\<lambda>d. Ok (Reply_Done, d))"
| "run_call sh d Call_Commit = bind_result (commit_nested d) (\<lambda>d. Ok (Reply_Done, d))"

primrec run_tx :: "shared_db \<Rightarrow> 'a tx \<Rightarrow> database \<Rightarrow> ('a \<times> database) result" where
  "run_tx sh (Tx_Return x) d = Ok (x, d)"
| "run_tx sh (Tx_Call c f) d = bind_result (run_call sh d c) (\<lambda>(r, d). run_tx sh (f r) d)"

section \<open>Two runs side by side\<close>

definition top_db :: "database \<Rightarrow> independent_revision" where
  "top_db d = subjective_db (hd (subjectiveRevisions d))"

text \<open>The state of a transaction that has been checked out.\<close>

definition tx_state :: "database \<Rightarrow> bool" where
  "tx_state d \<longleftrightarrow> 2 \<le> length (subjectiveRevisions d) \<and> length (subjectiveChanges d) = numIndependentDatabases \<and>
     length (top_db d) = numIndependentDatabases \<and> list_all ordered (top_db d) \<and> list_all ranges_ok (subjectiveChanges d)"

text \<open>Everything but the contents of the subjective databases.\<close>

definition alike :: "subjective_revision \<Rightarrow> subjective_revision \<Rightarrow> bool" where
  "alike s t \<longleftrightarrow> changeSetPos t = changeSetPos s \<and> socketChangePos t = socketChangePos s \<and>
     subjective_temporary t = subjective_temporary s"

definition same_shape :: "subjective_revision list \<Rightarrow> subjective_revision list \<Rightarrow> bool" where
  "same_shape ss ts \<longleftrightarrow> list_all2 alike ss ts"

definition same_rest :: "database \<Rightarrow> database \<Rightarrow> bool" where
  "same_rest d e \<longleftrightarrow> e = d\<lparr>subjectiveRevisions := subjectiveRevisions e\<rparr>"

definition sim :: "change_set list \<Rightarrow> database \<Rightarrow> database \<Rightarrow> bool" where
  "sim final d e \<longleftrightarrow> tx_state d \<and> tx_state e \<and> same_rest d e \<and>
     same_shape (subjectiveRevisions d) (subjectiveRevisions e) \<and>
     (\<forall>i < numIndependentDatabases. agree_on (touched (final ! i)) (top_db d ! i) (top_db e ! i))"

definition within :: "change_set list \<Rightarrow> change_set list \<Rightarrow> bool" where
  "within changes final \<longleftrightarrow> (\<forall>i < numIndependentDatabases. touched (changes ! i) \<subseteq> touched (final ! i))"

lemma within_refl [simp]: "within c c" by (simp add: within_def)
lemma within_trans: "within a b \<Longrightarrow> within b c \<Longrightarrow> within a c" by (auto simp: within_def)

lemma index_bound: "isIndependent db \<Longrightarrow> independentIndex db < numIndependentDatabases"
  by (auto simp: isIndependent_def independentIndex_def numIndependentDatabases_def beginIndependent_def endIndependent_def
      word_le_nat_alt word_less_nat_alt)

lemma same_shape_length: "same_shape ss ts \<Longrightarrow> length ts = length ss"
  by (simp add: same_shape_def list_all2_lengthD)

lemma sim_parts:
  assumes "sim final d e"
  shows "writeSession e = writeSession d" "readSession e = readSession d" "writeRevisions e = writeRevisions d"
    "readOnlyRevision e = readOnlyRevision d" "temporaryDb e = temporaryDb d" "subjectiveChanges e = subjectiveChanges d"
    "socketChanges e = socketChanges d" "subjectiveLimit e = subjectiveLimit d"
    "length (subjectiveRevisions e) = length (subjectiveRevisions d)"
proof -
  have e: "e = d\<lparr>subjectiveRevisions := subjectiveRevisions e\<rparr>" using assms by (simp add: sim_def same_rest_def)
  show "writeSession e = writeSession d" "readSession e = readSession d" "writeRevisions e = writeRevisions d"
    "readOnlyRevision e = readOnlyRevision d" "temporaryDb e = temporaryDb d" "subjectiveChanges e = subjectiveChanges d"
    "socketChanges e = socketChanges d" "subjectiveLimit e = subjectiveLimit d"
    by (subst e; simp)+
  show "length (subjectiveRevisions e) = length (subjectiveRevisions d)"
    using assms same_shape_length by (simp add: sim_def)
qed

lemma sim_revision:
  assumes "sim final d e"
  shows "read_revision e = read_revision d" "write_revision e = write_revision d"
  by (simp_all only: read_revision_def write_revision_def sim_parts [OF assms])

lemma sim_stacks:
  assumes "sim final d e"
  obtains s ss t ts where "subjectiveRevisions d = s # ss" "subjectiveRevisions e = t # ts" "same_shape ss ts"
    "alike s t" "ss \<noteq> []"
proof -
  have two: "2 \<le> length (subjectiveRevisions d)" and same: "same_shape (subjectiveRevisions d) (subjectiveRevisions e)"
    using assms by (auto simp: sim_def tx_state_def)
  obtain s ss where d: "subjectiveRevisions d = s # ss" using two by (cases "subjectiveRevisions d") auto
  moreover from same d obtain t ts where "subjectiveRevisions e = t # ts" "alike s t" "same_shape ss ts"
    by (auto simp: same_shape_def list_all2_Cons1)
  moreover have "ss \<noteq> []" using two d by auto
  ultimately show ?thesis using that by blast
qed

lemma sim_root:
  assumes "sim final d e" "\<not> isIndependent db"
  shows "db_root e rv db = db_root d rv db"
proof -
  obtain s ss t ts where "subjectiveRevisions d = s # ss" "subjectiveRevisions e = t # ts"
    "alike s t"
    using sim_stacks [OF assms(1)] by metis
  then show ?thesis using assms(2) sim_parts(5) [OF assms(1)] by (simp add: db_root_def alike_def)
qed

lemma root_independent:
  assumes "tx_state d" "isIndependent db"
  shows "db_root d rv db = Ok (top_db d ! independentIndex db)"
  using assms by (auto simp: db_root_def top_db_def tx_state_def result_simps)

lemma log_access_parts [simp]:
  "subjectiveRevisions (log_access db f d) = subjectiveRevisions d" "writeRevisions (log_access db f d) = writeRevisions d"
  "readOnlyRevision (log_access db f d) = readOnlyRevision d" "writeSession (log_access db f d) = writeSession d"
  "readSession (log_access db f d) = readSession d" "temporaryDb (log_access db f d) = temporaryDb d"
  "top_db (log_access db f d) = top_db d"
  by (simp_all add: log_access_def top_db_def)

lemma tx_state_log:
  assumes "tx_state d" "isIndependent db \<Longrightarrow> ranges_ok (f (subjectiveChanges d ! independentIndex db))"
  shows "tx_state (log_access db f d)"
proof (cases "isIndependent db")
  case True
  have "list_all ranges_ok ((subjectiveChanges d)[independentIndex db := f (subjectiveChanges d ! independentIndex db)])"
    using assms True set_update_subset_insert [of "subjectiveChanges d"] by (fastforce simp: list_all_iff tx_state_def)
  then show ?thesis using assms(1) True unfolding tx_state_def log_access_parts by (simp add: log_access_def)
qed (use assms(1) in \<open>simp add: log_access_def\<close>)

lemma sim_log:
  assumes "sim final d e" "isIndependent db \<Longrightarrow> ranges_ok (f (subjectiveChanges d ! independentIndex db))"
  shows "sim final (log_access db f d) (log_access db f e)"
proof -
  have ch: "subjectiveChanges e = subjectiveChanges d" using sim_parts [OF assms(1)] by simp
  have "same_rest (log_access db f d) (log_access db f e)"
    using assms(1) by (cases d; cases e) (simp add: sim_def same_rest_def log_access_def)
  then show ?thesis using assms tx_state_log [of d db f] tx_state_log [of e db f] ch by (simp add: sim_def)
qed

lemma within_log:
  assumes "tx_state d" "isIndependent db \<Longrightarrow> touched (subjectiveChanges d ! independentIndex db) \<subseteq> touched (f (subjectiveChanges d ! independentIndex db))"
  shows "within (subjectiveChanges d) (subjectiveChanges (log_access db f d))"
  using assms by (auto simp: within_def log_access_def tx_state_def nth_list_update index_bound)

lemma within_access:
  assumes "tx_state d" "isIndependent db" "within (subjectiveChanges (log_access db f d)) final"
  shows "touched (f (subjectiveChanges d ! independentIndex db)) \<subseteq> touched (final ! independentIndex db)"
  using assms(3) [unfolded within_def, rule_format, OF index_bound [OF assms(2)]] assms(1,2)
  by (simp add: log_access_def tx_state_def index_bound)

lemma tx_state_assign:
  assumes "tx_state d" "isIndependent db \<Longrightarrow> ordered r"
  shows "tx_state (assign_root db r d)"
proof (cases "isIndependent db")
  case True
  have "list_all ordered ((top_db d)[independentIndex db := r])"
    using assms True set_update_subset_insert [of "top_db d" "independentIndex db" r] by (auto simp: list_all_iff tx_state_def)
  then show ?thesis
    using assms(1) True by (auto simp: tx_state_def assign_root_def set_top_subjective_def top_db_def)
next
  case False
  then show ?thesis using assms(1) by (auto simp: tx_state_def assign_root_def set_top_subjective_def top_db_def)
qed

lemma top_db_assign:
  assumes "tx_state d"
  shows "top_db (assign_root db r d) = (if isIndependent db then (top_db d)[independentIndex db := r] else top_db d)"
  using assms by (auto simp: assign_root_def set_top_subjective_def top_db_def tx_state_def)

lemma assign_root_changes [simp]: "subjectiveChanges (assign_root db r d) = subjectiveChanges d"
  by (simp add: assign_root_def set_top_subjective_def)

lemma same_rest_assign:
  assumes "sim final d e" "\<not> isIndependent db \<Longrightarrow> r' = r"
  shows "same_rest (assign_root db r d) (assign_root db r' e)"
    "same_shape (subjectiveRevisions (assign_root db r d)) (subjectiveRevisions (assign_root db r' e))"
proof -
  obtain s ss t ts where st: "subjectiveRevisions d = s # ss" "subjectiveRevisions e = t # ts" "same_shape ss ts" "alike s t"
    using sim_stacks [OF assms(1)] by metis
  have rest: "same_rest d e" using assms(1) by (simp add: sim_def)
  show "same_shape (subjectiveRevisions (assign_root db r d)) (subjectiveRevisions (assign_root db r' e))"
    using st assms(2) by (auto simp: assign_root_def set_top_subjective_def same_shape_def alike_def)
  show "same_rest (assign_root db r d) (assign_root db r' e)"
  proof -
    have e: "e = d\<lparr>subjectiveRevisions := t # ts\<rparr>" by (rule rest [unfolded same_rest_def st(2)])
    show ?thesis unfolding e using st(1) assms(2) by (simp add: same_rest_def assign_root_def set_top_subjective_def)
  qed
qed

lemma sim_assign:
  assumes "sim final d e" "\<not> isIndependent db \<Longrightarrow> r' = r" "isIndependent db \<Longrightarrow> ordered r \<and> ordered r'"
    "isIndependent db \<Longrightarrow> agree_on (touched (final ! independentIndex db)) r r'"
  shows "sim final (assign_root db r d) (assign_root db r' e)"
proof -
  have d: "tx_state d" and e: "tx_state e" using assms(1) by (simp_all add: sim_def)
  have "tx_state (assign_root db r d)" "tx_state (assign_root db r' e)"
    using tx_state_assign d e assms(3) by blast+
  moreover have "\<forall>i < numIndependentDatabases. agree_on (touched (final ! i)) (top_db (assign_root db r d) ! i) (top_db (assign_root db r' e) ! i)"
    using assms d e by (auto simp: top_db_assign sim_def tx_state_def nth_list_update index_bound)
  ultimately show ?thesis using same_rest_assign [OF assms(1,2)] by (simp add: sim_def)
qed

lemma top_root:
  assumes "sim final d e" "isIndependent db"
  shows "ordered (top_db d ! independentIndex db)" "ordered (top_db e ! independentIndex db)"
    "agree_on (touched (final ! independentIndex db)) (top_db d ! independentIndex db) (top_db e ! independentIndex db)"
    "ranges_ok (subjectiveChanges d ! independentIndex db)"
  using assms index_bound [OF assms(2)] by (auto simp: sim_def tx_state_def list_all_length)

lemma agree_on_mono: "agree_on K r s \<Longrightarrow> L \<subseteq> K \<Longrightarrow> agree_on L r s"
  by (auto simp: agree_on_def)

section \<open>Each access\<close>

text \<open>What an access does to the recorded ranges and to the keys it does not write.\<close>

definition advances :: "database \<Rightarrow> database \<Rightarrow> bool" where
  "advances d d' \<longleftrightarrow> tx_state d' \<and> within (subjectiveChanges d) (subjectiveChanges d') \<and>
     (\<forall>i < numIndependentDatabases. written (subjectiveChanges d ! i) \<subseteq> written (subjectiveChanges d' ! i) \<and>
        agree_on (- written (subjectiveChanges d' ! i)) (top_db d' ! i) (top_db d ! i))"

lemma advances_trans: "advances a b \<Longrightarrow> advances b c \<Longrightarrow> advances a c"
  unfolding advances_def agree_on_def using within_trans by (metis (no_types, lifting) ComplD ComplI subset_iff)

lemma advances_log:
  assumes "tx_state d" "isIndependent db \<Longrightarrow> ranges_ok (f (subjectiveChanges d ! independentIndex db))"
    "\<And>cs. written (f cs) \<supseteq> written cs" "\<And>cs. touched (f cs) \<supseteq> touched cs"
  shows "advances d (log_access db f d)"
proof -
  have "written (subjectiveChanges d ! i) \<subseteq> written (subjectiveChanges (log_access db f d) ! i)" if "i < numIndependentDatabases" for i
    using assms(1,3) that by (auto simp: log_access_def tx_state_def nth_list_update index_bound)
  then show ?thesis
    using tx_state_log [where f = f, OF assms(1,2)] within_log [OF assms(1), of db f] assms(4) by (auto simp: advances_def agree_on_def)
qed

lemma access_growth:
  "written cs \<subseteq> written (onRead key cs)" "touched cs \<subseteq> touched (onRead key cs)"
  "written cs \<subseteq> written (onGreaterEqual key n f cs)" "touched cs \<subseteq> touched (onGreaterEqual key n f cs)"
  "written cs \<subseteq> written (onLessThan key n f cs)" "touched cs \<subseteq> touched (onLessThan key n f cs)"
  "written cs \<subseteq> written (onMax key f cs)" "touched cs \<subseteq> touched (onMax key f cs)"
  "written cs \<subseteq> written (onWrite key cs)" "touched cs \<subseteq> touched (onWrite key cs)"
  by (auto simp: accesses)

text \<open>
  A read, given as the function that searches a root and the range it records: it is the same in both runs.
\<close>

definition read_access :: "(rows \<Rightarrow> 'r) \<Rightarrow> ('r \<Rightarrow> change_set \<Rightarrow> change_set) \<Rightarrow> db_id \<Rightarrow> database \<Rightarrow> ('r \<times> database) result" where
  "read_access look rec db d =
     bind_result (read_revision d) (\<lambda>rv. bind_result (db_root d rv db) (\<lambda>r. Ok (look r, log_access db (rec (look r)) d)))"

locale recorded_read =
  fixes look :: "rows \<Rightarrow> 'r" and rec :: "'r \<Rightarrow> change_set \<Rightarrow> change_set"
  assumes rec_ok: "ordered r \<Longrightarrow> ranges_ok cs \<Longrightarrow> ranges_ok (rec (look r) cs)"
    and rec_growth: "written cs \<subseteq> written (rec x cs)" "touched cs \<subseteq> touched (rec x cs)"
    and look_agrees: "ordered r \<Longrightarrow> ordered s \<Longrightarrow> agree_on (touched (rec (look r) cs)) r s \<Longrightarrow> look s = look r"
begin

lemma read_advances:
  assumes "tx_state d" "read_access look rec db d = Ok (x, d')"
  shows "advances d d'"
proof -
  obtain rv r where r: "db_root d rv db = Ok r" "x = look r" "d' = log_access db (rec x) d"
    using assms(2) by (auto simp: read_access_def result_simps)
  have "ranges_ok (rec x (subjectiveChanges d ! independentIndex db))" if "isIndependent db"
    using that r(1,2) root_independent [OF assms(1) that] assms(1) index_bound [OF that] rec_ok
    by (auto simp: tx_state_def list_all_length)
  then show ?thesis unfolding r(3) by (intro advances_log [OF assms(1)] rec_growth)
qed

lemma read_sim:
  assumes sim: "sim final d e" and run: "read_access look rec db d = Ok (x, d')" and final: "within (subjectiveChanges d') final"
  shows "\<exists>e'. read_access look rec db e = Ok (x, e') \<and> sim final d' e'"
proof -
  obtain rv r where r: "read_revision d = Ok rv" "db_root d rv db = Ok r" "x = look r" "d' = log_access db (rec x) d"
    using run by (auto simp: read_access_def result_simps)
  have tx: "tx_state d" "tx_state e" using sim by (simp_all add: sim_def)
  have "\<exists>s. db_root e rv db = Ok s \<and> look s = x \<and> (isIndependent db \<longrightarrow> ranges_ok (rec x (subjectiveChanges d ! independentIndex db)))"
  proof (cases "isIndependent db")
    case True
    note top = top_root [OF sim True]
    have r': "r = top_db d ! independentIndex db" using r(2) root_independent [OF tx(1) True] by simp
    have "look (top_db e ! independentIndex db) = x"
      unfolding r(3) r'
    proof (rule look_agrees [OF top(1,2)])
      show "agree_on (touched (rec (look (top_db d ! independentIndex db)) (subjectiveChanges d ! independentIndex db)))
        (top_db d ! independentIndex db) (top_db e ! independentIndex db)"
        using final r by (intro agree_on_mono [OF top(3)] within_access [OF tx(1) True]) (simp add: r')
    qed
    then show ?thesis using root_independent [OF tx(2) True] rec_ok [OF top(1,4)] by (simp add: r(3) r')
  next
    case False
    then show ?thesis using sim_root [OF sim False] r by simp
  qed
  then show ?thesis
    using r sim_log [OF sim, of db "rec x"] by (auto simp: read_access_def sim_revision [OF sim])
qed

end

lemma db_root_log: "db_root (log_access a f d) rv db = db_root d rv db"
  by (simp only: db_root_def log_access_parts)

lemma kvGetRaw_access: "kvGetRaw db key d = read_access (\<lambda>r. kv_get r key) (\<lambda>_. onRead key) db d"
  by (simp add: kvGetRaw_def read_access_def Let_def db_root_log)

lemma kvGreaterEqualRaw_access:
  "n \<le> length key \<Longrightarrow> kvGreaterEqualRaw db key n d =
     read_access (\<lambda>r. match_key key n (kv_greater_equal r key)) (\<lambda>found. onGreaterEqual key n (map_option fst found)) db d"
  by (simp add: kvGreaterEqualRaw_def read_access_def Let_def)

lemma kvLessThanRaw_access:
  "n \<le> length key \<Longrightarrow> kvLessThanRaw db key n d =
     read_access (\<lambda>r. match_key key n (kv_less_than r key)) (\<lambda>found. onLessThan key n (map_option fst found)) db d"
  by (simp add: kvLessThanRaw_def read_access_def Let_def)

lemma kvMaxRaw_access:
  "kvMaxRaw db key d = read_access (\<lambda>r. kv_max r key) (\<lambda>found. onMax key (map_option fst found)) db d"
  by (simp add: kvMaxRaw_def read_access_def Let_def)

lemma found_key:
  "ordered r \<Longrightarrow> \<forall>a. map_option fst (kv_max r key) = Some a \<longrightarrow> prefix key a"
  "ordered r \<Longrightarrow> n \<le> length key \<Longrightarrow> \<forall>a. map_option fst (match_key key n (kv_greater_equal r key)) = Some a \<longrightarrow> key \<le> a"
  "ordered r \<Longrightarrow> n \<le> length key \<Longrightarrow> \<forall>a. map_option fst (match_key key n (kv_less_than r key)) = Some a \<longrightarrow> a < key"
  by (simp_all add: split_paired_all trie.max_prefix_content trie.greater_equal_content trie.less_than_content match_key_Some map_option_eq_Some)

interpretation get_read: recorded_read "\<lambda>r. kv_get r key" "\<lambda>_. onRead key" for key
  by unfold_locales (auto simp: accesses get_agrees)

interpretation max_read: recorded_read "\<lambda>r. kv_max r key" "\<lambda>found. onMax key (map_option fst found)" for key
proof
  show "ranges_ok (onMax key (map_option fst (kv_max r key)) cs)" if "ordered r" "ranges_ok cs" for r cs
    using that by (intro ranges_ok_access(5) found_key)
qed (auto simp: access_growth dest: max_agrees)

text \<open>The sizes are bounded by the keys, as \<open>NativeFunctions\<close> checks before the call.\<close>

interpretation ge_read: recorded_read "\<lambda>r. match_key key (min n (length key)) (kv_greater_equal r key)"
  "\<lambda>found. onGreaterEqual key (min n (length key)) (map_option fst found)" for key n
proof
  show "ranges_ok (onGreaterEqual key (min n (length key)) (map_option fst (match_key key (min n (length key)) (kv_greater_equal r key))) cs)"
    if "ordered r" "ranges_ok cs" for r cs
    using that by (intro ranges_ok_access(3) found_key) simp_all
  show "match_key key (min n (length key)) (kv_greater_equal s key) = match_key key (min n (length key)) (kv_greater_equal r key)"
    if "ordered r" "ordered s" "agree_on (touched (onGreaterEqual key (min n (length key))
        (map_option fst (match_key key (min n (length key)) (kv_greater_equal r key))) cs)) r s" for r s cs
    by (rule greater_equal_agrees [OF that(1,2) _ refl that(3)]) simp
qed (auto simp: access_growth)

interpretation lt_read: recorded_read "\<lambda>r. match_key key (min n (length key)) (kv_less_than r key)"
  "\<lambda>found. onLessThan key (min n (length key)) (map_option fst found)" for key n
proof
  show "ranges_ok (onLessThan key (min n (length key)) (map_option fst (match_key key (min n (length key)) (kv_less_than r key))) cs)"
    if "ordered r" "ranges_ok cs" for r cs
    using that by (intro ranges_ok_access(4) found_key) simp_all
  show "match_key key (min n (length key)) (kv_less_than s key) = match_key key (min n (length key)) (kv_less_than r key)"
    if "ordered r" "ordered s" "agree_on (touched (onLessThan key (min n (length key))
        (map_option fst (match_key key (min n (length key)) (kv_less_than r key))) cs)) r s" for r s cs
    by (rule less_than_agrees [OF that(1,2) _ refl that(3)]) simp
qed (auto simp: access_growth)

text \<open>A write, given as the update of the root.\<close>

definition write_access :: "(rows \<Rightarrow> rows) \<Rightarrow> db_id \<Rightarrow> bytes \<Rightarrow> database \<Rightarrow> database result" where
  "write_access upd db key d =
     bind_result (write_revision d) (\<lambda>rv. bind_result (db_root d rv db) (\<lambda>r.
       Ok (assign_root db (upd r) (log_access db (onWrite key) d))))"

locale recorded_write =
  fixes upd :: "rows \<Rightarrow> rows" and key :: bytes
  assumes upd_ordered: "ordered r \<Longrightarrow> ordered (upd r)"
    and upd_other: "ordered r \<Longrightarrow> k \<noteq> key \<Longrightarrow> map_of (upd r) k = map_of r k"
    and upd_agrees: "ordered r \<Longrightarrow> ordered s \<Longrightarrow> agree_on K r s \<Longrightarrow> agree_on K (upd r) (upd s)"
begin

lemma write_advances:
  assumes tx: "tx_state d" and run: "write_access upd db key d = Ok d'"
  shows "advances d d'"
proof -
  define e where "e = log_access db (onWrite key) d"
  obtain rv r where r: "db_root d rv db = Ok r" "d' = assign_root db (upd r) e"
    using run by (auto simp: write_access_def result_simps e_def)
  have log: "advances d e"
    unfolding e_def using tx index_bound
    by (intro advances_log) (auto simp: ranges_ok_access access_growth tx_state_def list_all_length)
  have e: "tx_state e" "top_db e = top_db d" using log by (simp_all add: advances_def e_def)
  have "advances e d'"
  proof (cases "isIndependent db")
    case True
    let ?i = "independentIndex db"
    have i: "?i < numIndependentDatabases" by (rule index_bound [OF True])
    have r': "r = top_db e ! ?i" using r(1) root_independent [OF tx True] e(2) by simp
    have ordered: "ordered r" using e(1) i by (simp add: tx_state_def list_all_length r')
    have "key \<in> written (subjectiveChanges e ! ?i)"
      using tx i True by (simp add: e_def log_access_def tx_state_def written_access)
    then have "agree_on (- written (subjectiveChanges e ! ?i)) (upd r) (top_db e ! ?i)"
      using upd_other [OF ordered] unfolding agree_on_def r' by (metis ComplD)
    then have "agree_on (- written (subjectiveChanges e ! j)) (top_db d' ! j) (top_db e ! j)" if "j < numIndependentDatabases" for j
      using that i e(1) True by (auto simp: r(2) top_db_assign nth_list_update tx_state_def agree_on_def)
    then show ?thesis using tx_state_assign [OF e(1)] upd_ordered [OF ordered] by (simp add: advances_def r(2))
  next
    case False
    then show ?thesis
      using e(1) tx_state_assign [OF e(1), of db "upd r"] by (simp add: advances_def r(2) top_db_assign agree_on_def)
  qed
  with log show ?thesis by (rule advances_trans)
qed

lemma write_sim:
  assumes sim: "sim final d e" and run: "write_access upd db key d = Ok d'"
  shows "\<exists>e'. write_access upd db key e = Ok e' \<and> sim final d' e'"
proof -
  obtain rv r where r: "write_revision d = Ok rv" "db_root d rv db = Ok r" "d' = assign_root db (upd r) (log_access db (onWrite key) d)"
    using run by (auto simp: write_access_def result_simps)
  have tx: "tx_state d" "tx_state e" using sim by (simp_all add: sim_def)
  have log: "sim final (log_access db (onWrite key) d) (log_access db (onWrite key) e)"
    using top_root(4) [OF sim] by (intro sim_log [OF sim]) (simp add: ranges_ok_access)
  obtain s where s: "db_root e rv db = Ok s"
    "sim final (assign_root db (upd r) (log_access db (onWrite key) d)) (assign_root db (upd s) (log_access db (onWrite key) e))"
  proof (cases "isIndependent db")
    case True
    note top = top_root [OF sim True]
    have "r = top_db d ! independentIndex db" using r(2) root_independent [OF tx(1) True] by simp
    then show ?thesis
      using that root_independent [OF tx(2) True] sim_assign [OF log] True upd_ordered top upd_agrees by blast
  next
    case False
    have "sim final (assign_root db (upd r) (log_access db (onWrite key) d)) (assign_root db (upd r) (log_access db (onWrite key) e))"
      using False by (intro sim_assign [OF log]) simp_all
    then show ?thesis using that [of r] sim_root [OF sim False] r(2) by simp
  qed
  then show ?thesis using r by (simp add: write_access_def sim_revision [OF sim])
qed

end

lemma kvPutRaw_access: "kvPutRaw db key v d = write_access (kv_upsert key v) db key d"
  by (simp add: kvPutRaw_def write_access_def Let_def db_root_log)

lemma kvRemoveRaw_access: "kvRemoveRaw db key d = write_access (map_erase key) db key d"
  by (simp add: kvRemoveRaw_def write_access_def Let_def db_root_log)

interpretation put_write: recorded_write "kv_upsert key v" key for key v
  by unfold_locales (simp_all add: agree_upsert omap)

interpretation remove_write: recorded_write "map_erase key" key for key
  by unfold_locales (simp_all add: agree_erase omap)

text \<open>Nested transactions only push and pop copies of the databases.\<close>

lemma checkout_nested:
  assumes "tx_state d"
  shows "checkoutSubjective sh d =
    (if length (subjectiveRevisions d) \<le> maxSubjectiveTransactionDepth then
       Ok (d\<lparr>subjectiveRevisions :=
         \<lparr>changeSetPos = getChangeSetPos (subjectiveChanges d), socketChangePos = length (socketChanges d),
          subjective_db = top_db d, subjective_temporary = subjective_temporary (hd (subjectiveRevisions d))\<rparr> # subjectiveRevisions d\<rparr>)
     else Err (Abort ''checkoutSubjective nesting exceeded limit''))"
  using assms by (auto simp: checkoutSubjective_def tx_state_def top_db_def check_def)

lemma commit_nested_eq:
  assumes "tx_state d"
  shows "commit_nested d =
    (if length (subjectiveRevisions d) \<le> 2 then Err Undefined
     else if subjectiveLimit d < length (subjectiveRevisions d) then
       (case subjectiveRevisions d of
          s # p # rest \<Rightarrow> Ok (d\<lparr>subjectiveRevisions :=
             p\<lparr>subjective_db := subjective_db s, subjective_temporary := subjective_temporary s\<rparr> # rest\<rparr>)
        | _ \<Rightarrow> Err Undefined)
     else Err (Abort ''commitSubjective requires checkoutSubjective''))"
  by (auto simp: commit_nested_def commitSubjective_def check_def split: list.splits)

lemma nested_same_rest:
  assumes "sim final d e"
  shows "same_rest (d\<lparr>subjectiveRevisions := ss\<rparr>) (e\<lparr>subjectiveRevisions := ts\<rparr>)"
proof -
  define ts' where "ts' = subjectiveRevisions e"
  have e: "e = d\<lparr>subjectiveRevisions := ts'\<rparr>" using assms unfolding sim_def same_rest_def ts'_def by blast
  show ?thesis unfolding e by (simp add: same_rest_def)
qed

lemma nested_sim:
  assumes "sim final d e" "same_shape (s # ss) (t # ts)" "subjective_db s = top_db d" "subjective_db t = top_db e" "ss \<noteq> []"
  shows "sim final (d\<lparr>subjectiveRevisions := s # ss\<rparr>) (e\<lparr>subjectiveRevisions := t # ts\<rparr>)"
proof -
  have "length ts = length ss" using same_shape_length [OF assms(2)] by simp
  then have "tx_state (d\<lparr>subjectiveRevisions := s # ss\<rparr>)" "tx_state (e\<lparr>subjectiveRevisions := t # ts\<rparr>)"
    using assms by (cases ss; cases ts; simp add: sim_def tx_state_def top_db_def)+
  then show ?thesis
    using assms nested_same_rest [OF assms(1)] by (simp add: sim_def top_db_def)
qed

lemma nested_advances:
  assumes "tx_state d" "subjective_db s = top_db d" "ss \<noteq> []"
  shows "advances d (d\<lparr>subjectiveRevisions := s # ss\<rparr>)"
  using assms by (cases ss) (simp_all add: advances_def tx_state_def top_db_def agree_on_def)

lemma checkout_advances:
  assumes "tx_state d" "checkoutSubjective sh d = Ok d'"
  shows "advances d d'"
proof -
  have "subjectiveRevisions d \<noteq> []" using assms(1) by (auto simp: tx_state_def)
  then show ?thesis using assms(2) nested_advances [OF assms(1)] by (auto simp: checkout_nested [OF assms(1)] split: if_splits)
qed

lemma checkout_sim:
  assumes sim: "sim final d e" and run: "checkoutSubjective sh d = Ok d'"
  shows "\<exists>e'. checkoutSubjective sh' e = Ok e' \<and> sim final d' e'"
proof -
  have tx: "tx_state d" "tx_state e" using sim by (simp_all add: sim_def)
  obtain s ss t ts where st: "subjectiveRevisions d = s # ss" "subjectiveRevisions e = t # ts" "same_shape ss ts" "alike s t" "ss \<noteq> []"
    by (rule sim_stacks [OF sim])
  then show ?thesis
    using run tx nested_sim [OF sim] sim_parts [OF sim]
    by (auto simp: checkout_nested same_shape_def alike_def split: if_splits)
qed

lemma commit_advances:
  assumes "tx_state d" "commit_nested d = Ok d'"
  shows "advances d d'"
  using assms nested_advances [OF assms(1)]
  by (auto simp: commit_nested_eq [OF assms(1)] top_db_def split: if_splits list.splits)

lemma commit_sim:
  assumes sim: "sim final d e" and run: "commit_nested d = Ok d'"
  shows "\<exists>e'. commit_nested e = Ok e' \<and> sim final d' e'"
proof -
  have tx: "tx_state d" "tx_state e" using sim by (simp_all add: sim_def)
  obtain s ss t ts where st: "subjectiveRevisions d = s # ss" "subjectiveRevisions e = t # ts" "same_shape ss ts" "alike s t" "ss \<noteq> []"
    by (rule sim_stacks [OF sim])
  obtain p ps where ps: "ss = p # ps" using st(5) by (cases ss) auto
  then obtain q qs where qs: "ts = q # qs" "alike p q" "same_shape ps qs" using st(3) by (auto simp: same_shape_def list_all2_Cons1)
  have d': "subjectiveLimit d < Suc (Suc (length ps))" "ps \<noteq> []"
    "d' = d\<lparr>subjectiveRevisions := p\<lparr>subjective_db := subjective_db s, subjective_temporary := subjective_temporary s\<rparr> # ps\<rparr>"
    using run st(1) ps by (auto simp: commit_nested_eq [OF tx(1)] split: if_splits)
  have "length qs = length ps" using qs(3) by (simp add: same_shape_def list_all2_lengthD)
  then have "commit_nested e = Ok (e\<lparr>subjectiveRevisions := q\<lparr>subjective_db := subjective_db t, subjective_temporary := subjective_temporary t\<rparr> # qs\<rparr>)"
    using st(2) qs d'(1,2) sim_parts(8) [OF sim] by (cases qs) (auto simp: commit_nested_eq [OF tx(2)])
  moreover have "sim final d' (e\<lparr>subjectiveRevisions := q\<lparr>subjective_db := subjective_db t, subjective_temporary := subjective_temporary t\<rparr> # qs\<rparr>)"
    unfolding d'(3) using st qs d'(2)
    by (intro nested_sim [OF sim]) (auto simp: same_shape_def alike_def top_db_def)
  ultimately show ?thesis by blast
qed

section \<open>Whole transactions\<close>

lemma ge_checked: "kvGreaterEqualRaw db key n d = Ok p \<Longrightarrow> min n (length key) = n"
  by (simp add: kvGreaterEqualRaw_def split: if_splits)

lemma lt_checked: "kvLessThanRaw db key n d = Ok p \<Longrightarrow> min n (length key) = n"
  by (simp add: kvLessThanRaw_def split: if_splits)

lemmas access_forms = kvGetRaw_access kvMaxRaw_access kvPutRaw_access kvRemoveRaw_access

lemma ge_advances:
  assumes "tx_state d" "kvGreaterEqualRaw db key n d = Ok (x, d')"
  shows "advances d d'"
proof -
  have n: "min n (length key) = n" by (rule ge_checked [OF assms(2)])
  then have "n \<le> length key" by linarith
  then show ?thesis using ge_read.read_advances [of d key n db x d'] assms by (simp add: n kvGreaterEqualRaw_access)
qed

lemma lt_advances:
  assumes "tx_state d" "kvLessThanRaw db key n d = Ok (x, d')"
  shows "advances d d'"
proof -
  have n: "min n (length key) = n" by (rule lt_checked [OF assms(2)])
  then have "n \<le> length key" by linarith
  then show ?thesis using lt_read.read_advances [of d key n db x d'] assms by (simp add: n kvLessThanRaw_access)
qed

lemma ge_sim:
  assumes "sim final d e" "kvGreaterEqualRaw db key n d = Ok (x, d')" "within (subjectiveChanges d') final"
  shows "\<exists>e'. kvGreaterEqualRaw db key n e = Ok (x, e') \<and> sim final d' e'"
proof -
  have n: "min n (length key) = n" by (rule ge_checked [OF assms(2)])
  then have "n \<le> length key" by linarith
  then show ?thesis
    using ge_read.read_sim [of final d e key n db x d'] assms by (simp add: n kvGreaterEqualRaw_access)
qed

lemma lt_sim:
  assumes "sim final d e" "kvLessThanRaw db key n d = Ok (x, d')" "within (subjectiveChanges d') final"
  shows "\<exists>e'. kvLessThanRaw db key n e = Ok (x, e') \<and> sim final d' e'"
proof -
  have n: "min n (length key) = n" by (rule lt_checked [OF assms(2)])
  then have "n \<le> length key" by linarith
  then show ?thesis
    using lt_read.read_sim [of final d e key n db x d'] assms by (simp add: n kvLessThanRaw_access)
qed

lemma get_advances: "tx_state d \<Longrightarrow> kvGetRaw db key d = Ok (x, d') \<Longrightarrow> advances d d'"
  unfolding access_forms by (rule get_read.read_advances)
lemma max_advances: "tx_state d \<Longrightarrow> kvMaxRaw db key d = Ok (x, d') \<Longrightarrow> advances d d'"
  unfolding access_forms by (rule max_read.read_advances)
lemma put_advances: "tx_state d \<Longrightarrow> kvPutRaw db key v d = Ok d' \<Longrightarrow> advances d d'"
  unfolding access_forms by (rule put_write.write_advances)
lemma remove_advances: "tx_state d \<Longrightarrow> kvRemoveRaw db key d = Ok d' \<Longrightarrow> advances d d'"
  unfolding access_forms by (rule remove_write.write_advances)

lemma call_advances:
  assumes "tx_state d" "run_call sh d c = Ok (r, d')"
  shows "advances d d'"
  using assms
  by (cases c) (auto simp: result_simps dest: get_advances ge_advances lt_advances max_advances put_advances remove_advances
      checkout_advances commit_advances)

lemma call_sim:
  assumes sim: "sim final d e" and run: "run_call sh d c = Ok (r, d')" and final: "within (subjectiveChanges d') final"
  shows "\<exists>e'. run_call sh' e c = Ok (r, e') \<and> sim final d' e'"
proof (cases c)
  case (Call_Get db key)
  then show ?thesis
    using run final get_read.read_sim [OF sim, of key db] by (fastforce simp: result_simps kvGetRaw_access)
next
  case (Call_Greater_Equal db key n)
  then show ?thesis using run final ge_sim [OF sim, of db key n] by (fastforce simp: result_simps)
next
  case (Call_Less_Than db key n)
  then show ?thesis using run final lt_sim [OF sim, of db key n] by (fastforce simp: result_simps)
next
  case (Call_Max db key)
  then show ?thesis
    using run final max_read.read_sim [OF sim, of key db] by (fastforce simp: result_simps kvMaxRaw_access)
next
  case (Call_Put db key v)
  then show ?thesis
    using run put_write.write_sim [OF sim, of key v db] by (fastforce simp: result_simps kvPutRaw_access)
next
  case (Call_Remove db key)
  then show ?thesis
    using run remove_write.write_sim [OF sim, of key db] by (fastforce simp: result_simps kvRemoveRaw_access)
next
  case Call_Checkout
  then show ?thesis using run checkout_sim [OF sim, of sh _ sh'] by (fastforce simp: result_simps)
next
  case Call_Commit
  then show ?thesis using run commit_sim [OF sim] by (fastforce simp: result_simps)
qed

lemma run_advances: "tx_state d \<Longrightarrow> run_tx sh t d = Ok (x, d') \<Longrightarrow> advances d d'"
proof (induction t arbitrary: d)
  case (Tx_Return y)
  then show ?case by (simp add: advances_def agree_on_def)
next
  case (Tx_Call c f)
  then obtain r e where e: "run_call sh d c = Ok (r, e)" "run_tx sh (f r) e = Ok (x, d')" by (auto simp: result_simps)
  have step: "advances d e" by (rule call_advances [OF Tx_Call.prems(1) e(1)])
  then have "tx_state e" by (simp add: advances_def)
  then have "advances e d'" using Tx_Call.IH [OF rangeI] e(2) by blast
  with step show ?case by (rule advances_trans)
qed

lemma run_sim:
  "sim final d e \<Longrightarrow> run_tx sh t d = Ok (x, d') \<Longrightarrow> within (subjectiveChanges d') final \<Longrightarrow>
     \<exists>e'. run_tx sh' t e = Ok (x, e') \<and> sim final d' e'"
proof (induction t arbitrary: d e)
  case (Tx_Return y)
  then show ?case by simp
next
  case (Tx_Call c f)
  then obtain r b where b: "run_call sh d c = Ok (r, b)" "run_tx sh (f r) b = Ok (x, d')" by (auto simp: result_simps)
  have tx: "tx_state d" using Tx_Call.prems(1) by (simp add: sim_def)
  have "tx_state b" using call_advances [OF tx b(1)] by (simp add: advances_def)
  then have "within (subjectiveChanges b) final"
    using run_advances [OF _ b(2)] Tx_Call.prems(3) within_trans unfolding advances_def by blast
  then obtain c' where "run_call sh' e c = Ok (r, c')" "sim final b c'" using call_sim [OF Tx_Call.prems(1) b(1)] by blast
  then show ?case using Tx_Call.IH [OF rangeI, of b c'] b(2) Tx_Call.prems(3) by fastforce
qed

text \<open>What a transaction leaves alone: its session, and the databases it was checked out with.\<close>

definition keeps :: "database \<Rightarrow> database \<Rightarrow> bool" where
  "keeps d d' \<longleftrightarrow> writeSession d' = writeSession d \<and> last (subjectiveRevisions d') = last (subjectiveRevisions d) \<and>
     (\<not> writeSession d \<longrightarrow> (\<forall>i < numIndependentDatabases. written (subjectiveChanges d' ! i) = written (subjectiveChanges d ! i)))"

lemma keeps_log: "\<lbrakk>tx_state d; \<And>cs. written (f cs) = written cs\<rbrakk> \<Longrightarrow> keeps d (log_access db f d)"
  by (auto simp: keeps_def log_access_def tx_state_def nth_list_update index_bound)

lemma keeps_assign:
  assumes "tx_state d" "writeSession d"
  shows "keeps d (assign_root db r (log_access db f d))"
proof -
  obtain s p ps where "subjectiveRevisions d = s # p # ps"
    using assms(1) by (cases "subjectiveRevisions d" rule: remdups_adj.cases) (auto simp: tx_state_def)
  then show ?thesis using assms(2) by (simp add: keeps_def assign_root_def set_top_subjective_def log_access_def)
qed

lemma keeps_write: "tx_state d \<Longrightarrow> write_access upd db key d = Ok d' \<Longrightarrow> keeps d d'"
  by (auto simp: write_access_def write_revision_def result_simps keeps_assign split: if_splits)

lemma keeps_read: "\<lbrakk>tx_state d; read_access look rec db d = Ok (x, d'); \<And>y cs. written (rec y cs) = written cs\<rbrakk> \<Longrightarrow> keeps d d'"
  by (auto simp: read_access_def result_simps keeps_log)

lemma keeps_checkout: "tx_state d \<Longrightarrow> checkoutSubjective sh d = Ok d' \<Longrightarrow> keeps d d'"
  by (auto simp: checkout_nested keeps_def tx_state_def split: if_splits)

lemma keeps_commit: "tx_state d \<Longrightarrow> commit_nested d = Ok d' \<Longrightarrow> keeps d d'"
  by (auto simp: commit_nested_eq keeps_def split: if_splits list.splits)

lemma call_keeps:
  assumes tx: "tx_state d" and run: "run_call sh d c = Ok (r, d')"
  shows "keeps d d'"
proof (cases c)
  case (Call_Greater_Equal db key n)
  then obtain x where x: "kvGreaterEqualRaw db key n d = Ok (x, d')" using run by (auto simp: result_simps)
  then have "n \<le> length key" by (simp add: kvGreaterEqualRaw_def split: if_splits)
  with x show ?thesis by (auto simp: kvGreaterEqualRaw_access accesses intro: keeps_read [OF tx])
next
  case (Call_Less_Than db key n)
  then obtain x where x: "kvLessThanRaw db key n d = Ok (x, d')" using run by (auto simp: result_simps)
  then have "n \<le> length key" by (simp add: kvLessThanRaw_def split: if_splits)
  with x show ?thesis by (auto simp: kvLessThanRaw_access accesses intro: keeps_read [OF tx])
qed (use run in \<open>auto simp: result_simps access_forms accesses intro: keeps_read [OF tx] keeps_write [OF tx]
    keeps_checkout [OF tx] keeps_commit [OF tx]\<close>)

lemma run_keeps: "tx_state d \<Longrightarrow> run_tx sh t d = Ok (x, d') \<Longrightarrow> keeps d d'"
proof (induction t arbitrary: d)
  case (Tx_Return y)
  then show ?case by (simp add: keeps_def)
next
  case (Tx_Call c f)
  then obtain r e where e: "run_call sh d c = Ok (r, e)" "run_tx sh (f r) e = Ok (x, d')" by (auto simp: result_simps)
  have "tx_state e" using call_advances [OF Tx_Call.prems(1) e(1)] by (simp add: advances_def)
  then have "keeps e d'" using Tx_Call.IH [OF rangeI] e(2) by blast
  with call_keeps [OF Tx_Call.prems(1) e(1)] show ?case by (simp add: keeps_def)
qed

section \<open>Commit\<close>

lemma ordered_eqI:
  fixes a b :: rows
  assumes "ordered a" "ordered b" "\<And>k. map_of a k = map_of b k"
  shows "a = b"
proof -
  have rows: "r = map (\<lambda>k. (k, the (map_of r k))) (map fst r)" if "ordered r" for r :: rows
    using map_of_is_SomeI [OF ordered_distinct [OF that]] by (auto simp: comp_def intro!: map_idI [symmetric])
  have "map_of a = map_of b" using assms(3) by blast
  moreover have "map fst a = map fst b"
  proof (rule sorted_distinct_set_unique)
    show "set (map fst a) = set (map fst b)" using \<open>map_of a = map_of b\<close> by (metis dom_map_of_conv_image_fst set_map)
  qed (use assms(1,2) in \<open>auto simp: ordered_def strict_sorted_iff\<close>)
  ultimately show ?thesis using rows [OF assms(1)] rows [OF assms(2)] by metis
qed

lemma splice_changes_props:
  assumes "ordered current" "ordered updated" "ranges_ok cs"
  shows "ordered (splice_changes current updated cs) \<and>
    map_of (splice_changes current updated cs) k = (if k \<in> written cs then map_of updated k else map_of current k)"
  using assms(1,3)
proof (induction cs arbitrary: current)
  case (Cons r cs)
  have ok: "range_ok (range_lower r) (range_upper r)" "ranges_ok cs" using Cons.prems by simp_all
  have "ordered (if range_write r then kv_splice current updated (range_lower r) (range_upper r) else current)"
    using Cons.prems(1) assms(2) ok by (simp add: omap)
  from Cons.IH [OF this ok(2)] show ?case
    using ok(1) by (auto simp: splice_changes_def map_of_kv_splice covers_def)
qed (simp add: splice_changes_def)

definition subjective_ok :: "shared_db \<Rightarrow> bool" where
  "subjective_ok sh \<longleftrightarrow> length (shared_subjective sh) = numIndependentDatabases \<and> list_all ordered (shared_subjective sh)"

text \<open>No subjective transaction is open in the session.\<close>

definition tx_idle :: "database \<Rightarrow> bool" where
  "tx_idle d \<longleftrightarrow> subjectiveRevisions d = [] \<and> subjectiveChanges d = replicate numIndependentDatabases []"

text \<open>\<open>is_equal_weak\<close> answers true only if the range has the same rows in both roots.\<close>

definition weak_sound :: "weak_equality \<Rightarrow> bool" where
  "weak_sound weak \<longleftrightarrow> (\<forall>a b lower upper. weak a b lower upper \<longrightarrow> agree_on {k. in_range lower upper k} a b)"

definition base_revision :: "shared_db \<Rightarrow> database \<Rightarrow> subjective_revision" where
  "base_revision sh d = \<lparr>changeSetPos = replicate numIndependentDatabases 0, socketChangePos = 0,
     subjective_db = shared_subjective sh, subjective_temporary = temporaryDb d\<rparr>"

lemma checkout_first:
  assumes "tx_idle d"
  shows "checkoutSubjective sh d = Ok (d\<lparr>subjectiveRevisions :=
      [(base_revision sh d)\<lparr>socketChangePos := length (socketChanges d)\<rparr>, base_revision sh d], callbackFlags := 0\<rparr>)"
  using assms by (simp add: checkoutSubjective_def tx_idle_def maxSubjectiveTransactionDepth_def base_revision_def
      getChangeSetPos_def check_def result_simps)

lemma checkout_first_props:
  assumes "tx_idle d" "subjective_ok sh" "checkoutSubjective sh d = Ok e"
  shows "tx_state e" "top_db e = shared_subjective sh" "last (subjectiveRevisions e) = base_revision sh d"
    "subjectiveChanges e = replicate numIndependentDatabases []"
  using assms by (auto simp: checkout_first tx_state_def top_db_def base_revision_def subjective_ok_def tx_idle_def list_all_iff)

lemma checkout_first_sim:
  assumes "tx_idle d" "subjective_ok sh" "subjective_ok sh'" "checkoutSubjective sh d = Ok e" "checkoutSubjective sh' d = Ok e'"
    "\<forall>i < numIndependentDatabases. agree_on (touched (final ! i)) (shared_subjective sh ! i) (shared_subjective sh' ! i)"
  shows "sim final e e'"
proof -
  have "same_rest e e'" "same_shape (subjectiveRevisions e) (subjectiveRevisions e')"
    using assms(4,5) by (auto simp: checkout_first [OF assms(1)] same_rest_def same_shape_def alike_def base_revision_def)
  then show ?thesis
    using checkout_first_props [OF assms(1,2,4)] checkout_first_props [OF assms(1,3,5)] assms(6) by (simp add: sim_def)
qed

text \<open>What a successful outermost commit has done.\<close>

lemma commit_outer:
  assumes commit: "commitSubjective weak hasCallbacks closing socks sh d = Ok r" and ok: "sc_ok r"
    and two: "length (subjectiveRevisions d) = 2" and changes: "length (subjectiveChanges d) = numIndependentDatabases"
  obtains (same) "sc_shared r = sh" "\<not> writeSession d \<or> \<not> list_ex (list_ex range_write) (map prepare (subjectiveChanges d))"
  | (spliced) "\<forall>i < numIndependentDatabases. unchanged weak (subjective_db (last (subjectiveRevisions d)) ! i)
        (shared_subjective sh ! i) (prepare (subjectiveChanges d ! i))"
      "shared_subjective (sc_shared r) =
         map (\<lambda>i. splice_changes (shared_subjective sh ! i) (top_db d ! i) (prepare (subjectiveChanges d ! i))) [0 ..< numIndependentDatabases]"
proof -
  obtain s1 s0 where st: "subjectiveRevisions d = [s1, s0]"
    using two by (cases "subjectiveRevisions d" rule: remdups_adj.cases) auto
  define c where "c = shared_commit weak (subjective_db s0) (subjective_db s1) (subjectiveChanges d) (socketChanges d) closing socks sh"
  show thesis
  proof (cases "writeSession d")
    case False
    then show ?thesis using commit st same by (auto simp: commitSubjective_def result_simps check_def split: if_splits)
  next
    case True
    have c: "commit_ok c" "sc_shared r = commit_shared c"
      using commit ok st True by (auto simp: commitSubjective_def result_simps check_def c_def [symmetric] Let_def split: if_splits)
    show ?thesis
    proof (cases "has_change (map prepare (subjectiveChanges d)) (socketChanges d)")
      case False
      then show ?thesis using same c by (simp add: c_def shared_commit_def Let_def has_change_def)
    next
      case True
      then have "list_all (\<lambda>i. unchanged weak (subjective_db s0 ! i) (shared_subjective sh ! i) (map prepare (subjectiveChanges d) ! i))
          [0 ..< numIndependentDatabases]"
        "shared_subjective (commit_shared c) =
           map (\<lambda>i. splice_changes (shared_subjective sh ! i) (subjective_db s1 ! i) (map prepare (subjectiveChanges d) ! i)) [0 ..< numIndependentDatabases]"
        using c(1) by (auto simp: c_def shared_commit_def Let_def store_top_def split: if_splits prod.splits)
      moreover have "map prepare (subjectiveChanges d) ! i = prepare (subjectiveChanges d ! i)" if "i < numIndependentDatabases" for i
        using that changes by simp
      ultimately show ?thesis by (intro spliced) (simp_all add: st top_db_def c(2) list_all_iff cong: map_cong)
    qed
  qed
qed

lemma unchanged_agrees:
  assumes "weak_sound weak" "unchanged weak a b (prepare cs)"
  shows "agree_on (touched cs) a b"
proof -
  have "agree_on {k. covers r k} a b" if "r \<in> set (prepare cs)" for r
    using that assms by (auto simp: unchanged_def weak_sound_def list_all_iff covers_def)
  then have "agree_on (touched (prepare cs)) a b" by (auto simp: agree_on_def touched_def)
  then show ?thesis using prepare_props [of cs] by simp
qed

lemma unwritten_same:
  assumes "tx_state d" "tx_state e" "\<forall>i < numIndependentDatabases. agree_on UNIV (top_db d ! i) (top_db e ! i)"
  shows "top_db d = top_db e"
  using assms by (intro nth_equalityI ordered_eqI) (auto simp: tx_state_def agree_on_def list_all_length)

text \<open>
  The outcome of a transaction that has run on the databases of \<open>sh0\<close> and is committed when they are those of
  \<open>sh1\<close>.
\<close>

definition serial_outcome :: "'a tx \<Rightarrow> database \<Rightarrow> 'a \<Rightarrow> shared_db \<Rightarrow> shared_db \<Rightarrow> shared_db \<Rightarrow> bool" where
  "serial_outcome t d x sh0 sh1 sh2 \<longleftrightarrow>
     (\<exists>e1 e2. checkoutSubjective sh0 d = Ok e1 \<and> run_tx sh0 t e1 = Ok (x, e2) \<and>
        top_db e2 = shared_subjective sh0 \<and> sh2 = sh1) \<or>
     (\<exists>e1 e2. checkoutSubjective sh1 d = Ok e1 \<and> run_tx sh1 t e1 = Ok (x, e2) \<and>
        shared_subjective sh2 = top_db e2)"

lemma spliced_serial:
  assumes "weak_sound weak" "tx_idle d0" "subjective_ok sh0" "subjective_ok sh1"
    "checkoutSubjective sh0 d0 = Ok d1" "run_tx sh0 t d1 = Ok (x, d2)"
    and same: "\<forall>i < numIndependentDatabases. unchanged weak (shared_subjective sh0 ! i) (shared_subjective sh1 ! i) (prepare (subjectiveChanges d2 ! i))"
  shows "\<exists>e1 e2. checkoutSubjective sh1 d0 = Ok e1 \<and> run_tx sh1 t e1 = Ok (x, e2) \<and>
    map (\<lambda>i. splice_changes (shared_subjective sh1 ! i) (top_db d2 ! i) (prepare (subjectiveChanges d2 ! i))) [0 ..< numIndependentDatabases] = top_db e2"
proof -
  obtain e1 where e1: "checkoutSubjective sh1 d0 = Ok e1" using checkout_first [OF assms(2)] by blast
  note d1 = checkout_first_props [OF assms(2,3,5)] and e1' = checkout_first_props [OF assms(2,4) e1]
  have "sim (subjectiveChanges d2) d1 e1"
    using same unchanged_agrees [OF assms(1)] by (intro checkout_first_sim [OF assms(2-5) e1]) blast
  then obtain e2 where e2: "run_tx sh1 t e1 = Ok (x, e2)" "sim (subjectiveChanges d2) d2 e2"
    using run_sim [OF _ assms(6) within_refl] by blast
  have adv: "advances e1 e2" by (rule run_advances [OF e1'(1) e2(1)])
  have tx: "tx_state d2" "tx_state e2" "subjectiveChanges e2 = subjectiveChanges d2"
    using e2(2) sim_parts [OF e2(2)] by (simp_all add: sim_def)
  have "splice_changes (shared_subjective sh1 ! i) (top_db d2 ! i) (prepare (subjectiveChanges d2 ! i)) = top_db e2 ! i"
    if i: "i < numIndependentDatabases" for i
  proof -
    let ?cs = "subjectiveChanges d2 ! i"
    have ok: "ordered (shared_subjective sh1 ! i)" "ordered (top_db d2 ! i)" "ordered (top_db e2 ! i)" "ranges_ok (prepare ?cs)"
      using tx i assms(4) by (auto simp: tx_state_def list_all_length subjective_ok_def intro: ranges_ok_prepare)
    have frame: "agree_on (- written ?cs) (top_db e2 ! i) (shared_subjective sh1 ! i)"
      using adv i by (simp add: advances_def tx(3) e1'(2))
    have inside: "agree_on (touched ?cs) (top_db d2 ! i) (top_db e2 ! i)" using e2(2) i by (simp add: sim_def)
    note splice = splice_changes_props [OF ok(1,2,4)]
    show ?thesis
    proof (rule ordered_eqI)
      show "map_of (splice_changes (shared_subjective sh1 ! i) (top_db d2 ! i) (prepare ?cs)) k = map_of (top_db e2 ! i) k" for k
      proof (cases "k \<in> written (prepare ?cs)")
        case True
        then have "k \<in> touched ?cs" using prepare_props [of ?cs] written_touched [of "prepare ?cs"] by auto
        then show ?thesis using splice [of k] True inside by (simp add: agree_on_def)
      next
        case False
        then have "k \<notin> written ?cs" using prepare_props [of ?cs] by auto
        then show ?thesis using splice [of k] False frame by (simp add: agree_on_def)
      qed
    qed (use splice ok in blast)+
  qed
  then have "map (\<lambda>i. splice_changes (shared_subjective sh1 ! i) (top_db d2 ! i) (prepare (subjectiveChanges d2 ! i))) [0 ..< numIndependentDatabases] = top_db e2"
    using tx(2) by (intro nth_equalityI) (simp_all add: tx_state_def)
  then show ?thesis using e1 e2(1) by blast
qed


text \<open>
  An example: a service increments a counter that it finds by searching for the largest key, while another
  key is written by somebody else.
\<close>

definition exact_equality :: weak_equality where
  "exact_equality a b lower upper =
     (filter (\<lambda>p. in_range lower upper (fst p)) a = filter (\<lambda>p. in_range lower upper (fst p)) b)"

lemma exact_equality_sound: "weak_sound exact_equality"
proof -
  have "map_of a k = map_of b k" if "exact_equality a b lower upper" "in_range lower upper k" for a b lower upper k
    using that map_of_filter_key [of "in_range lower upper" a k] map_of_filter_key [of "in_range lower upper" b k]
    by (simp add: exact_equality_def)
  then show ?thesis by (simp add: weak_sound_def agree_on_def)
qed

definition example_shared :: "rows \<Rightarrow> shared_db" where
  "example_shared r = \<lparr>topRoot = [], shared_disk = [], shared_head = emptyRevision, shared_subjective = [r, [], [], []]\<rparr>"

definition example_session :: database where
  "example_session = (new_database emptyRevision)\<lparr>writeSession := True, writeRevisions := [emptyRevision]\<rparr>"

definition example_tx :: "nat tx" where
  "example_tx =
     Tx_Call (Call_Max beginIndependent [1]) (\<lambda>reply.
       (case reply of
          Reply_Row (Some (key, v)) \<Rightarrow>
            Tx_Call Call_Checkout (\<lambda>_. Tx_Call (Call_Put beginIndependent key (map (\<lambda>b. b + 1) v)) (\<lambda>_.
              Tx_Call Call_Commit (\<lambda>_. Tx_Return (length v))))
        | _ \<Rightarrow> Tx_Return 0))"

definition example_sockets :: sockets where
  "example_sockets = \<lparr>socket_heap = [], socket_table = [], socket_available = [], socket_stopped = False\<rparr>"

definition result_value :: "'a result \<Rightarrow> 'a" where
  "result_value r = (case r of Ok x \<Rightarrow> x | Err _ \<Rightarrow> undefined)"

definition example_done :: "nat \<times> database" where
  "example_done = result_value (bind_result (checkoutSubjective (example_shared [([1, 5], [7])]) example_session)
     (run_tx (example_shared [([1, 5], [7])]) example_tx))"

definition example_commit :: subjective_commit where
  "example_commit = result_value (commitSubjective exact_equality False [] example_sockets
     (example_shared [([0], [9]), ([1, 5], [7])]) (snd example_done))"


end
