(* ===== verification/Subjective_Abort.thy ===== *)
theory Subjective_Abort
  imports Subjective_Tx
begin

text \<open>
  Aborting a nested subjective transaction: what \<open>abortSubjective\<close> takes back, and what it forgets.
\<close>

section \<open>Transactions above a given depth\<close>

text \<open>The calls of a transaction never leave fewer than \<open>n\<close> copies on the stack.\<close>

primrec stays_deep :: "shared_db \<Rightarrow> nat \<Rightarrow> 'a tx \<Rightarrow> database \<Rightarrow> bool" where
  "stays_deep sh n (Tx_Return x) d \<longleftrightarrow> True"
| "stays_deep sh n (Tx_Call c f) d \<longleftrightarrow>
     (case run_call sh d c of
        Ok (r, d') \<Rightarrow> n \<le> length (subjectiveRevisions d') \<and> stays_deep sh n (f r) d'
      | Err _ \<Rightarrow> True)"

definition positions :: "subjective_revision \<Rightarrow> nat list \<times> nat" where
  "positions s = (changeSetPos s, socketChangePos s)"

inductive stack_step :: "subjective_revision list \<Rightarrow> subjective_revision list \<Rightarrow> bool" where
  stack_change: "positions t = positions s \<Longrightarrow> stack_step (s # ss) (t # ss)"
| stack_push: "stack_step ss (s # ss)"
| stack_pop: "positions q = positions p \<Longrightarrow> stack_step (s # p # ss) (q # ss)"

definition stack_over :: "subjective_revision \<Rightarrow> subjective_revision list \<Rightarrow> subjective_revision list \<Rightarrow> bool" where
  "stack_over s rest ss \<longleftrightarrow> (\<exists>pre t. ss = pre @ t # rest \<and> positions t = positions s)"

lemma stack_over_step:
  assumes over: "stack_over s rest ss" and step: "stack_step ss ts" and deep: "length rest < length ts"
  shows "stack_over s rest ts"
proof -
  obtain pre t where ss: "ss = pre @ t # rest" "positions t = positions s" using over by (auto simp: stack_over_def)
  from step show ?thesis
  proof cases
    case (stack_change u v us)
    show ?thesis
    proof (cases pre)
      case Nil
      then show ?thesis using ss stack_change unfolding stack_over_def by (intro exI [of _ "[]"] exI [of _ u]) simp
    next
      case (Cons x xs)
      then show ?thesis using ss stack_change unfolding stack_over_def by (intro exI [of _ "u # xs"] exI [of _ t]) simp
    qed
  next
    case (stack_push u)
    then show ?thesis using ss unfolding stack_over_def by (intro exI [of _ "u # pre"] exI [of _ t]) simp
  next
    case (stack_pop q p u us)
    show ?thesis
    proof (cases pre rule: remdups_adj.cases)
      case 1
      then show ?thesis using ss stack_pop deep by auto
    next
      case (2 x)
      then show ?thesis using ss stack_pop unfolding stack_over_def by (intro exI [of _ "[]"] exI [of _ q]) simp
    next
      case (3 x y xs)
      then show ?thesis using ss stack_pop unfolding stack_over_def by (intro exI [of _ "q # xs"] exI [of _ t]) simp
    qed
  qed
qed

text \<open>The parts of a session that the calls of a transaction do not reach.\<close>

definition session_frame :: "database \<Rightarrow> database \<Rightarrow> bool" where
  "session_frame d d' \<longleftrightarrow> baseRevision d' = baseRevision d \<and> writeSession d' = writeSession d \<and>
     readSession d' = readSession d \<and> readOnlyRevision d' = readOnlyRevision d \<and> temporaryDb d' = temporaryDb d \<and>
     socketChanges d' = socketChanges d \<and> subjectiveLimit d' = subjectiveLimit d \<and> callbackFlags d' = callbackFlags d \<and>
     list_all2 prefix (subjectiveChanges d) (subjectiveChanges d')"

lemma prefix_access:
  "prefix cs (onRead key cs)" "prefix cs (onGreaterEqual key n f cs)" "prefix cs (onLessThan key n f cs)"
  "prefix cs (onMax key f cs)" "prefix cs (onWrite key cs)"
  by (simp_all add: onRead_def onGreaterEqual_def onLessThan_def onMax_def onWrite_def split: option.splits)

lemma prefix_refl_all: "list_all2 prefix cs cs"
  by (simp add: list_all2_refl)

lemma log_frame:
  assumes "\<And>cs. prefix cs (f cs)"
  shows "session_frame d (log_access db f d)"
proof -
  have "list_all2 prefix cs (cs[i := f (cs ! i)])" for cs :: "change_set list" and i
    using assms by (cases "i < length cs") (auto simp: list_all2_conv_all_nth nth_list_update prefix_refl_all)
  then show ?thesis by (simp add: session_frame_def log_access_def prefix_refl_all)
qed

lemma assign_frame: "subjectiveRevisions d \<noteq> [] \<Longrightarrow> session_frame d (assign_root db r d)"
  by (simp add: session_frame_def assign_root_def set_top_subjective_def prefix_refl_all)

lemma session_frame_trans: "session_frame a b \<Longrightarrow> session_frame b c \<Longrightarrow> session_frame a c"
  using list_all2_trans [of prefix prefix prefix "subjectiveChanges a" "subjectiveChanges b" "subjectiveChanges c"]
    prefix_order.trans by (auto simp: session_frame_def)

lemma assign_step:
  "subjectiveRevisions d \<noteq> [] \<Longrightarrow> stack_step (subjectiveRevisions d) (subjectiveRevisions (assign_root db r d))"
  by (cases "subjectiveRevisions d")
    (auto simp: assign_root_def set_top_subjective_def positions_def intro: stack_change)

lemma same_step: "ss \<noteq> [] \<Longrightarrow> stack_step ss ss"
  by (cases ss) (auto intro: stack_change)

definition call_effect :: "database \<Rightarrow> database \<Rightarrow> bool" where
  "call_effect d d' \<longleftrightarrow> session_frame d d' \<and> stack_step (subjectiveRevisions d) (subjectiveRevisions d')"

lemma read_effect:
  assumes "subjectiveRevisions d \<noteq> []" "read_access look rec db d = Ok (x, d')" "\<And>y cs. prefix cs (rec y cs)"
  shows "call_effect d d'"
  using assms log_frame [of "rec x" d db] same_step by (auto simp: read_access_def result_simps call_effect_def)

lemma write_effect:
  assumes "subjectiveRevisions d \<noteq> []" "write_access upd db key d = Ok d'"
  shows "call_effect d d'"
proof -
  obtain r where d': "d' = assign_root db r (log_access db (onWrite key) d)"
    using assms(2) by (auto simp: write_access_def result_simps)
  show ?thesis
    unfolding d' call_effect_def
    using assms(1) assign_step [of "log_access db (onWrite key) d" db r]
      session_frame_trans [OF log_frame [OF prefix_access(5)] assign_frame] by simp
qed

lemma call_effect:
  assumes tx: "tx_state d" and run: "run_call sh d c = Ok (r, d')"
  shows "call_effect d d'"
proof -
  have some: "subjectiveRevisions d \<noteq> []" using tx by (auto simp: tx_state_def)
  show ?thesis
  proof (cases c)
    case (Call_Greater_Equal db key n)
    then obtain x where x: "kvGreaterEqualRaw db key n d = Ok (x, d')" using run by (auto simp: result_simps)
    then have "n \<le> length key" by (simp add: kvGreaterEqualRaw_def split: if_splits)
    with x show ?thesis by (auto simp: kvGreaterEqualRaw_access intro: read_effect [OF some] prefix_access)
  next
    case (Call_Less_Than db key n)
    then obtain x where x: "kvLessThanRaw db key n d = Ok (x, d')" using run by (auto simp: result_simps)
    then have "n \<le> length key" by (simp add: kvLessThanRaw_def split: if_splits)
    with x show ?thesis by (auto simp: kvLessThanRaw_access intro: read_effect [OF some] prefix_access)
  next
    case Call_Checkout
    then show ?thesis
      using run by (auto simp: result_simps checkout_nested [OF tx] call_effect_def session_frame_def prefix_refl_all
          intro: stack_push split: if_splits)
  next
    case Call_Commit
    then show ?thesis
      using run by (auto simp: result_simps commit_nested_eq [OF tx] call_effect_def session_frame_def prefix_refl_all positions_def
          intro!: stack_pop split: if_splits list.splits)
  qed (use run in \<open>auto simp: result_simps access_forms intro: read_effect [OF some] write_effect [OF some] prefix_access\<close>)
qed

lemma run_above:
  "tx_state d \<Longrightarrow> run_tx sh t d = Ok (x, d') \<Longrightarrow> stays_deep sh (Suc (length rest)) t d \<Longrightarrow>
   stack_over s rest (subjectiveRevisions d) \<Longrightarrow> session_frame d d' \<and> stack_over s rest (subjectiveRevisions d')"
proof (induction t arbitrary: d)
  case (Tx_Return y)
  then show ?case by (simp add: session_frame_def prefix_refl_all)
next
  case (Tx_Call c f)
  then obtain r e where e: "run_call sh d c = Ok (r, e)" "run_tx sh (f r) e = Ok (x, d')" by (auto simp: result_simps)
  have effect: "call_effect d e" by (rule call_effect [OF Tx_Call.prems(1) e(1)])
  have deep: "length rest < length (subjectiveRevisions e)" "stays_deep sh (Suc (length rest)) (f r) e"
    using Tx_Call.prems(3) e(1) by simp_all
  have "stack_over s rest (subjectiveRevisions e)"
    using effect stack_over_step [OF Tx_Call.prems(4) _ deep(1)] by (simp add: call_effect_def)
  moreover have "tx_state e" using call_advances [OF Tx_Call.prems(1) e(1)] by (simp add: advances_def)
  ultimately have "session_frame e d' \<and> stack_over s rest (subjectiveRevisions d')"
    using Tx_Call.IH [OF rangeI] e(2) deep(2) by blast
  then show ?case using effect session_frame_trans by (auto simp: call_effect_def)
qed

lemma take_prefixes: "list_all2 prefix cs ds \<Longrightarrow> map2 take (getChangeSetPos cs) ds = cs"
  by (induction cs ds rule: list_all2_induct) (auto simp: getChangeSetPos_def prefix_def)

text \<open>
  C17. Aborting a nested subjective transaction takes back everything it did to the subjective databases and
  the temporary one, at every depth: after any calls on top of the checkout, including further nested
  transactions that were committed, \<open>abortSubjective\<close> returns the session to the state it had before the
  checkout. Only the writes to the databases of the chain stay.
\<close>

theorem abort_restores_session:
  assumes "tx_state d" "checkoutSubjective sh d = Ok d1" "run_tx sh t d1 = Ok (x, d2)"
    "stays_deep sh (length (subjectiveRevisions d1)) t d1" "length (subjectiveRevisions d2) = length (subjectiveRevisions d1)"
    "subjectiveLimit d \<le> length (subjectiveRevisions d)"
  shows "abortSubjective d2 = Ok (d\<lparr>writeRevisions := writeRevisions d2\<rparr>)"
proof -
  define s where "s = hd (subjectiveRevisions d1)"
  have d1: "subjectiveRevisions d1 = s # subjectiveRevisions d" "session_frame d d1" "tx_state d1"
    "positions s = (getChangeSetPos (subjectiveChanges d), length (socketChanges d))"
    using assms(2) checkout_advances [OF assms(1,2)]
    by (auto simp: checkout_nested [OF assms(1)] s_def session_frame_def prefix_refl_all positions_def advances_def split: if_splits)
  have "stack_over s (subjectiveRevisions d) (subjectiveRevisions d1)" using d1(1) by (auto simp: stack_over_def)
  then have d2: "session_frame d d2" "stack_over s (subjectiveRevisions d) (subjectiveRevisions d2)"
    using run_above [OF d1(3) assms(3)] assms(4) d1(1,2) session_frame_trans by auto
  then obtain u where u: "subjectiveRevisions d2 = u # subjectiveRevisions d" "positions u = positions s"
    using assms(5) d1(1) by (auto simp: stack_over_def)
  have deep: "2 < length (subjectiveRevisions d2)" "subjectiveLimit d2 < length (subjectiveRevisions d2)"
    using assms(1,6) d2(1) u(1) by (auto simp: tx_state_def session_frame_def)
  have changes: "map2 take (changeSetPos u) (subjectiveChanges d2) = subjectiveChanges d" "take (socketChangePos u) (socketChanges d2) = socketChanges d"
    using d2(1) u(2) d1(4) take_prefixes by (auto simp: session_frame_def positions_def)
  have "(resize_changes u d2)\<lparr>subjectiveRevisions := subjectiveRevisions d\<rparr> = d\<lparr>writeRevisions := writeRevisions d2\<rparr>"
    using d2(1) changes by (intro database.equality) (simp_all add: resize_changes_def session_frame_def)
  then show ?thesis using deep u(1) by (simp add: abortSubjective_def check_def)
qed

definition abort_example :: "nat tx" where
  "abort_example =
     Tx_Call (Call_Put beginIndependent [2] [3]) (\<lambda>_. Tx_Call Call_Checkout (\<lambda>_.
       Tx_Call (Call_Put beginIndependent [4] [5]) (\<lambda>_. Tx_Call Call_Commit (\<lambda>_. Tx_Return 0))))"

theorem abort_restores_session_witness:
  "let sh = example_shared [([1, 5], [7])];
       d = result_value (checkoutSubjective sh example_session);
       d1 = result_value (checkoutSubjective sh d);
       d2 = snd (result_value (run_tx sh abort_example d1))
   in top_db d2 \<noteq> top_db d \<and> abortSubjective d2 = Ok (d\<lparr>writeRevisions := writeRevisions d2\<rparr>)"
proof -
  define sh where "sh = example_shared [([1, 5], [7])]"
  define d where "d = result_value (checkoutSubjective sh example_session)"
  define d1 where "d1 = result_value (checkoutSubjective sh d)"
  define d2 where "d2 = snd (result_value (run_tx sh abort_example d1))"
  note defs = d2_def d1_def d_def sh_def
  have "tx_state d" unfolding defs by code_simp
  moreover have "checkoutSubjective sh d = Ok d1" unfolding defs by code_simp
  moreover have "run_tx sh abort_example d1 = Ok (0, d2)" unfolding defs by code_simp
  moreover have "stays_deep sh (length (subjectiveRevisions d1)) abort_example d1" unfolding defs by code_simp
  moreover have "length (subjectiveRevisions d2) = length (subjectiveRevisions d1)" unfolding defs by code_simp
  moreover have "subjectiveLimit d \<le> length (subjectiveRevisions d)" unfolding defs by code_simp
  ultimately have "abortSubjective d2 = Ok (d\<lparr>writeRevisions := writeRevisions d2\<rparr>)" by (rule abort_restores_session)
  moreover have "top_db d2 \<noteq> top_db d" unfolding defs by code_simp
  ultimately show ?thesis by (simp add: Let_def defs)
qed

section \<open>Reads that are forgotten\<close>


end
