(* ===== verification/Revisions.thy ===== *)
theory Revisions
  imports Subjective_Abort
begin

text \<open>
  The revisions that are stored in the database: which ones \<open>removeRevisions\<close> removes, and that everything but
  the session databases survives a restart of the node.
\<close>

section \<open>Keys of revisions\<close>

lemma take_mono: "(a :: bytes) \<le> b \<Longrightarrow> take n a \<le> take n b"
proof (induction a arbitrary: b n)
  case (Cons x a)
  then obtain y b' where b: "b = y # b'" by (cases b) auto
  show ?case using Cons by (cases n) (auto simp: b)
qed simp

lemma memcmp_pos: "length a = length b \<Longrightarrow> memcmp a b > 0 \<longleftrightarrow> b < a"
  by (induction a b rule: list_induct2) auto

definition low_revision :: "block_id \<Rightarrow> bytes \<Rightarrow> bool" where
  "low_revision irreversible key \<longleftrightarrow> is_revision_key irreversible key \<and> take 4 (tl key) \<le> take 4 irreversible"

text \<open>The keys between those of the head and of the subjective databases are those of revisions.\<close>

definition revision_keys :: "block_id \<Rightarrow> (bytes, rows list) ordered_map \<Rightarrow> bool" where
  "revision_keys irreversible troot \<longleftrightarrow> ordered troot \<and> length irreversible = 32 \<and>
     (\<forall>key \<in> dom (map_of troot). [1] \<le> key \<longrightarrow> key < [2] \<longrightarrow> length key = 33)"

lemma revision_key_bounds: "length irreversible = 32 \<Longrightarrow> is_revision_key irreversible key \<Longrightarrow> [1] \<le> key \<and> key < [2]"
  by (cases key) (auto simp: is_revision_key_def revisionByIdPrefix_def)

lemma key_bounds_head: "[1] \<le> key \<Longrightarrow> key < [2] \<Longrightarrow> hd key = (1 :: u8) \<and> key \<noteq> []"
proof -
  have "x = 1" if "1 \<le> x" "x < 2" for x :: u8 using that by (simp add: word_le_nat_alt word_less_nat_alt word_unat_eq_iff)
  then show "[1] \<le> key \<Longrightarrow> key < [2] \<Longrightarrow> hd key = (1 :: u8) \<and> key \<noteq> []"
    by (cases key) (auto dest: order.strict_implies_order)
qed

lemma revision_key_iff:
  assumes "revision_keys irreversible troot" "key \<in> dom (map_of troot)" "[1] \<le> key"
  shows "is_revision_key irreversible key \<longleftrightarrow> key < [2]"
proof
  assume "key < [2]"
  then show "is_revision_key irreversible key"
    using assms key_bounds_head [of key] by (auto simp: revision_keys_def is_revision_key_def revisionByIdPrefix_def)
qed (use assms revision_key_bounds in \<open>auto simp: revision_keys_def\<close>)

lemma tl_mono:
  assumes "is_revision_key irreversible a" "is_revision_key irreversible b"
  shows "a \<le> b \<longleftrightarrow> tl a \<le> tl b"
  using assms by (cases a; cases b) (auto simp: is_revision_key_def)

lemma low_downward:
  assumes "is_revision_key irreversible a" "a \<le> b" "low_revision irreversible b"
  shows "low_revision irreversible a"
  using assms tl_mono [of irreversible a b] take_mono [of "tl a" "tl b" 4] order_trans by (auto simp: low_revision_def)

lemma low_iff:
  assumes "length irreversible = 32" "is_revision_key irreversible key"
  shows "low_revision irreversible key \<longleftrightarrow> \<not> memcmp (take 4 (tl key)) (take 4 irreversible) > 0"
proof -
  have "length (take 4 (tl key)) = length (take 4 irreversible)" using assms by (simp add: is_revision_key_def)
  from memcmp_pos [OF this] show ?thesis using assms(2) by (auto simp: low_revision_def)
qed

lemma revision_keys_erase: "revision_keys i troot \<Longrightarrow> revision_keys i (map_erase k troot)"
  by (auto simp: revision_keys_def omap)

section \<open>The first loop\<close>

definition drops_old :: "(block_id \<Rightarrow> bool) \<Rightarrow> block_id \<Rightarrow> bytes \<Rightarrow> bool" where
  "drops_old is_snapshot irreversible k \<longleftrightarrow>
     low_revision irreversible k \<and> tl k \<noteq> irreversible \<and> \<not> is_snapshot (tl k)"

lemma low_irreversible: "low_revision irreversible (revisionById irreversible)"
  by (simp add: low_revision_def is_revision_key_def revisionById_def)

text \<open>Where the first loop stops, no revision with a number up to that of the irreversible block is left.\<close>

lemma no_low_after:
  assumes "revision_keys irreversible troot" "[1] \<le> k" "map_of troot k \<noteq> None" "\<not> low_revision irreversible k" "k \<le> b"
  shows "\<not> low_revision irreversible b"
proof
  assume low: "low_revision irreversible b"
  show False
  proof (cases "is_revision_key irreversible k")
    case True
    then show False using low_downward [OF True assms(5) low] assms(4) by simp
  next
    case False
    then have "\<not> k < [2]" using revision_key_iff [OF assms(1) _ assms(2)] assms(3) by auto
    moreover have "b < [2]" using low revision_key_bounds [of irreversible b] assms(1) by (simp add: low_revision_def revision_keys_def)
    ultimately show False using assms(5) by simp
  qed
qed

definition old_removed ::
  "(block_id \<Rightarrow> bool) \<Rightarrow> block_id \<Rightarrow> bytes \<Rightarrow> bool \<Rightarrow> (bytes, rows list) ordered_map \<Rightarrow>
     bytes \<times> bool \<times> (bytes, rows list) ordered_map \<Rightarrow> bool" where
  "old_removed is_snapshot irreversible key h troot = (\<lambda>(key', h', troot').
     (\<forall>k. map_of troot' k = (if key \<le> k \<and> drops_old is_snapshot irreversible k then None else map_of troot k)) \<and>
     revision_keys irreversible troot' \<and>
     h' = (h \<or> key \<le> revisionById irreversible \<and> map_of troot (revisionById irreversible) \<noteq> None) \<and>
     key \<le> key' \<and> (\<forall>k. key \<le> k \<longrightarrow> map_of troot k \<noteq> None \<longrightarrow> (low_revision irreversible k \<longleftrightarrow> k < key')))"

lemma old_removed_stop:
  assumes "revision_keys irreversible troot" "key \<le> k"
    "\<And>b. key \<le> b \<Longrightarrow> map_of troot b \<noteq> None \<Longrightarrow> \<not> low_revision irreversible b \<and> k \<le> b"
  shows "old_removed is_snapshot irreversible key h troot (k, h, troot)"
  using assms low_irreversible [of irreversible]
  by (fastforce simp: old_removed_def drops_old_def not_less)

lemma old_removed_step:
  assumes removed: "old_removed is_snapshot irreversible (k @ [0]) h' troot' r"
    and k: "key \<le> k" "map_of troot k \<noteq> None" "low_revision irreversible k"
    and least: "\<And>b. key \<le> b \<Longrightarrow> b < k \<Longrightarrow> map_of troot b = None"
    and troot': "\<And>b. map_of troot' b = (if b = k \<and> drops_old is_snapshot irreversible k then None else map_of troot b)"
    and h': "h' = (h \<or> k = revisionById irreversible)"
  shows "old_removed is_snapshot irreversible key h troot r"
proof -
  obtain key' f troot'' where r: "r = (key', f, troot'')" by (cases r)
  have after: "k @ [0] \<le> b \<longleftrightarrow> k < b" for b using keyNext_le [of k b] by (simp add: keyNext_def)
  have split: "b = k \<or> k < b" if "key \<le> b" "map_of troot b \<noteq> None" for b
    using that least [of b] by (cases b k rule: linorder_cases) auto
  have rest: "\<forall>b. map_of troot'' b = (if k < b \<and> drops_old is_snapshot irreversible b then None else map_of troot' b)"
    "revision_keys irreversible troot''"
    "f = (h' \<or> k < revisionById irreversible \<and> map_of troot' (revisionById irreversible) \<noteq> None)"
    "k < key'" "\<forall>b. k < b \<longrightarrow> map_of troot' b \<noteq> None \<longrightarrow> (low_revision irreversible b \<longleftrightarrow> b < key')"
    using removed by (simp_all add: old_removed_def r after)
  have "map_of troot'' b = (if key \<le> b \<and> drops_old is_snapshot irreversible b then None else map_of troot b)" for b
    using rest(1) troot' [of b] split [of b] k(1) by (cases "map_of troot b = None") auto
  moreover have "low_revision irreversible b \<longleftrightarrow> b < key'" if "key \<le> b" "map_of troot b \<noteq> None" for b
    using split [OF that]
  proof
    assume "k < b"
    then have "b \<noteq> k" by auto
    then have "map_of troot' b \<noteq> None" using troot' [of b] that(2) by simp
    then show ?thesis using \<open>k < b\<close> rest(5) by blast
  qed (use k(3) rest(4) in simp)
  moreover have "f = (h \<or> key \<le> revisionById irreversible \<and> map_of troot (revisionById irreversible) \<noteq> None)"
    using rest(3) h' k split [of "revisionById irreversible"] troot' [of "revisionById irreversible"] by auto
  ultimately show ?thesis using rest(2,4) k(1) by (simp add: old_removed_def r)
qed

lemma remove_old_exact:
  "revision_keys irreversible troot \<Longrightarrow> [1] \<le> key \<Longrightarrow>
   old_removed is_snapshot irreversible key h troot (remove_old is_snapshot irreversible key h troot)"
proof (induction is_snapshot irreversible key h troot rule: remove_old.induct)
  case (1 is_snapshot irreversible key h troot)
  have ordered: "ordered troot" and len: "length irreversible = 32" using 1(3) by (auto simp: revision_keys_def)
  show ?case
  proof (cases "find (\<lambda>p. key \<le> fst p) troot")
    case None
    then show ?thesis
      using old_removed_stop [OF 1(3), of key key] find_none_keys [of "(\<le>) key" troot] by (simp add: remove_old.simps [of _ _ key])
  next
    case (Some p)
    obtain k v where p: "p = (k, v)" by force
    have k: "map_of troot k \<noteq> None" "key \<le> k" and least: "\<And>b. key \<le> b \<Longrightarrow> b < k \<Longrightarrow> map_of troot b = None"
      using Some ordered_find_ge [OF ordered, of key k v] by (auto simp: p)
    have k1: "[1] \<le> k" using 1(4) k(2) by (rule order_trans)
    have k2: "[1] \<le> k @ [0]" using k1 by (rule order_trans) (simp add: prefix_le)
    define stop where "stop \<longleftrightarrow> \<not> is_revision_key irreversible k \<or> memcmp (take 4 (tl k)) (take 4 irreversible) > 0"
    have stop: "stop \<longleftrightarrow> \<not> low_revision irreversible k" using low_iff [OF len] by (auto simp: stop_def low_revision_def)
    define troot2 where "troot2 = (if is_snapshot (tl k) then troot else map_erase k troot)"
    have step: "remove_old is_snapshot irreversible key h troot =
      (if stop then (k, h, troot) else if tl k = irreversible then remove_old is_snapshot irreversible (k @ [0]) True troot
       else remove_old is_snapshot irreversible (k @ [0]) h troot2)"
      by (simp add: remove_old.simps [of _ _ key] Some p Let_def stop_def troot2_def)
    have keys2: "revision_keys irreversible troot2" using 1(3) by (simp add: troot2_def revision_keys_erase)
    have IH: "\<not> stop \<Longrightarrow> tl k = irreversible \<Longrightarrow>
        old_removed is_snapshot irreversible (k @ [0]) True troot (remove_old is_snapshot irreversible (k @ [0]) True troot)"
      "\<not> stop \<Longrightarrow> tl k \<noteq> irreversible \<Longrightarrow>
        old_removed is_snapshot irreversible (k @ [0]) h troot2 (remove_old is_snapshot irreversible (k @ [0]) h troot2)"
      using 1(1) [OF Some refl refl] 1(2) [OF Some refl refl, unfolded p fst_conv] 1(3) k2 keys2
      unfolding stop_def troot2_def p by simp_all
    have name: "k = revisionById irreversible \<longleftrightarrow> tl k = irreversible" if "\<not> stop"
      using that by (cases k) (auto simp: stop_def is_revision_key_def revisionById_def)
    show ?thesis
    proof (cases stop)
      case True
      have "\<not> low_revision irreversible b \<and> k \<le> b" if "key \<le> b" "map_of troot b \<noteq> None" for b
      proof -
        have "k \<le> b" using least [OF that(1)] that(2) by (rule_tac ccontr) (simp add: not_le)
        then show ?thesis using no_low_after [OF 1(3) k1 k(1)] stop True by blast
      qed
      then show ?thesis unfolding step using True old_removed_stop [OF 1(3) k(2)] by simp
    next
      case False
      then have low: "low_revision irreversible k" using stop by simp
      show ?thesis
      proof (cases "tl k = irreversible")
        case True
        have "old_removed is_snapshot irreversible key h troot (remove_old is_snapshot irreversible (k @ [0]) True troot)"
          using True name [OF False] by (intro old_removed_step [OF IH(1) [OF False True] k(2,1) low least]) (auto simp: drops_old_def)
        then show ?thesis unfolding step using False True by simp
      next
        case other: False
        have "old_removed is_snapshot irreversible key h troot (remove_old is_snapshot irreversible (k @ [0]) h troot2)"
          using other name [OF False] low
          by (intro old_removed_step [OF IH(2) [OF False other] k(2,1) low least]) (auto simp: drops_old_def troot2_def omap)
        then show ?thesis unfolding step using False other by simp
      qed
    qed
  qed
qed

section \<open>The second loop\<close>

definition parent_of :: "bytes \<Rightarrow> (bytes \<Rightarrow> block_id option) \<Rightarrow> revision \<Rightarrow> block_id option" where
  "parent_of statusKey head_previous rv = Option.bind (kv_get (rv ! unat db_native) statusKey) head_previous"

text \<open>The key of a block sorts after the one of its parent, because it starts with the block's number.\<close>

definition parents_first :: "bytes \<Rightarrow> (bytes \<Rightarrow> block_id option) \<Rightarrow> block_id \<Rightarrow> (bytes, rows list) ordered_map \<Rightarrow> bool" where
  "parents_first statusKey head_previous irreversible troot \<longleftrightarrow>
     (\<forall>k rv prv. is_revision_key irreversible k \<longrightarrow> map_of troot k = Some rv \<longrightarrow>
        parent_of statusKey head_previous rv = Some prv \<longrightarrow> revisionById prv < k)"

definition orphans_removed ::
  "bytes \<Rightarrow> (bytes \<Rightarrow> block_id option) \<Rightarrow> block_id \<Rightarrow> bytes \<Rightarrow> (bytes, rows list) ordered_map \<Rightarrow>
     (bytes, rows list) ordered_map \<Rightarrow> bool" where
  "orphans_removed statusKey head_previous irreversible key troot troot' \<longleftrightarrow>
     ordered troot' \<and>
     (\<forall>k. map_of troot k = None \<or> k < key \<or> \<not> is_revision_key irreversible k \<longrightarrow> map_of troot' k = map_of troot k) \<and>
     (\<forall>k rv. key \<le> k \<longrightarrow> is_revision_key irreversible k \<longrightarrow> map_of troot k = Some rv \<longrightarrow>
        (\<exists>prv. parent_of statusKey head_previous rv = Some prv \<and>
           map_of troot' k = (if map_of troot' (revisionById prv) = None then None else Some rv)))"

lemma orphans_removed_step:
  assumes removed: "orphans_removed statusKey head_previous irreversible (k @ [0]) troot2 troot'"
    and k: "key \<le> k" "map_of troot k = Some rv" "is_revision_key irreversible k"
    and least: "\<And>b. key \<le> b \<Longrightarrow> b < k \<Longrightarrow> map_of troot b = None"
    and prv: "parent_of statusKey head_previous rv = Some prv" "revisionById prv < k"
    and troot2: "\<And>b. map_of troot2 b = (if b = k \<and> map_of troot (revisionById prv) = None then None else map_of troot b)"
  shows "orphans_removed statusKey head_previous irreversible key troot troot'"
proof -
  have after: "k @ [0] \<le> b \<longleftrightarrow> k < b" for b using keyNext_le [of k b] by (simp add: keyNext_def)
  have rest: "ordered troot'"
    "\<And>b. map_of troot2 b = None \<or> b \<le> k \<or> \<not> is_revision_key irreversible b \<Longrightarrow> map_of troot' b = map_of troot2 b"
    "\<And>b r. k < b \<Longrightarrow> is_revision_key irreversible b \<Longrightarrow> map_of troot2 b = Some r \<Longrightarrow>
      \<exists>prv. parent_of statusKey head_previous r = Some prv \<and> map_of troot' b = (if map_of troot' (revisionById prv) = None then None else Some r)"
    using removed by (auto simp: orphans_removed_def after not_le [symmetric])
  have "revisionById prv \<noteq> k" "revisionById prv \<le> k" using prv(2) by auto
  then have "map_of troot' (revisionById prv) = map_of troot (revisionById prv)"
    using rest(2) [of "revisionById prv"] troot2 [of "revisionById prv"] by simp
  then have at_k: "map_of troot' k = (if map_of troot' (revisionById prv) = None then None else Some rv)"
    using rest(2) [of k] troot2 [of k] k(2) by simp
  have "map_of troot' b = map_of troot b" if "map_of troot b = None \<or> b < key \<or> \<not> is_revision_key irreversible b" for b
  proof -
    have "map_of troot2 b = None \<or> b \<le> k \<or> \<not> is_revision_key irreversible b" using that troot2 [of b] k(1) by auto
    moreover have "b \<noteq> k" using that k by auto
    ultimately show ?thesis using rest(2) [of b] troot2 [of b] by simp
  qed
  moreover have "\<exists>prv. parent_of statusKey head_previous r = Some prv \<and> map_of troot' b = (if map_of troot' (revisionById prv) = None then None else Some r)"
    if b: "key \<le> b" "is_revision_key irreversible b" "map_of troot b = Some r" for b r
  proof (cases b k rule: linorder_cases)
    case less
    then show ?thesis using least [OF b(1)] b(3) by simp
  next
    case equal
    then show ?thesis using b(3) k(2) prv(1) at_k by simp
  next
    case greater
    then have "b \<noteq> k" by auto
    then have "map_of troot2 b = Some r" using troot2 [of b] b(3) by simp
    then show ?thesis by (rule rest(3) [OF greater b(2)])
  qed
  ultimately show ?thesis using rest(1) by (simp add: orphans_removed_def)
qed

lemma remove_orphans_exact:
  "revision_keys irreversible troot \<Longrightarrow> [1] \<le> key \<Longrightarrow> parents_first statusKey head_previous irreversible troot \<Longrightarrow>
   remove_orphans statusKey head_previous irreversible key troot = Ok troot' \<Longrightarrow>
   orphans_removed statusKey head_previous irreversible key troot troot'"
proof (induction statusKey head_previous irreversible key troot rule: remove_orphans.induct)
  case (1 statusKey head_previous irreversible key troot)
  have ordered: "ordered troot" and len: "length irreversible = 32" using 1(2) by (auto simp: revision_keys_def)
  show ?case
  proof (cases "find (\<lambda>p. key \<le> fst p) troot")
    case None
    then have "map_of troot b = None" if "key \<le> b" for b using that find_none_keys [of "(\<le>) key" troot] by simp
    then show ?thesis using 1(5) None ordered by (auto simp: remove_orphans.simps [of _ _ _ key] orphans_removed_def)
  next
    case (Some p)
    obtain k rv where p: "p = (k, rv)" by force
    have k: "map_of troot k = Some rv" "key \<le> k" and least: "\<And>b. key \<le> b \<Longrightarrow> b < k \<Longrightarrow> map_of troot b = None"
      using Some ordered_find_ge [OF ordered, of key k rv] by (auto simp: p)
    have k1: "[1] \<le> k" using 1(3) k(2) by (rule order_trans)
    have k2: "[1] \<le> k @ [0]" using k1 by (rule order_trans) (simp add: prefix_le)
    show ?thesis
    proof (cases "is_revision_key irreversible k")
      case False
      then have "[2] \<le> k" using revision_key_iff [OF 1(2) _ k1] k(1) by (auto simp: not_less)
      then have "\<not> is_revision_key irreversible b" if "key \<le> b" "map_of troot b \<noteq> None" for b
        using that least [of b] revision_key_bounds [OF len, of b] by (cases "b < k") auto
      then show ?thesis
        using 1(5) Some p False ordered by (fastforce simp: remove_orphans.simps [of _ _ _ key] orphans_removed_def)
    next
      case True
      obtain status prv where status: "length rv = numChainDatabases" "kv_get (rv ! unat db_native) statusKey = Some status"
        "head_previous status = Some prv"
        and run: "remove_orphans statusKey head_previous irreversible (k @ [0])
            (if map_of troot (revisionById prv) = None then map_erase k troot else troot) = Ok troot'"
        using 1(5) Some p True by (auto simp: remove_orphans.simps [of _ _ _ key] split: if_splits option.splits)
      define troot2 where "troot2 = (if map_of troot (revisionById prv) = None then map_erase k troot else troot)"
      have prv: "parent_of statusKey head_previous rv = Some prv" using status by (simp add: parent_of_def)
      then have before: "revisionById prv < k" using 1(4) True k(1) by (auto simp: parents_first_def)
      have "parents_first statusKey head_previous irreversible troot2" "revision_keys irreversible troot2"
        using 1(2,4) revision_keys_erase by (auto simp: troot2_def parents_first_def omap)
      then have rest: "orphans_removed statusKey head_previous irreversible (k @ [0]) troot2 troot'"
        using 1(1) [OF Some, of status prv, unfolded p fst_conv snd_conv] True status k2 run unfolding troot2_def by simp
      show ?thesis
        by (rule orphans_removed_step [OF rest k(2,1) True least prv before]) (auto simp: troot2_def omap)
    qed
  qed
qed

text \<open>
  C7. What \<open>removeRevisions\<close> leaves. Up to the number of the irreversible block only that block and the saved
  snapshots keep their revisions; a later block keeps its revision if and only if its parent does, so every
  fork that does not descend from a block that is kept disappears as a whole. The head, the subjective
  databases and every other entry are as before.
\<close>

theorem removeRevisions_exact:
  assumes "removeRevisions snapshotKey statusKey head_previous irreversible sh = Ok sh'"
    "revision_keys irreversible (topRoot sh)" "parents_first statusKey head_previous irreversible (topRoot sh)"
    "map_of (topRoot sh) (revisionById irreversible) \<noteq> None"
  shows "shared_head sh' = shared_head sh \<and> shared_subjective sh' = shared_subjective sh \<and> shared_disk sh' = topRoot sh' \<and>
    (\<forall>k. \<not> is_revision_key irreversible k \<longrightarrow> map_of (topRoot sh') k = map_of (topRoot sh) k) \<and>
    (\<forall>b. low_revision irreversible (revisionById b) \<longrightarrow>
       map_of (topRoot sh') (revisionById b) =
         (if b = irreversible \<or> kvGetSubjective db_nativeSubjective (snapshotKey b) sh \<noteq> None
          then map_of (topRoot sh) (revisionById b) else None)) \<and>
    (\<forall>b rv. length b = 32 \<longrightarrow> \<not> low_revision irreversible (revisionById b) \<longrightarrow> map_of (topRoot sh) (revisionById b) = Some rv \<longrightarrow>
       (\<exists>prv. parent_of statusKey head_previous rv = Some prv \<and>
          map_of (topRoot sh') (revisionById b) =
            (if map_of (topRoot sh') (revisionById prv) = None then None else Some rv)))"
proof -
  define snap where "snap = (\<lambda>bid. kv_get (shared_subjective sh ! independentIndex db_nativeSubjective) (snapshotKey bid) \<noteq> None)"
  have id_key: "[1] \<le> revisionById b" for b by (simp add: revisionById_def revisionByIdPrefix_def)
  obtain key h troot where loop1: "remove_old snap irreversible [1] False (topRoot sh) = (key, h, troot)"
    using prod_cases3 by blast
  have "old_removed snap irreversible [1] False (topRoot sh) (key, h, troot)"
    using remove_old_exact [OF assms(2) order_refl, of snap False] unfolding loop1 .
  then have old: "\<And>k. map_of troot k = (if [1] \<le> k \<and> drops_old snap irreversible k then None else map_of (topRoot sh) k)"
    "revision_keys irreversible troot" "h" "[1] \<le> key"
    "\<And>k. [1] \<le> k \<Longrightarrow> map_of (topRoot sh) k \<noteq> None \<Longrightarrow> low_revision irreversible k \<longleftrightarrow> k < key"
    using assms(4) id_key [of irreversible] unfolding old_removed_def prod.case by blast+
  obtain troot' where loop2: "remove_orphans statusKey head_previous irreversible key troot = Ok troot'"
    and sh': "sh' = sh\<lparr>topRoot := troot', shared_disk := troot'\<rparr>"
    using assms(1) loop1 old(3) by (auto simp: removeRevisions_def Let_def revisionByIdPrefix_def result_simps snap_def)
  have "parents_first statusKey head_previous irreversible troot" using assms(3) old(1) by (auto simp: parents_first_def split: if_splits)
  from remove_orphans_exact [OF old(2,4) this loop2]
  have orphans: "\<And>k. map_of troot k = None \<or> k < key \<or> \<not> is_revision_key irreversible k \<Longrightarrow> map_of troot' k = map_of troot k"
    "\<And>k rv. key \<le> k \<Longrightarrow> is_revision_key irreversible k \<Longrightarrow> map_of troot k = Some rv \<Longrightarrow>
      \<exists>prv. parent_of statusKey head_previous rv = Some prv \<and> map_of troot' k = (if map_of troot' (revisionById prv) = None then None else Some rv)"
    by (auto simp: orphans_removed_def)
  have "map_of troot' k = map_of (topRoot sh) k" if "\<not> is_revision_key irreversible k" for k
    using that orphans(1) [of k] old(1) [of k] by (simp add: drops_old_def low_revision_def)
  moreover have "map_of troot' (revisionById b) =
      (if b = irreversible \<or> kvGetSubjective db_nativeSubjective (snapshotKey b) sh \<noteq> None then map_of (topRoot sh) (revisionById b) else None)"
    if low: "low_revision irreversible (revisionById b)" for b
  proof -
    have "map_of troot' (revisionById b) = map_of troot (revisionById b)"
      using orphans(1) [of "revisionById b"] old(1) [of "revisionById b"] old(5) [OF id_key, of b] low
      by (cases "map_of (topRoot sh) (revisionById b) = None") auto
    then show ?thesis using low id_key [of b] old(1) [of "revisionById b"]
      by (auto simp: drops_old_def kvGetSubjective_def revisionById_def snap_def)
  qed
  moreover have "\<exists>prv. parent_of statusKey head_previous rv = Some prv \<and>
      map_of troot' (revisionById b) = (if map_of troot' (revisionById prv) = None then None else Some rv)"
    if b: "length b = 32" "\<not> low_revision irreversible (revisionById b)" "map_of (topRoot sh) (revisionById b) = Some rv" for b rv
  proof (rule orphans(2))
    show "key \<le> revisionById b" using old(5) [OF id_key, of b] b by (simp add: not_less)
    show "is_revision_key irreversible (revisionById b)"
      using b(1) assms(2) by (simp add: is_revision_key_def revisionById_def revision_keys_def)
    show "map_of troot (revisionById b) = Some rv" using b(2,3) old(1) [of "revisionById b"] by (simp add: drops_old_def)
  qed
  ultimately show ?thesis by (simp add: sh')
qed

section \<open>Restart\<close>

text \<open>The operations that change the shared database.\<close>

inductive shared_step :: "shared_db \<Rightarrow> shared_db \<Rightarrow> bool" where
  step_head: "length rv = numChainDatabases \<Longrightarrow> shared_step sh (setHead rv sh)"
| step_revision: "shared_step sh (shared_writeRevision bid rv sh)"
| step_put: "isIndependent db \<Longrightarrow> shared_step sh (kvPutSubjective db key v sh)"
| step_remove: "isIndependent db \<Longrightarrow> shared_step sh (kvRemoveSubjective db key sh)"
| step_commit: "commitSubjective weak hasCallbacks closing socks sh d = Ok r \<Longrightarrow> shared_step sh (sc_shared r)"
| step_old: "removeRevisions snapshotKey statusKey head_previous irreversible sh = Ok sh' \<Longrightarrow> length irreversible = 32 \<Longrightarrow>
    shared_step sh sh'"

definition shared_inv :: "shared_db \<Rightarrow> bool" where
  "shared_inv sh \<longleftrightarrow> ordered (topRoot sh) \<and> shared_disk sh = topRoot sh \<and>
     length (shared_head sh) = numChainDatabases \<and> length (shared_subjective sh) = numIndependentDatabases \<and>
     (case map_of (topRoot sh) revisionHeadKey of Some rv \<Rightarrow> shared_head sh = rv | None \<Rightarrow> shared_head sh = emptyRevision) \<and>
     (case map_of (topRoot sh) subjectiveKey of Some roots \<Rightarrow> persistent sh = roots
      | None \<Rightarrow> persistent sh = replicate numPersistentDatabases [])"

lemma top_keys: "revisionHeadKey \<noteq> subjectiveKey" "revisionById b \<noteq> revisionHeadKey" "revisionById b \<noteq> subjectiveKey"
  by (simp_all add: revisionHeadKey_def subjectiveKey_def revisionById_def revisionByIdPrefix_def)

lemma put_subjective_inv: "shared_inv sh \<Longrightarrow> shared_inv (put_subjective i r sh)"
  by (auto simp: top_keys top_keys [symmetric] shared_inv_def put_subjective_def store_top_def persistent_def Let_def omap split: option.splits)

lemma commit_inv:
  assumes "shared_inv sh" "commitSubjective weak hasCallbacks closing socks sh d = Ok r"
  shows "shared_inv (sc_shared r)"
proof -
  have "shared_inv (commit_shared (shared_commit weak a b c e f g sh))" for a b c e f g
    using assms(1) top_keys by (auto simp: shared_commit_def Let_def shared_inv_def store_top_def persistent_def omap split: prod.splits option.splits)
  then show ?thesis
    using assms by (auto simp: commitSubjective_def result_simps Let_def split: list.splits if_splits)
qed

lemma remove_old_keeps:
  "ordered troot \<Longrightarrow> remove_old is_snapshot irreversible key h troot = (key', h', troot') \<Longrightarrow>
   ordered troot' \<and> (\<forall>k. \<not> is_revision_key irreversible k \<longrightarrow> map_of troot' k = map_of troot k)"
proof (induction is_snapshot irreversible key h troot rule: remove_old.induct)
  case (1 is_snapshot irreversible key h troot)
  show ?case
  proof (cases "find (\<lambda>p. key \<le> fst p) troot")
    case (Some p)
    show ?thesis
      using 1(1,2) [OF Some refl refl] 1(3,4) Some
      by (auto simp: remove_old.simps [of _ _ key] Let_def omap split: if_splits)
  qed (use 1(3,4) in \<open>simp add: remove_old.simps [of _ _ key]\<close>)
qed

lemma remove_orphans_keeps:
  "ordered troot \<Longrightarrow> remove_orphans statusKey head_previous irreversible key troot = Ok troot' \<Longrightarrow>
   ordered troot' \<and> (\<forall>k. \<not> is_revision_key irreversible k \<longrightarrow> map_of troot' k = map_of troot k)"
proof (induction statusKey head_previous irreversible key troot rule: remove_orphans.induct)
  case (1 statusKey head_previous irreversible key troot)
  show ?case
  proof (cases "find (\<lambda>p. key \<le> fst p) troot")
    case (Some p)
    show ?thesis
      using 1(1) [OF Some] 1(2,3) Some
      by (auto simp: remove_orphans.simps [of _ _ _ key] Let_def omap split: if_splits option.splits)
  qed (use 1(2,3) in \<open>simp add: remove_orphans.simps [of _ _ _ key]\<close>)
qed

lemma remove_inv:
  assumes "shared_inv sh" "removeRevisions snapshotKey statusKey head_previous irreversible sh = Ok sh'" "length irreversible = 32"
  shows "shared_inv sh'"
proof -
  define snap where "snap = (\<lambda>bid. kv_get (shared_subjective sh ! independentIndex db_nativeSubjective) (snapshotKey bid) \<noteq> None)"
  obtain key h troot where loop1: "remove_old snap irreversible [revisionByIdPrefix] False (topRoot sh) = (key, h, troot)"
    using prod_cases3 by blast
  obtain troot' where loop2: "(if h then remove_orphans statusKey head_previous irreversible key troot else Ok troot) = Ok troot'"
    and sh': "sh' = sh\<lparr>topRoot := troot', shared_disk := troot'\<rparr>"
    using assms(2) loop1 by (auto simp: removeRevisions_def Let_def result_simps snap_def)
  have keys: "\<not> is_revision_key irreversible revisionHeadKey" "\<not> is_revision_key irreversible subjectiveKey"
    using assms(3) by (simp_all add: is_revision_key_def revisionHeadKey_def subjectiveKey_def)
  have "ordered troot' \<and> (\<forall>k. \<not> is_revision_key irreversible k \<longrightarrow> map_of troot' k = map_of (topRoot sh) k)"
  proof -
    have "ordered (topRoot sh)" using assms(1) by (simp add: shared_inv_def)
    note old = remove_old_keeps [OF this loop1]
    show ?thesis
    proof (cases h)
      case True
      with loop2 have "remove_orphans statusKey head_previous irreversible key troot = Ok troot'" by simp
      from remove_orphans_keeps [OF conjunct1 [OF old] this] old show ?thesis by simp
    qed (use loop2 old in simp)
  qed
  then show ?thesis using assms(1) keys by (simp add: shared_inv_def sh' persistent_def split: option.splits)
qed

lemma shared_step_inv: "shared_step sh sh' \<Longrightarrow> shared_inv sh \<Longrightarrow> shared_inv sh'"
proof (induction rule: shared_step.induct)
  case (step_head rv sh)
  then show ?case by (auto simp: top_keys top_keys [symmetric] shared_inv_def setHead_def store_top_def Let_def persistent_def omap split: option.splits)
next
  case (step_revision sh bid rv)
  then show ?case
    by (auto simp: top_keys top_keys [symmetric] shared_inv_def shared_writeRevision_def store_top_def Let_def persistent_def omap split: option.splits)
qed (simp_all add: kvPutSubjective_def kvRemoveSubjective_def Let_def put_subjective_inv commit_inv remove_inv)

lemma open_inv:
  assumes "open_database sizes disk = Ok sh" "ordered disk"
  shows "shared_inv sh"
  using assms by (auto simp: open_database_def loadRevision_def result_simps shared_inv_def persistent_def
      emptyRevision_def numIndependentDatabases_def numPersistentDatabases_def endIndependent_def beginIndependent_def endPersistent_def
      split: if_splits option.splits)


section \<open>Examples\<close>

lemma parents_first_check:
  "list_all (\<lambda>(k, rv). case parent_of statusKey head_previous rv of Some prv \<Rightarrow> revisionById prv < k | None \<Rightarrow> True) troot \<Longrightarrow>
   parents_first statusKey head_previous irreversible troot"
  by (auto simp: parents_first_def list_all_iff dest!: map_of_SomeD)

lemma revision_keys_check:
  "ordered troot \<Longrightarrow> length irreversible = 32 \<Longrightarrow> list_all (\<lambda>(k, _). length k = 33) troot \<Longrightarrow> revision_keys irreversible troot"
  by (auto simp: revision_keys_def list_all_iff dest!: map_of_SomeD)

text \<open>Block 1 with two children, each of which has a child. Block \<open>ex_id 2 0\<close> becomes irreversible.\<close>

definition ex_id :: "u8 \<Rightarrow> u8 \<Rightarrow> block_id" where
  "ex_id n fork = [0, 0, 0, n, fork] @ replicate 27 0"

definition ex_revision :: "u8 \<Rightarrow> u8 \<Rightarrow> u8 \<Rightarrow> u8 \<Rightarrow> bytes \<times> revision" where
  "ex_revision n fork pn pfork = (revisionById (ex_id n fork), emptyRevision[unat db_native := [([9], ex_id pn pfork)]])"

definition ex_shared :: shared_db where
  "ex_shared =
     (let troot = [ex_revision 1 0 0 0, ex_revision 2 0 1 0, ex_revision 2 1 1 0, ex_revision 3 0 2 0, ex_revision 3 1 2 1]
      in \<lparr>topRoot = troot, shared_disk = troot, shared_head = emptyRevision,
          shared_subjective = replicate numIndependentDatabases []\<rparr>)"

theorem removeRevisions_exact_witness:
  "let sh' = result_value (removeRevisions (\<lambda>b. b) [9] Some (ex_id 2 0) ex_shared)
   in map fst (topRoot sh') = [revisionById (ex_id 2 0), revisionById (ex_id 3 0)] \<and>
      map_of (topRoot sh') (revisionById (ex_id 1 0)) =
        (if ex_id 1 0 = ex_id 2 0 \<or> kvGetSubjective db_nativeSubjective (ex_id 1 0) ex_shared \<noteq> None
         then map_of (topRoot ex_shared) (revisionById (ex_id 1 0)) else None)"
proof -
  define sh' where "sh' = result_value (removeRevisions (\<lambda>b. b) [9] Some (ex_id 2 0) ex_shared)"
  have ok: "removeRevisions (\<lambda>b. b) [9] Some (ex_id 2 0) ex_shared = Ok sh'" unfolding sh'_def by code_simp
  have keys: "revision_keys (ex_id 2 0) (topRoot ex_shared)" by (rule revision_keys_check) code_simp+
  have parents: "parents_first [9] Some (ex_id 2 0) (topRoot ex_shared)" by (rule parents_first_check) code_simp
  have present: "map_of (topRoot ex_shared) (revisionById (ex_id 2 0)) \<noteq> None" by code_simp
  have "low_revision (ex_id 2 0) (revisionById (ex_id 1 0))" by code_simp
  moreover have "map fst (topRoot sh') = [revisionById (ex_id 2 0), revisionById (ex_id 3 0)]" unfolding sh'_def by code_simp
  ultimately show ?thesis using removeRevisions_exact [OF ok keys parents present] by (simp add: Let_def sh'_def)
qed

definition ex_disk_sizes :: "nat list" where
  "ex_disk_sizes = [min_database_size]"


end
