(* ===== verification/Kv_Merkle.thy ===== *)
theory Kv_Merkle
  imports Hashes Databases
begin

text \<open>
  The root hash of a key-value database: libraries/psibase/common/src/KvMerkle.cpp and KvMerkle.hpp, and
  \<open>BuildStateChecksum\<close> of ForkDb.hpp, which nodes use to agree on the state of a snapshot.
\<close>

unbundle bit_operations_syntax

section \<open>Bits\<close>

definition popcount :: "u8 \<Rightarrow> nat" where
  "popcount b = length (filter (bit b) [0 ..< 8])"

definition builtin_clz :: "u32 \<Rightarrow> nat" where
  "builtin_clz x = length (takeWhile (\<lambda>i. \<not> bit x (31 - i)) [0 ..< 32])"

definition byte_prefix_bits :: "u8 \<Rightarrow> u8 \<Rightarrow> nat" where
  "byte_prefix_bits lhs rhs =
     (let x = (ucast lhs XOR ucast rhs :: u32) in if x = 0 then 8 else builtin_clz x - (32 - 8))"

fun prefix_bits_loop :: "nat \<Rightarrow> bytes \<Rightarrow> bytes \<Rightarrow> nat result" where
  "prefix_bits_loop i (l # lhs) (r # rhs) =
     (if l \<noteq> r then
        bind_result (check (l < r) ''Keys must be inserted in increasing order'') (\<lambda>_. Ok (i * 8 + byte_prefix_bits l r))
      else prefix_bits_loop (i + 1) lhs rhs)"
| "prefix_bits_loop i [] (r # rhs) = Ok (i * 8)"
| "prefix_bits_loop i lhs [] = Err (Abort ''Keys must be inserted in increasing order'')"

definition common_prefix_bits :: "bytes \<Rightarrow> bytes \<Rightarrow> nat result" where
  "common_prefix_bits lhs rhs = prefix_bits_loop 0 lhs rhs"

definition get_stack_after :: "bytes \<Rightarrow> nat \<Rightarrow> nat" where
  "get_stack_after key n =
     (case drop (n div 8) key of
        [] \<Rightarrow> 0
      | b # rest \<Rightarrow> 1 + popcount (b AND drop_bit (n mod 8) 0xff) + sum_list (map (\<lambda>b. 1 + popcount b) rest))"

definition get_stack_size :: "bytes \<Rightarrow> nat" where
  "get_stack_size key = 1 + length key + sum_list (map popcount key)"

section \<open>Items\<close>

text \<open>
  The data of an item, in one buffer that starts with a zero byte. Sizes are 32-bit integers, and the sums
  passed to \<open>resize\<close> wrap around; a copy past the end of the buffer is undefined.
\<close>

type_synonym item = bytes

definition le32 :: "u32 \<Rightarrow> bytes" where
  "le32 x = [ucast x, ucast (drop_bit 8 x), ucast (drop_bit 16 x), ucast (drop_bit 24 x)]"

definition from_le32 :: "bytes \<Rightarrow> u32" where
  "from_le32 bs =
     ucast (bs ! 0) OR push_bit 8 (ucast (bs ! 1)) OR push_bit 16 (ucast (bs ! 2)) OR push_bit 24 (ucast (bs ! 3))"

definition resize :: "bytes \<Rightarrow> nat \<Rightarrow> bytes" where
  "resize data n = take n data @ replicate (n - length data) 0"

definition write_at :: "nat \<Rightarrow> bytes \<Rightarrow> bytes \<Rightarrow> bytes result" where
  "write_at pos src data =
     (if length data < pos + length src then Err Undefined
      else Ok (take pos data @ src @ drop (pos + length src) data))"

definition read_at :: "nat \<Rightarrow> nat \<Rightarrow> bytes \<Rightarrow> bytes result" where
  "read_at pos n data = (if length data < pos + n then Err Undefined else Ok (take n (drop pos data)))"

definition new_item :: item where
  "new_item = [0]"

definition item_from :: "bytes \<Rightarrow> bytes \<Rightarrow> item \<Rightarrow> item result" where
  "item_from key v data =
     (let keySize = of_nat (length key) :: u32; valueSize = of_nat (length v) :: u32;
          data = resize data (unat (9 + keySize + valueSize))
      in bind_result (write_at 1 (le32 keySize) data) (\<lambda>data.
         bind_result (if keySize \<noteq> 0 then write_at 5 (take (unat keySize) key) data else Ok data) (\<lambda>data.
         bind_result (write_at (5 + unat keySize) (le32 valueSize) data) (\<lambda>data.
           if valueSize \<noteq> 0 then write_at (9 + unat keySize) (take (unat valueSize) v) data else Ok data))))"

definition item_size :: "nat \<Rightarrow> item \<Rightarrow> u32 result" where
  "item_size pos data = bind_result (read_at pos 4 data) (\<lambda>bs. Ok (from_le32 bs))"

definition nextKey :: "item \<Rightarrow> item result" where
  "nextKey data =
     bind_result (item_size 1 data) (\<lambda>keySize.
       (let keySize = keySize + 1; data = resize data (unat (5 + keySize))
        in bind_result (write_at 1 (le32 keySize) data) (\<lambda>data.
           if data = [] then Err Undefined else Ok (butlast data @ [0]))))"

definition item_key :: "item \<Rightarrow> bytes result" where
  "item_key data = bind_result (item_size 1 data) (\<lambda>keySize. read_at 5 (unat keySize) data)"

definition item_value :: "item \<Rightarrow> bytes result" where
  "item_value data =
     bind_result (item_size 1 data) (\<lambda>keySize.
     bind_result (item_size (5 + unat keySize) data) (\<lambda>valueSize.
       read_at (9 + unat keySize) (unat valueSize) data))"

definition item_hash :: "hash_function \<Rightarrow> item \<Rightarrow> checksum" where
  "item_hash sha256 data = sha256 data"

text \<open>\<open>fromStream\<close> on a stream that is the list of the bytes left in it.\<close>

definition do_read :: "nat \<Rightarrow> bytes \<Rightarrow> (bytes \<times> bytes) result" where
  "do_read n stream = (if length stream < n then Err (Abort ''read'') else Ok (take n stream, drop n stream))"

definition fromStream :: "bytes \<Rightarrow> item \<Rightarrow> (item \<times> bytes) result" where
  "fromStream stream data =
     bind_result (do_read 4 stream) (\<lambda>(bs, stream).
       (let keySize = from_le32 bs; data = resize data (unat (5 + keySize))
        in bind_result (write_at 1 (le32 keySize) data) (\<lambda>data.
           bind_result (do_read (unat keySize) stream) (\<lambda>(key, stream).
           bind_result (write_at 5 key data) (\<lambda>data.
           bind_result (do_read 4 stream) (\<lambda>(bs, stream).
             (let valueSize = from_le32 bs; data = resize data (unat (9 + keySize + valueSize))
              in bind_result (write_at (5 + unat keySize) (le32 valueSize) data) (\<lambda>data.
                 bind_result (do_read (unat valueSize) stream) (\<lambda>(v, stream).
                 bind_result (write_at (9 + unat keySize) v data) (\<lambda>data. Ok (data, stream)))))))))))"

section \<open>The tree\<close>

text \<open>The vector \<open>stack\<close> has its back at the head of the list.\<close>

record kv_merkle =
  km_stack :: "checksum list"
  km_current_key :: bytes

definition empty_kv_merkle :: kv_merkle where
  "empty_kv_merkle = \<lparr>km_stack = [], km_current_key = []\<rparr>"

definition kv_combine :: "hash_function \<Rightarrow> checksum \<Rightarrow> checksum \<Rightarrow> checksum" where
  "kv_combine sha256 lhs rhs =
     (if lhs = zero_checksum then rhs else if rhs = zero_checksum then lhs else merkle_combine sha256 lhs rhs)"

fun pop_loop :: "hash_function \<Rightarrow> nat \<Rightarrow> checksum \<Rightarrow> checksum list \<Rightarrow> checksum list result" where
  "pop_loop sha256 0 t stack = Ok (t # stack)"
| "pop_loop sha256 (Suc n) t [] = Err Undefined"
| "pop_loop sha256 (Suc n) t (node # stack) = pop_loop sha256 n (kv_combine sha256 node t) stack"

definition pop_n :: "hash_function \<Rightarrow> nat \<Rightarrow> checksum list \<Rightarrow> checksum list result" where
  "pop_n sha256 n stack = (case stack of [] \<Rightarrow> Err Undefined | t # rest \<Rightarrow> pop_loop sha256 n t rest)"

text \<open>A failed assertion is \<open>Undefined\<close>.\<close>

definition push_hash :: "hash_function \<Rightarrow> bytes \<Rightarrow> checksum \<Rightarrow> kv_merkle \<Rightarrow> kv_merkle result" where
  "push_hash sha256 key v m =
     (if km_stack m = [] \<and> key = [] then Ok (m\<lparr>km_stack := [v]\<rparr>)
      else
        (let stack = (if km_stack m = [] then [zero_checksum] else km_stack m); cur = km_current_key m
         in bind_result (common_prefix_bits cur key) (\<lambda>n.
              (let bits_to_remove = get_stack_after cur n; bits_to_add = get_stack_after key n;
                   new_stack_size = length stack + bits_to_add - bits_to_remove
               in bind_result (if bits_to_remove \<noteq> 0 then pop_n sha256 (bits_to_remove - 1) stack else Ok stack) (\<lambda>stack.
                    if \<not> length stack < new_stack_size then Err Undefined
                    else
                      (let stack = v # replicate (new_stack_size - length stack - 1) zero_checksum @ stack;
                           cur = take (n div 8) cur @ drop (n div 8) key
                       in if get_stack_size cur \<noteq> length stack then Err Undefined
                          else Ok \<lparr>km_stack = stack, km_current_key = cur\<rparr>))))))"

definition push_item :: "hash_function \<Rightarrow> item \<Rightarrow> kv_merkle \<Rightarrow> kv_merkle result" where
  "push_item sha256 data m = bind_result (item_key data) (\<lambda>key. push_hash sha256 key (item_hash sha256 data) m)"

definition kv_root :: "hash_function \<Rightarrow> kv_merkle \<Rightarrow> checksum result" where
  "kv_root sha256 m =
     (if km_stack m = [] then Ok zero_checksum
      else bind_result (pop_n sha256 (length (km_stack m) - 1) (km_stack m)) (\<lambda>stack. Ok (hd stack)))"

section \<open>The checksum of the state\<close>

text \<open>
  \<open>BuildStateChecksum::hash\<close>: the loop searches the next row from the key in \<open>item\<close>. Nothing changes the
  database while it runs, so that every search is in the same root.
\<close>

partial_function (option) hash_loop ::
  "hash_function \<Rightarrow> rows \<Rightarrow> item \<Rightarrow> kv_merkle \<Rightarrow> checksum result option" where
  "hash_loop sha256 r data m =
     (case item_key data of
        Err e \<Rightarrow> Some (Err e)
      | Ok key \<Rightarrow>
          (case match_key key 0 (kv_greater_equal r key) of
             None \<Rightarrow> Some (kv_root sha256 m)
           | Some (k, v) \<Rightarrow>
               (case bind_result (item_from k v data) (\<lambda>data.
                     bind_result (push_item sha256 data m) (\<lambda>m.
                     bind_result (nextKey data) (\<lambda>data. Ok (data, m)))) of
                  Err e \<Rightarrow> Some (Err e)
                | Ok (data, m) \<Rightarrow> hash_loop sha256 r data m)))"

declare hash_loop.simps [code]

definition hash_database :: "hash_function \<Rightarrow> database \<Rightarrow> db_id \<Rightarrow> checksum result option" where
  "hash_database sha256 d db =
     (case bind_result (read_revision d) (\<lambda>rv. bind_result (db_root d rv db) (\<lambda>r.
           bind_result (item_from [] [] []) (\<lambda>data. Ok (r, data)))) of
        Err e \<Rightarrow> Some (Err e)
      | Ok (r, data) \<Rightarrow> hash_loop sha256 r data empty_kv_merkle)"

record state_checksum =
  serviceRoot :: checksum
  nativeRoot :: checksum

definition build_state_checksum :: "hash_function \<Rightarrow> revision \<Rightarrow> state_checksum result option" where
  "build_state_checksum sha256 rv =
     (case startRead (new_database rv) of
        Err e \<Rightarrow> Some (Err e)
      | Ok d \<Rightarrow>
          Option.bind (hash_database sha256 d db_service) (\<lambda>s.
          Option.bind (hash_database sha256 d db_native) (\<lambda>n.
            Some (bind_result s (\<lambda>s. bind_result n (\<lambda>n. Ok \<lparr>serviceRoot = s, nativeRoot = n\<rparr>))))))"

section \<open>Paths\<close>

text \<open>
  The way from the root to the leaf of a key: a left turn for \<open>False\<close>. At the end of a prefix of the key the
  leaf is on the left and the longer keys on the right; in between there is a turn for every bit.
\<close>

definition byte_bits :: "u8 \<Rightarrow> bool list" where
  "byte_bits b = map (\<lambda>i. bit b (7 - i)) [0 ..< 8]"

definition key_path :: "bytes \<Rightarrow> bool list" where
  "key_path key = concat (map (\<lambda>b. True # byte_bits b) key) @ [False]"

fun below :: "bool list \<Rightarrow> bool list \<Rightarrow> bool" where
  "below (x # xs) (y # ys) = (if x = y then below xs ys else y)"
| "below _ _ = False"

definition trues :: "bool list \<Rightarrow> nat" where
  "trues p = length (filter (\<lambda>b. b) p)"

lemma trues_simps [simp]: "trues [] = 0" "trues (b # p) = (if b then Suc (trues p) else trues p)" "trues (p @ q) = trues p + trues q"
  by (simp_all add: trues_def)

lemma below_trans: "below x y \<Longrightarrow> below y z \<Longrightarrow> below x z"
proof (induction x y arbitrary: z rule: below.induct)
  case (1 x xs y ys)
  then show ?case by (cases z) (auto split: if_splits)
qed simp_all

lemma below_split: "below (c @ False # p) (c @ True # q)"
  by (induction c) auto

lemma upt_8: "[0 ..< 8] = [0, 1, 2, 3, 4, 5, 6, 7 :: nat]" by (simp add: upt_rec)

lemma length_byte_bits [simp]: "length (byte_bits b) = 8" by (simp add: byte_bits_def)

lemma trues_bits:
  assumes "j < 8"
  shows "trues (drop j (byte_bits b)) = length (filter (bit b) [0 ..< 8 - j])"
proof -
  have "drop j (byte_bits b) = map (bit b) (map (\<lambda>i. 7 - i) [j ..< 8])" by (simp add: byte_bits_def drop_map)
  also have "map (\<lambda>i. 7 - i) [j ..< 8] = rev [0 ..< 8 - j]"
    using assms by (intro nth_equalityI) (auto simp: rev_nth)
  finally show ?thesis by (simp add: trues_def filter_map comp_def rev_filter [symmetric])
qed

lemma popcount_bits: "popcount b = trues (byte_bits b)"
  using trues_bits [of 0 b] by (simp add: popcount_def)

lemma popcount_masked:
  assumes "j < 8"
  shows "popcount (b AND drop_bit j 0xff) = trues (drop j (byte_bits b))"
proof -
  have mask: "(0xff :: u8) = mask 8" by (simp add: mask_eq_exp_minus_1)
  have bits: "bit (b AND drop_bit j 0xff) = (\<lambda>k. bit b k \<and> k < 8 - j)"
    using assms by (auto simp: fun_eq_iff mask bit_simps dest: bit_imp_le_length)
  have "[0 ..< 8] = [0 ..< 8 - j] @ [8 - j ..< 8]" using upt_add_eq_append [of 0 "8 - j" j] assms by simp
  then have "filter (\<lambda>k. bit b k \<and> k < 8 - j) [0 ..< 8] = filter (bit b) [0 ..< 8 - j]"
    by (auto simp: filter_empty_conv intro!: filter_cong)
  then show ?thesis using trues_bits [OF assms, of b] by (simp add: popcount_def bits)
qed

text \<open>The number that a list of bits stands for, the most significant bit first.\<close>

definition bits_value :: "bool list \<Rightarrow> nat" where
  "bits_value p = horner_sum of_bool 2 (rev p)"

lemma bits_value_less: "bits_value p < 2 ^ length p"
  by (simp add: bits_value_def horner_sum_of_bool_2_less [of "rev p", simplified])

lemma bits_value_split: "length p = length q \<Longrightarrow> bits_value (c @ False # p) < bits_value (c @ True # q)"
  using bits_value_less [of p] by (simp add: bits_value_def horner_sum_append)

lemma bits_value_byte: "bits_value (byte_bits b) = unat b"
proof -
  have "rev (byte_bits b) = map (bit (unat b)) [0 ..< 8]"
    by (intro nth_equalityI) (auto simp: byte_bits_def rev_nth bit_simps)
  moreover have "unat b < 2 ^ 8" using unsigned_less [of b] by simp
  ultimately show ?thesis
    using horner_sum_bit_eq_take_bit [where a = "unat b" and n = 8] by (simp add: bits_value_def take_bit_nat_eq_self)
qed

lemma clz_prefix:
  assumes "l \<noteq> r"
  shows "byte_prefix_bits l r = length (takeWhile (\<lambda>i. bit l (7 - i) = bit r (7 - i)) [0 ..< 8])"
proof -
  let ?x = "ucast l XOR ucast r :: u32"
  have bits: "bit ?x k \<longleftrightarrow> k < 8 \<and> bit l k \<noteq> bit r k" for k by (auto simp: bit_simps dest: bit_imp_le_length)
  have "?x \<noteq> 0"
  proof
    assume "?x = 0"
    then have "bit l k = bit r k" for k
      using bits [of k] by (cases "k < 8") (auto dest: bit_imp_le_length)
    then show False using assms by (simp add: bit_eq_iff)
  qed
  moreover have "builtin_clz ?x = 24 + length (takeWhile (\<lambda>i. bit l (7 - i) = bit r (7 - i)) [0 ..< 8])"
  proof -
    let ?P = "\<lambda>i. \<not> bit ?x (31 - i)"
    have upt: "[0 ..< 32] = [0 ..< 24] @ map (\<lambda>i. 24 + i) [0 ..< 8]" by (simp add: upt_8 upt_rec)
    have zero: "?P i" if "i \<in> set [0 ..< 24]" for i
    proof -
      have "\<not> 31 - i < 8" using that by simp
      then show ?thesis using bits [of "31 - i"] by blast
    qed
    have "takeWhile ?P [0 ..< 32] = [0 ..< 24] @ takeWhile ?P (map (\<lambda>i. 24 + i) [0 ..< 8])"
      unfolding upt by (rule takeWhile_append2) (rule zero)
    moreover have "takeWhile (?P \<circ> (\<lambda>i. 24 + i)) [0 ..< 8] = takeWhile (\<lambda>i. bit l (7 - i) = bit r (7 - i)) [0 ..< 8]"
      by (intro takeWhile_cong refl) (auto simp: bits)
    ultimately show ?thesis unfolding builtin_clz_def by (simp only: takeWhile_map length_append length_map) simp
  qed
  ultimately show ?thesis by (simp add: byte_prefix_bits_def)
qed

lemma byte_split:
  assumes "l < r"
  obtains c p q where "byte_bits l = c @ False # p" "byte_bits r = c @ True # q" "length c = byte_prefix_bits l r"
    "byte_prefix_bits l r < 8" "length p = length q"
proof -
  let ?j = "byte_prefix_bits l r"
  let ?same = "\<lambda>i. bit l (7 - i) = bit r (7 - i)"
  have j: "?j = length (takeWhile ?same [0 ..< 8])" using assms by (intro clz_prefix) auto
  have less: "?j < 8"
  proof (rule ccontr)
    assume "\<not> ?j < 8"
    then have "takeWhile ?same [0 ..< 8] = [0 ..< 8]"
      using length_takeWhile_le [of ?same "[0 ..< 8]"] takeWhile_eq_take [of ?same "[0 ..< 8]"] by (simp add: j)
    then have "byte_bits l = byte_bits r" unfolding byte_bits_def takeWhile_eq_all_conv by simp
    then show False using assms bits_value_byte [of l] bits_value_byte [of r] by (simp add: word_less_nat_alt)
  qed
  have same: "bit l (7 - i) = bit r (7 - i)" if "i < ?j" for i
    using that nth_length_takeWhile [of ?same "[0 ..< 8]"] takeWhile_nth [of i ?same "[0 ..< 8]"] set_takeWhileD [of i ?same "[0 ..< 8]"]
    by (metis (mono_tags, lifting) add_0 j length_upt less minus_nat.diff_0 nth_mem nth_upt order_less_trans)
  have differ: "\<not> ?same ?j" using nth_length_takeWhile [of ?same "[0 ..< 8]"] less by (simp add: j [symmetric])
  define c where "c = take ?j (byte_bits l)"
  have split: "byte_bits b = take ?j (byte_bits b) @ bit b (7 - ?j) # drop (Suc ?j) (byte_bits b)" for b
    using less id_take_nth_drop [of ?j "byte_bits b"] by (simp add: byte_bits_def)
  have c: "take ?j (byte_bits r) = c"
    unfolding c_def using same less by (intro nth_equalityI) (auto simp: byte_bits_def)
  have "bit r (7 - ?j)"
  proof (rule ccontr)
    assume "\<not> bit r (7 - ?j)"
    then have "bits_value (byte_bits r) < bits_value (byte_bits l)"
      using differ split [of l] split [of r] c bits_value_split [of "drop (Suc ?j) (byte_bits r)" "drop (Suc ?j) (byte_bits l)" c]
      by (simp add: c_def)
    then show False using assms by (simp add: bits_value_byte word_less_nat_alt)
  qed
  then show ?thesis
    using that [of c "drop (Suc ?j) (byte_bits l)" "drop (Suc ?j) (byte_bits r)"] split [of l] split [of r] c differ less
    by (simp add: c_def)
qed

lemma div_8: "(8 + n) div 8 = Suc (n div 8)" "(8 + n) mod 8 = n mod (8 :: nat)"
  by presburger+

lemma get_stack_after_Cons: "get_stack_after (b # key) (8 + n) = get_stack_after key n"
  unfolding get_stack_after_def div_8 by simp

lemma trues_key_path: "trues (key_path key) = sum_list (map (\<lambda>b. 1 + popcount b) key)"
  by (induction key) (simp_all add: key_path_def popcount_bits)

lemma key_path_Nil: "key_path [] = [False]" by (simp add: key_path_def)

lemma key_path_Cons: "key_path (b # key) = True # byte_bits b @ key_path key"
  by (simp add: key_path_def)

text \<open>Where the paths of the current key and of the next one part, and what the code computes from it.\<close>

lemma common_prefix_bits_split:
  "cur < key \<Longrightarrow> \<exists>n c p q. prefix_bits_loop i cur key = Ok (i * 8 + n) \<and> key_path cur = c @ False # p \<and> key_path key = c @ True # q \<and>
     take (n div 8) cur = take (n div 8) key \<and>
     get_stack_after cur n = (if p = [] then 0 else Suc (trues p)) \<and>
     get_stack_after key n = (if p = [] then 1 else 2) + trues q"
proof (induction i cur key rule: prefix_bits_loop.induct)
  case (1 i l lhs r rhs)
  show ?case
  proof (cases "l = r")
    case True
    then obtain n c p q where IH: "prefix_bits_loop (i + 1) lhs rhs = Ok ((i + 1) * 8 + n)"
      "key_path lhs = c @ False # p" "key_path rhs = c @ True # q" "take (n div 8) lhs = take (n div 8) rhs"
      "get_stack_after lhs n = (if p = [] then 0 else Suc (trues p))" "get_stack_after rhs n = (if p = [] then 1 else 2) + trues q"
      using 1 by auto
    have "take ((8 + n) div 8) (l # lhs) = take ((8 + n) div 8) (r # rhs)" using IH(4) True unfolding div_8 by simp
    then show ?thesis
      using IH True
      by (intro exI [of _ "8 + n"] exI [of _ "True # byte_bits l @ c"] exI [of _ p] exI [of _ q])
        (simp add: key_path_Cons get_stack_after_Cons del: take_Suc_Cons)
  next
    case False
    then have "l < r" using 1(2) by simp
    from byte_split [OF this] obtain c p q where bits: "byte_bits l = c @ False # p" "byte_bits r = c @ True # q"
      "length c = byte_prefix_bits l r" "byte_prefix_bits l r < 8" by metis
    have "popcount (l AND drop_bit (length c) 0xff) = trues p" "popcount (r AND drop_bit (length c) 0xff) = Suc (trues q)"
      using bits popcount_masked [of "length c" l] popcount_masked [of "length c" r] by simp_all
    moreover have "length c div 8 = 0" "length c mod 8 = length c" using bits(3,4) by simp_all
    ultimately have after: "get_stack_after (l # lhs) (length c) = Suc (trues (p @ key_path lhs))"
      "get_stack_after (r # rhs) (length c) = 2 + trues (q @ key_path rhs)"
      unfolding get_stack_after_def by (simp_all add: trues_key_path)
    show ?thesis
      using False \<open>l < r\<close> bits after
      by (intro exI [of _ "length c"] exI [of _ "True # c"] exI [of _ "p @ key_path lhs"] exI [of _ "q @ key_path rhs"])
        (simp add: key_path_Cons check_def, simp add: key_path_def)
  qed
next
  case (2 i r rhs)
  have "get_stack_after (r # rhs) 0 = 1 + trues (byte_bits r @ key_path rhs)"
    using popcount_masked [of 0 r] by (simp add: get_stack_after_def trues_key_path)
  then show ?case
    by (intro exI [of _ 0] exI [of _ "[]"] exI [of _ "[]"] exI [of _ "byte_bits r @ key_path rhs"])
      (simp add: key_path_Cons key_path_Nil get_stack_after_def [of "[]"])
qed simp

section \<open>The root of a set of leaves\<close>

type_synonym leaves = "(bool list \<times> checksum) list"

definition branch :: "bool \<Rightarrow> (bool list \<times> 'a) list \<Rightarrow> (bool list \<times> 'a) list" where
  "branch b items = map (\<lambda>(p, h). (tl p, h)) (filter (\<lambda>(p, h). p \<noteq> [] \<and> hd p = b) items)"

lemma branch_simps [simp]:
  "branch b [] = []" "branch b (items @ others) = branch b items @ branch b others"
  "branch b [(c # p, h)] = (if b = c then [(p, h)] else [])"
  by (auto simp: branch_def)

lemma set_branch: "(p, h) \<in> set (branch b items) \<longleftrightarrow> (b # p, h) \<in> set items"
proof (induction items)
  case (Cons x items)
  obtain q k where x: "x = (q, k)" by force
  show ?case using Cons by (cases q) (auto simp: branch_def x)
qed simp

definition path_sizes :: "(bool list \<times> 'a) list \<Rightarrow> nat" where
  "path_sizes items = sum_list (map (length \<circ> fst) items)"

lemma branch_smaller:
  assumes "items \<noteq> []" "\<forall>p \<in> set items. fst p \<noteq> []"
  shows "path_sizes (branch b items) < path_sizes items"
proof -
  have le: "path_sizes (branch b xs) \<le> path_sizes xs" for xs :: "(bool list \<times> 'a) list"
    by (induction xs) (auto simp: path_sizes_def branch_def)
  obtain p h rest where items: "items = (p, h) # rest" "p \<noteq> []" using assms by (cases items) auto
  then have "path_sizes (branch b items) \<le> (length p - 1) + path_sizes (branch b rest)" by (auto simp: branch_def path_sizes_def)
  also have "\<dots> < length p + path_sizes rest" using le [of rest] items(2) by (cases p) auto
  finally show ?thesis by (simp add: items(1) path_sizes_def)
qed

text \<open>
  The root of the leaves below a node, each with the rest of its path: the leaf itself, or the combination of
  the two subtrees, where an empty one counts for nothing. This is the tree that KvMerkle.hpp describes.
\<close>

function trie_root :: "hash_function \<Rightarrow> leaves \<Rightarrow> checksum" where
  "trie_root sha256 items =
     (if items = [] then zero_checksum
      else case find (\<lambda>p. fst p = []) items of
             Some (_, h) \<Rightarrow> h
           | None \<Rightarrow> kv_combine sha256 (trie_root sha256 (branch False items)) (trie_root sha256 (branch True items)))"
  by pat_completeness auto
termination
  by (relation "measure (\<lambda>(_, items). path_sizes items)") (auto simp: find_None_iff intro!: branch_smaller)

declare trie_root.simps [simp del]

lemma trie_root_Nil [simp]: "trie_root sha256 [] = zero_checksum" by (simp add: trie_root.simps)

lemma kv_combine_zero [simp]:
  "kv_combine sha256 zero_checksum h = h" "kv_combine sha256 h zero_checksum = h"
  by (auto simp: kv_combine_def)

lemma trie_root_branch:
  assumes "\<forall>p \<in> set items. fst p \<noteq> []"
  shows "trie_root sha256 items = kv_combine sha256 (trie_root sha256 (branch False items)) (trie_root sha256 (branch True items))"
proof -
  have "find (\<lambda>p. fst p = []) items = None" using assms by (auto simp: find_None_iff)
  then show ?thesis by (simp add: trie_root.simps [of _ items])
qed

lemma trie_root_leaf [simp]: "trie_root sha256 [([], h)] = h" by (simp add: trie_root.simps)

section \<open>The stack\<close>

text \<open>The subtrees to the left of a path, from the root down, and at the end the leaf.\<close>

primrec stack_of :: "hash_function \<Rightarrow> bool list \<Rightarrow> leaves \<Rightarrow> checksum list" where
  "stack_of sha256 [] items = [trie_root sha256 items]"
| "stack_of sha256 (b # p) items =
     (if b then [trie_root sha256 (branch False items)] else []) @ stack_of sha256 p (branch b items)"

fun fold_stack :: "hash_function \<Rightarrow> checksum list \<Rightarrow> checksum" where
  "fold_stack sha256 [] = zero_checksum"
| "fold_stack sha256 [h] = h"
| "fold_stack sha256 (h # hs) = kv_combine sha256 h (fold_stack sha256 hs)"

definition left_of :: "bool list \<Rightarrow> leaves \<Rightarrow> bool" where
  "left_of p items \<longleftrightarrow> (\<forall>(x, h) \<in> set items. x = p \<or> below x p)"

lemma left_of_branch:
  assumes "left_of (b # p) items"
  shows "left_of p (branch b items)" "\<forall>x \<in> set items. fst x \<noteq> []" "\<not> b \<Longrightarrow> branch True items = []"
proof -
  have item: "x = b # p \<or> below x (b # p)" if "(x, h) \<in> set items" for x h using assms that by (auto simp: left_of_def)
  show "left_of p (branch b items)" unfolding left_of_def
  proof clarify
    fix x h assume "(x, h) \<in> set (branch b items)" "\<not> below x p"
    with item [of "b # x" h] show "x = p" by (auto simp: set_branch)
  qed
  show "\<forall>x \<in> set items. fst x \<noteq> []" using item by fastforce
  show "branch True items = []" if "\<not> b"
  proof -
    have "(x, h) \<notin> set (branch True items)" for x h using item [of "True # x" h] that by (auto simp: set_branch)
    then show ?thesis by (metis list.set_intros(1) neq_Nil_conv surj_pair)
  qed
qed

lemma length_stack_of [simp]: "length (stack_of sha256 p items) = Suc (trues p)"
  by (induction p arbitrary: items) auto

lemma stack_of_not_Nil [simp]: "stack_of sha256 p items \<noteq> []"
  using length_stack_of [of sha256 p items] by fastforce

lemma fold_stack_Cons: "hs \<noteq> [] \<Longrightarrow> fold_stack sha256 (h # hs) = kv_combine sha256 h (fold_stack sha256 hs)"
  by (cases hs) auto

lemma fold_stack_of: "left_of p items \<Longrightarrow> fold_stack sha256 (stack_of sha256 p items) = trie_root sha256 items"
proof (induction p arbitrary: items)
  case (Cons b p)
  note items = left_of_branch [OF Cons.prems]
  have "trie_root sha256 items = kv_combine sha256 (trie_root sha256 (branch False items)) (trie_root sha256 (branch True items))"
    by (rule trie_root_branch [OF items(2)])
  then show ?case using Cons.IH [OF items(1)] items(3) by (cases b) (auto simp: fold_stack_Cons)
qed simp

lemma stack_of_single: "stack_of sha256 p [(p, h)] = replicate (trues p) zero_checksum @ [h]"
  by (induction p) auto

lemma stack_of_push:
  assumes "left_of (c @ False # p) items"
  shows "stack_of sha256 (c @ True # q) (items @ [(c @ True # q, h)]) =
    take (trues c) (stack_of sha256 (c @ False # p) items) @
    fold_stack sha256 (drop (trues c) (stack_of sha256 (c @ False # p) items)) # replicate (trues q) zero_checksum @ [h]"
  using assms
proof (induction c arbitrary: items)
  case Nil
  then show ?case using left_of_branch [of False p items] fold_stack_of [of p "branch False items"] by (simp add: stack_of_single)
next
  case (Cons b c)
  then show ?case using left_of_branch(1) [of b "c @ False # p" items] by simp
qed

lemma pop_loop_fold:
  "zs \<noteq> [] \<Longrightarrow> pop_loop sha256 (length zs - 1) (last zs) (rev (butlast zs) @ stack) = Ok (fold_stack sha256 zs # stack)"
proof -
  have "pop_loop sha256 (length ys) h (rev ys @ stack) = Ok (foldr (kv_combine sha256) ys h # stack)" for ys h
    by (induction ys arbitrary: h rule: rev_induct) simp_all
  moreover have "foldr (kv_combine sha256) ys h = fold_stack sha256 (ys @ [h])" for ys h
    by (induction ys) (simp_all add: fold_stack_Cons)
  ultimately show "zs \<noteq> [] \<Longrightarrow> ?thesis" using append_butlast_last_id [of zs] length_butlast [of zs] by metis
qed

lemma pop_n_fold:
  assumes "zs \<noteq> []"
  shows "pop_n sha256 (length zs - 1) (rev (ys @ zs)) = Ok (fold_stack sha256 zs # rev ys)"
proof -
  have stack: "rev (ys @ zs) = last zs # rev (butlast zs) @ rev ys"
    using assms append_butlast_last_id [of zs] by (metis append_Cons append_Nil append.assoc rev.simps rev_append rev_rev_ident)
  show ?thesis unfolding pop_n_def stack using pop_loop_fold [OF assms, of sha256 "rev ys"] by simp
qed

section \<open>Pushing leaves in order\<close>

definition kv_repr :: "hash_function \<Rightarrow> kv_merkle \<Rightarrow> leaves \<Rightarrow> bool" where
  "kv_repr sha256 m items \<longleftrightarrow>
     (if km_stack m = [] then items = [] \<and> km_current_key m = []
      else km_stack m = rev (stack_of sha256 (key_path (km_current_key m)) items) \<and> left_of (key_path (km_current_key m)) items)"

lemma stack_size: "get_stack_size key = Suc (trues (key_path key))"
  by (induction key) (simp_all add: get_stack_size_def trues_key_path)

lemma push_hash_later:
  assumes stack: "stack = rev (stack_of sha256 (key_path cur) items)" "left_of (key_path cur) items" and less: "cur < key"
    and m: "m = \<lparr>km_stack = stack, km_current_key = cur\<rparr>"
  shows "\<exists>m'. push_hash sha256 key h m = Ok m' \<and> km_current_key m' = key \<and> km_stack m' \<noteq> [] \<and>
    kv_repr sha256 m' (items @ [(key_path key, h)])"
proof -
  obtain n c p q where split: "common_prefix_bits cur key = Ok n" "key_path cur = c @ False # p" "key_path key = c @ True # q"
    "take (n div 8) cur = take (n div 8) key" "get_stack_after cur n = (if p = [] then 0 else Suc (trues p))"
    "get_stack_after key n = (if p = [] then 1 else 2) + trues q"
    using common_prefix_bits_split [OF less, of 0] by (auto simp: common_prefix_bits_def)
  define S where "S = stack_of sha256 (key_path cur) items"
  have len: "length S = Suc (trues c + trues p)" by (simp add: S_def split(2))
  define low where "low = take (trues c) S"
  define node where "node = fold_stack sha256 (drop (trues c) S)"
  have popped: "(if get_stack_after cur n \<noteq> 0 then pop_n sha256 (get_stack_after cur n - 1) stack else Ok stack) = Ok (node # rev low)"
  proof (cases "p = []")
    case True
    then have "length (drop (trues c) S) = Suc 0" using len by simp
    then obtain x where x: "drop (trues c) S = [x]" by (auto simp: length_Suc_conv simp del: length_drop)
    then have "S = low @ [x]" using append_take_drop_id [of "trues c" S] by (simp add: low_def)
    then have "stack = x # rev low" by (simp add: stack(1) S_def [symmetric])
    then show ?thesis using True x by (simp add: split(5) node_def)
  next
    case False
    have "pop_n sha256 (length (drop (trues c) S) - 1) (rev (low @ drop (trues c) S)) = Ok (node # rev low)"
      unfolding node_def using len by (intro pop_n_fold) auto
    then show ?thesis using False len by (simp add: split(5) low_def stack(1) S_def [symmetric])
  qed
  have size: "length stack + get_stack_after key n - get_stack_after cur n = trues c + 2 + trues q"
    using len by (simp add: stack(1) S_def [symmetric] split(5,6))
  have low: "length low = trues c" using len by (simp add: low_def)
  define m' where "m' = \<lparr>km_stack = h # replicate (trues q) zero_checksum @ node # rev low, km_current_key = key\<rparr>"
  have "push_hash sha256 key h m = Ok m'"
  proof -
    have some: "(stack = []) = False" by (simp add: stack(1))
    have "push_hash sha256 key h m = bind_result (Ok (node # rev low)) (\<lambda>stack.
        if \<not> length stack < trues c + 2 + trues q then Err Undefined
        else let stack = h # replicate (trues c + 2 + trues q - length stack - 1) zero_checksum @ stack
             in if get_stack_size key \<noteq> length stack then Err Undefined else Ok \<lparr>km_stack = stack, km_current_key = key\<rparr>)"
      unfolding push_hash_def m Let_def kv_merkle.simps some simp_thms if_False split(1) bind_result.simps size popped
      by (simp only: split(4) append_take_drop_id)
    then show ?thesis using low stack_size [of key] by (simp add: m'_def split(3))
  qed
  moreover have "km_stack m' = rev (stack_of sha256 (key_path key) (items @ [(key_path key, h)]))"
    using stack_of_push [OF stack(2) [unfolded split(2)], of sha256 q h]
    by (simp add: m'_def split(3) low_def node_def S_def split(2) rev_replicate)
  moreover have "below (key_path cur) (key_path key)" by (simp add: split below_split)
  then have "left_of (key_path key) (items @ [(key_path key, h)])"
    using stack(2) below_trans by (fastforce simp: left_of_def)
  ultimately show ?thesis by (simp add: kv_repr_def m'_def)
qed

lemma push_hash_repr:
  assumes "kv_repr sha256 m items" "km_stack m = [] \<or> km_current_key m < key"
  shows "\<exists>m'. push_hash sha256 key h m = Ok m' \<and> km_current_key m' = key \<and> km_stack m' \<noteq> [] \<and>
    kv_repr sha256 m' (items @ [(key_path key, h)])"
proof (cases "km_stack m = []")
  case True
  then have m: "items = []" "km_current_key m = []" using assms(1) by (simp_all add: kv_repr_def)
  show ?thesis
  proof (cases "key = []")
    case True
    then show ?thesis using \<open>km_stack m = []\<close> m by (simp add: push_hash_def kv_repr_def key_path_Nil left_of_def)
  next
    case False
    then have "[] < key" by (cases key) auto
    moreover have "push_hash sha256 key h m = push_hash sha256 key h \<lparr>km_stack = [zero_checksum], km_current_key = []\<rparr>"
      using False m(2) \<open>km_stack m = []\<close> by (simp add: push_hash_def)
    ultimately show ?thesis
      using push_hash_later [of "[zero_checksum]" sha256 "[]" "[]" key] m(1) by (simp add: key_path_Nil left_of_def)
  qed
next
  case False
  then have stack: "km_stack m = rev (stack_of sha256 (key_path (km_current_key m)) items)"
    "left_of (key_path (km_current_key m)) items" "km_current_key m < key"
    using assms by (simp_all add: kv_repr_def)
  show ?thesis by (rule push_hash_later [OF stack]) simp
qed

lemma kv_root_repr:
  assumes "kv_repr sha256 m items"
  shows "kv_root sha256 m = Ok (trie_root sha256 items)"
proof (cases "km_stack m = []")
  case False
  let ?S = "stack_of sha256 (key_path (km_current_key m)) items"
  have m: "km_stack m = rev ?S" "left_of (key_path (km_current_key m)) items" using assms False by (simp_all add: kv_repr_def)
  have "pop_n sha256 (length ?S - 1) (rev ([] @ ?S)) = Ok [fold_stack sha256 ?S]"
    using pop_n_fold [of ?S sha256 "[]"] by simp
  then show ?thesis using False fold_stack_of [OF m(2)] by (simp add: kv_root_def m(1))
qed (use assms in \<open>simp add: kv_repr_def kv_root_def\<close>)

section \<open>The bytes of an item\<close>

lemma from_le32_le32 [simp]: "from_le32 (le32 x) = x"
proof (rule bit_word_eqI)
  fix n assume "n < LENGTH(32)"
  then consider "n < 8" | "8 \<le> n" "n < 16" | "16 \<le> n" "n < 24" | "24 \<le> n" "n < 32" by fastforce
  then show "bit (from_le32 (le32 x)) n = bit x n" by cases (auto simp: from_le32_def le32_def bit_simps)
qed

lemma le32_from_le32: "length bs = 4 \<Longrightarrow> le32 (from_le32 bs) = bs"
proof -
  have high: "\<not> bit w (8 + n)" "\<not> bit w (16 + n)" "\<not> bit w (24 + n)" for w :: u8 and n
    by (auto dest: bit_imp_le_length)
  assume "length bs = 4"
  then obtain a b c d where "bs = [a, b, c, d]" by (auto simp: length_Suc_conv numeral_eq_Suc)
  then show ?thesis by (simp add: le32_def from_le32_def) (auto intro!: bit_word_eqI simp: bit_simps high)
qed

lemma length_le32 [simp]: "length (le32 x) = 4" by (simp add: le32_def)

definition item_bytes :: "bytes \<Rightarrow> bytes \<Rightarrow> item" where
  "item_bytes key v = 0 # le32 (of_nat (length key)) @ key @ le32 (of_nat (length v)) @ v"

definition fits_item :: "bytes \<Rightarrow> bytes \<Rightarrow> bool" where
  "fits_item key v \<longleftrightarrow> length key + length v + 10 < 2 ^ 32"

lemma write_at_middle: "length a = pos \<Longrightarrow> length b = length src \<Longrightarrow> write_at pos src (a @ b @ c) = Ok (a @ src @ c)"
  by (auto simp: write_at_def)

lemma read_at_middle: "length a = pos \<Longrightarrow> length b = n \<Longrightarrow> read_at pos n (a @ b @ c) = Ok b"
  by (auto simp: read_at_def)

lemma unat_u32: "n < 2 ^ 32 \<Longrightarrow> unat (of_nat n :: u32) = n"
  by (simp add: unat_of_nat take_bit_nat_eq_self)

lemma item_from_ok:
  assumes "fits_item key v" "data = [] \<or> hd data = 0"
  shows "item_from key v data = Ok (item_bytes key v)"
proof -
  have sizes: "length key < 2 ^ 32" "length v < 2 ^ 32" "9 + length key + length v < 2 ^ 32" using assms(1) by (simp_all add: fits_item_def)
  have total: "unat (9 + of_nat (length key) + of_nat (length v) :: u32) = 9 + length key + length v"
    using unat_u32 [OF sizes(3)] by simp
  define d where "d = resize data (9 + length key + length v)"
  have d: "length d = 9 + length key + length v" "hd d = 0" "d \<noteq> []"
    using assms(2) by (cases data; auto simp: d_def resize_def)+
  obtain z1 z2 z3 z4 where z: "d = [0] @ z1 @ z2 @ z3 @ z4" "length z1 = 4" "length z2 = length key" "length z3 = 4" "length z4 = length v"
  proof (rule that [of "take 4 (drop 1 d)" "take (length key) (drop 5 d)" "take 4 (drop (5 + length key) d)" "drop (9 + length key) d"])
    have "d = [0] @ drop 1 d" using d(2,3) by (cases d) auto
    also have "drop 1 d = take 4 (drop 1 d) @ drop 5 d" using append_take_drop_id [of 4 "drop 1 d"] by simp
    also have "drop 5 d = take (length key) (drop 5 d) @ drop (5 + length key) d" using append_take_drop_id [of "length key" "drop 5 d"] by (simp add: add.commute)
    also have "drop (5 + length key) d = take 4 (drop (5 + length key) d) @ drop (9 + length key) d"
      using append_take_drop_id [of 4 "drop (5 + length key) d"] by (simp add: add.commute add.left_commute)
    finally show "d = [0] @ take 4 (drop 1 d) @ take (length key) (drop 5 d) @ take 4 (drop (5 + length key) d) @ drop (9 + length key) d" .
  qed (use d(1) in auto)
  have k0: "(of_nat (length key) :: u32) = 0 \<longleftrightarrow> key = []" "(of_nat (length v) :: u32) = 0 \<longleftrightarrow> v = []"
    using unat_u32 [OF sizes(1)] unat_u32 [OF sizes(2)] by (auto simp: word_unat_eq_iff)
  have "write_at 1 (le32 (of_nat (length key))) d = Ok ([0] @ le32 (of_nat (length key)) @ z2 @ z3 @ z4)"
    unfolding z(1) by (rule write_at_middle) (simp_all add: z)
  moreover have "(if (of_nat (length key) :: u32) \<noteq> 0 then write_at 5 key ([0] @ le32 (of_nat (length key)) @ z2 @ z3 @ z4)
      else Ok ([0] @ le32 (of_nat (length key)) @ z2 @ z3 @ z4)) = Ok ([0] @ le32 (of_nat (length key)) @ key @ z3 @ z4)"
    using write_at_middle [of "[0] @ le32 (of_nat (length key))" 5 z2 key "z3 @ z4"] z(3) by (auto simp: k0)
  moreover have "write_at (5 + length key) (le32 (of_nat (length v))) ([0] @ le32 (of_nat (length key)) @ key @ z3 @ z4) =
      Ok ([0] @ le32 (of_nat (length key)) @ key @ le32 (of_nat (length v)) @ z4)"
    using write_at_middle [of "[0] @ le32 (of_nat (length key)) @ key" "5 + length key" z3 "le32 (of_nat (length v))" z4] z(4) by simp
  moreover have "(if (of_nat (length v) :: u32) \<noteq> 0 then write_at (9 + length key) v ([0] @ le32 (of_nat (length key)) @ key @ le32 (of_nat (length v)) @ z4)
      else Ok ([0] @ le32 (of_nat (length key)) @ key @ le32 (of_nat (length v)) @ z4)) = Ok (item_bytes key v)"
    using write_at_middle [of "[0] @ le32 (of_nat (length key)) @ key @ le32 (of_nat (length v))" "9 + length key" z4 v "[]"] z(5)
    by (auto simp: k0 item_bytes_def)
  ultimately show ?thesis
    unfolding item_from_def Let_def total d_def [symmetric] unat_u32 [OF sizes(1)] unat_u32 [OF sizes(2)] take_all_iff [THEN iffD2, OF order_refl]
    by (simp only: bind_result.simps)
qed

lemma item_key_parts:
  assumes "length key < 2 ^ 32"
  shows "item_size 1 (0 # le32 (of_nat (length key)) @ key @ rest) = Ok (of_nat (length key))"
    "item_key (0 # le32 (of_nat (length key)) @ key @ rest) = Ok key"
proof -
  show size: "item_size 1 (0 # le32 (of_nat (length key)) @ key @ rest) = Ok (of_nat (length key))"
    using read_at_middle [of "[0]" 1 "le32 (of_nat (length key))" 4 "key @ rest"] by (simp add: item_size_def)
  show "item_key (0 # le32 (of_nat (length key)) @ key @ rest) = Ok key"
    using size read_at_middle [of "0 # le32 (of_nat (length key))" 5 key "length key" rest]
    by (simp add: item_key_def unat_u32 [OF assms] del: One_nat_def)
qed

lemma item_value_bytes:
  assumes "fits_item key v"
  shows "item_value (item_bytes key v) = Ok v"
proof -
  have sizes: "length key < 2 ^ 32" "length v < 2 ^ 32" using assms by (simp_all add: fits_item_def)
  have "item_size (5 + length key) (item_bytes key v) = Ok (of_nat (length v))"
    using read_at_middle [of "0 # le32 (of_nat (length key)) @ key" "5 + length key" "le32 (of_nat (length v))" 4 v]
    by (simp add: item_size_def item_bytes_def)
  moreover have "read_at (9 + length key) (length v) (item_bytes key v) = Ok v"
    using read_at_middle [of "0 # le32 (of_nat (length key)) @ key @ le32 (of_nat (length v))" "9 + length key" v "length v" "[]"]
    by (simp add: item_bytes_def)
  ultimately show ?thesis
    using item_key_parts(1) [OF sizes(1), of "le32 (of_nat (length v)) @ v"]
    by (simp add: item_value_def item_bytes_def [symmetric] unat_u32 [OF sizes(1)] unat_u32 [OF sizes(2)] del: One_nat_def)
qed

lemma nextKey_bytes:
  assumes "fits_item key v"
  shows "nextKey (item_bytes key v) = Ok (0 # le32 (of_nat (length (key @ [0]))) @ key @ [0])"
proof -
  let ?n = "of_nat (length key) :: u32" and ?m = "of_nat (length (key @ [0])) :: u32"
  have sizes: "length key < 2 ^ 32" "length (key @ [0 :: u8]) < 2 ^ 32" "6 + length key < 2 ^ 32" using assms by (simp_all add: fits_item_def)
  have n: "?n + 1 = ?m" by simp
  have total: "unat (5 + ?m) = 6 + length key" using unat_u32 [OF sizes(3)] by simp
  obtain b bs where le: "le32 (of_nat (length v)) = b # bs" by (simp add: le32_def)
  have "resize (item_bytes key v) (6 + length key) = [0] @ le32 ?n @ (key @ [b])"
  proof -
    have "item_bytes key v = ([0] @ le32 ?n @ (key @ [b])) @ (bs @ v)" by (simp add: item_bytes_def le)
    moreover have "length ([0] @ le32 ?n @ (key @ [b])) = 6 + length key" by simp
    ultimately show ?thesis unfolding resize_def by (metis append_eq_conv_conj append_Nil2 diff_is_0_eq' le_add1 length_append replicate_0)
  qed
  then have w: "write_at 1 (le32 ?m) (resize (item_bytes key v) (6 + length key)) = Ok ([0] @ le32 ?m @ (key @ [b]))"
    using write_at_middle [of "[0]" 1 "le32 ?n" "le32 ?m" "key @ [b]"] by simp
  have size: "item_size 1 (item_bytes key v) = Ok ?n"
    using item_key_parts(1) [OF sizes(1), of "le32 (of_nat (length v)) @ v"] by (simp add: item_bytes_def)
  show ?thesis unfolding nextKey_def size bind_result.simps Let_def n total w by (simp add: butlast_append)
qed

lemma fromStream_bytes:
  assumes "fits_item key v" "data = [] \<or> hd data = 0"
  shows "fromStream (tl (item_bytes key v) @ stream) data = Ok (item_bytes key v, stream)"
proof -
  let ?n = "of_nat (length key) :: u32" and ?m = "of_nat (length v) :: u32"
  have sizes: "length key < 2 ^ 32" "length v < 2 ^ 32" "9 + length key + length v < 2 ^ 32" "5 + length key < 2 ^ 32"
    using assms(1) by (simp_all add: fits_item_def)
  have total: "unat (9 + ?n + ?m) = 9 + length key + length v" "unat (5 + ?n) = 5 + length key"
    using unat_u32 [OF sizes(3)] unat_u32 [OF sizes(4)] by simp_all
  define d where "d = resize data (5 + length key)"
  have d: "length d = 5 + length key" "hd d = 0" "d \<noteq> []" using assms(2) by (cases data; auto simp: d_def resize_def)+
  have "d = [0] @ take 4 (drop 1 d) @ drop 5 d"
    using d(2,3) append_take_drop_id [of 4 "drop 1 d"] by (cases d) auto
  then have w1: "write_at 1 (le32 ?n) d = Ok ([0] @ le32 ?n @ drop 5 d)"
    using write_at_middle [of "[0]" 1 "take 4 (drop 1 d)" "le32 ?n" "drop 5 d"] d(1) by simp
  have w2: "write_at 5 key ([0] @ le32 ?n @ drop 5 d) = Ok ([0] @ le32 ?n @ key)"
    using write_at_middle [of "[0] @ le32 ?n" 5 "drop 5 d" key "[]"] d(1) by simp
  have r: "resize ([0] @ le32 ?n @ key) (9 + length key + length v) = ([0] @ le32 ?n @ key) @ replicate 4 0 @ replicate (length v) 0"
    by (simp add: resize_def replicate_add [symmetric])
  have w3: "write_at (5 + length key) (le32 ?m) (([0] @ le32 ?n @ key) @ replicate 4 0 @ replicate (length v) 0) =
      Ok (([0] @ le32 ?n @ key) @ le32 ?m @ replicate (length v) 0)"
    by (rule write_at_middle) simp_all
  have w4: "write_at (9 + length key) v (([0] @ le32 ?n @ key) @ le32 ?m @ replicate (length v) 0) = Ok (item_bytes key v)"
    using write_at_middle [of "([0] @ le32 ?n @ key) @ le32 ?m" "9 + length key" "replicate (length v) 0" v "[]"] by (simp add: item_bytes_def)
  show ?thesis
    unfolding fromStream_def
    by (simp add: do_read_def item_bytes_def [of key v] del: append.simps)
      (simp add: Let_def unat_u32 [OF sizes(1)] unat_u32 [OF sizes(2)] total d_def [symmetric] w1 [simplified] w2 [simplified] r [simplified] w3 [simplified] w4 [simplified] item_bytes_def)
qed

text \<open>
  C29. An item keeps its key and its value: what \<open>from\<close> stores, \<open>key\<close> and \<open>value\<close> return, and \<open>fromStream\<close> reads the
  same item from the bytes that follow its first one, leaving the rest of the stream. No size wraps around and
  no copy leaves the buffer as long as key and value are shorter than 4 GB together.
\<close>

theorem item_roundtrip:
  assumes "fits_item key v" "data = [] \<or> hd data = 0"
  shows "\<exists>d. item_from key v data = Ok d \<and> item_key d = Ok key \<and> item_value d = Ok v \<and>
    fromStream (tl d @ stream) data = Ok (d, stream)"
proof -
  have "item_key (item_bytes key v) = Ok key"
    using item_key_parts(2) [of key "le32 (of_nat (length v)) @ v"] assms(1) by (simp add: item_bytes_def fits_item_def)
  then show ?thesis using item_from_ok [OF assms] item_value_bytes [OF assms(1)] fromStream_bytes [OF assms] by blast
qed

theorem item_roundtrip_witness:
  "item_from [7, 8] [9] [] = Ok [0, 2, 0, 0, 0, 7, 8, 1, 0, 0, 0, 9] \<and>
   (\<exists>d. item_from [7, 8] [9] [] = Ok d \<and> item_key d = Ok [7, 8] \<and> item_value d = Ok [9] \<and>
      fromStream (tl d @ [5]) [] = Ok (d, [5]))"
proof
  show "item_from [7, 8] [9] [] = Ok [0, 2, 0, 0, 0, 7, 8, 1, 0, 0, 0, 9]" by code_simp
  show "\<exists>d. item_from [7, 8] [9] [] = Ok d \<and> item_key d = Ok [7, 8] \<and> item_value d = Ok [9] \<and>
      fromStream (tl d @ [5]) [] = Ok (d, [5])"
    by (rule item_roundtrip) (simp_all add: fits_item_def)
qed

section \<open>The root of a database\<close>

definition row_leaves :: "hash_function \<Rightarrow> rows \<Rightarrow> leaves" where
  "row_leaves sha256 r = map (\<lambda>(k, v). (key_path k, sha256 (item_bytes k v))) r"

lemma push_item_bytes:
  "fits_item k v \<Longrightarrow> push_item sha256 (item_bytes k v) m = push_hash sha256 k (sha256 (item_bytes k v)) m"
  using item_key_parts(2) [of k "le32 (of_nat (length v)) @ v"] by (simp add: push_item_def item_hash_def item_bytes_def fits_item_def)

lemma match_key_0 [simp]: "match_key key 0 found = found"
  by (auto simp: match_key_def split: option.splits)

lemma find_skip: "find P xs = None \<Longrightarrow> find P (xs @ ys) = find P ys"
  by (induction xs) (auto split: if_splits)

lemma hash_loop_rows:
  assumes "ordered (before @ after)" "\<forall>(k, v) \<in> set after. fits_item k v" "kv_repr sha256 m (row_leaves sha256 before)"
    "item_key data = Ok key" "data \<noteq> []" "hd data = 0"
    "\<forall>(k, v) \<in> set before. k < key" "\<forall>(k, v) \<in> set after. key \<le> k"
    "km_stack m = [] \<or> before \<noteq> [] \<and> km_current_key m = fst (last before)"
  shows "hash_loop sha256 (before @ after) data m = Some (Ok (trie_root sha256 (row_leaves sha256 (before @ after))))"
  using assms
proof (induction after arbitrary: before data m key)
  case Nil
  then have "kv_greater_equal before key = None"
    by (auto simp: kv_greater_equal_def find_None_iff not_le split: prod.splits)
  then show ?case using Nil by (subst hash_loop.simps) (simp add: kv_root_repr)
next
  case (Cons kv after)
  obtain k v where kv: "kv = (k, v)" by force
  have found: "kv_greater_equal (before @ kv # after) key = Some (k, v)"
  proof -
    have "find (\<lambda>p. key \<le> fst p) before = None" using Cons.prems(7) by (auto simp: find_None_iff not_le)
    then show ?thesis using Cons.prems(8) by (simp add: kv_greater_equal_def find_skip kv)
  qed
  have fits: "fits_item k v" using Cons.prems(2) by (simp add: kv)
  have order: "\<forall>q \<in> set before. fst q < k" "\<forall>q \<in> set after. k < fst q"
    using Cons.prems(1) by (auto simp: kv ordered_append)
  have later: "km_stack m = [] \<or> km_current_key m < k" using Cons.prems(9) order(1) by (metis last_in_set)
  have leaves: "row_leaves sha256 (before @ [kv]) = row_leaves sha256 before @ [(key_path k, sha256 (item_bytes k v))]"
    by (simp add: row_leaves_def kv)
  obtain m' where m': "push_hash sha256 k (sha256 (item_bytes k v)) m = Ok m'" "km_current_key m' = k" "km_stack m' \<noteq> []"
    "kv_repr sha256 m' (row_leaves sha256 (before @ [kv]))"
    unfolding leaves using push_hash_repr [OF Cons.prems(3) later] by blast
  define data' where "data' = 0 # le32 (of_nat (length (k @ [0]))) @ (k @ [0])"
  have data': "item_key data' = Ok (k @ [0])" "data' \<noteq> []" "hd data' = 0"
    using item_key_parts(2) [of "k @ [0]" "[]"] fits by (simp_all add: data'_def fits_item_def)
  have "bind_result (item_from k v data) (\<lambda>data. bind_result (push_item sha256 data m) (\<lambda>m.
      bind_result (nextKey data) (\<lambda>data. Ok (data, m)))) = Ok (data', m')"
    using item_from_ok [OF fits, of data] Cons.prems(6) push_item_bytes [OF fits] m'(1) nextKey_bytes [OF fits] by (simp add: data'_def)
  then have "hash_loop sha256 (before @ kv # after) data m = hash_loop sha256 (before @ kv # after) data' m'"
    using Cons.prems(4) found by (subst hash_loop.simps) simp
  also have "\<dots> = hash_loop sha256 ((before @ [kv]) @ after) data' m'" by simp
  also have "\<dots> = Some (Ok (trie_root sha256 (row_leaves sha256 ((before @ [kv]) @ after))))"
  proof (rule Cons.IH [OF _ _ m'(4) data'])
    have step: "k @ [0] \<le> x \<longleftrightarrow> k < x" for x using keyNext_le [of k x] by (simp add: keyNext_def)
    have "k < k @ [0]" using step [of "k @ [0]"] by simp
    then show "\<forall>(x, y) \<in> set (before @ [kv]). x < k @ [0]" using order(1) by (auto simp: kv dest: less_trans)
    show "\<forall>(x, y) \<in> set after. k @ [0] \<le> x" using order(2) by (auto simp: step)
  qed (use Cons.prems m'(2) in \<open>auto simp: kv\<close>)
  finally show ?case by simp
qed

lemma hash_database_rows:
  assumes "read_revision d = Ok rv" "db_root d rv db = Ok r" "ordered r" "\<forall>(k, v) \<in> set r. fits_item k v"
  shows "hash_database sha256 d db = Some (Ok (trie_root sha256 (row_leaves sha256 r)))"
proof -
  have item: "item_from [] [] [] = Ok (item_bytes [] [])" by (rule item_from_ok) (simp_all add: fits_item_def)
  have "item_key (item_bytes [] []) = Ok []" using item_key_parts(2) [of "[]" "le32 0"] by (simp add: item_bytes_def)
  moreover have "item_bytes [] [] \<noteq> []" "hd (item_bytes [] []) = 0" by (simp_all add: item_bytes_def)
  ultimately have "hash_loop sha256 ([] @ r) (item_bytes [] []) empty_kv_merkle = Some (Ok (trie_root sha256 (row_leaves sha256 ([] @ r))))"
    using assms(3,4) by (intro hash_loop_rows) (auto simp: kv_repr_def row_leaves_def empty_kv_merkle_def)
  then show ?thesis using assms(1,2) item by (simp add: hash_database_def)
qed

definition revision_fits :: "revision \<Rightarrow> bool" where
  "revision_fits rv \<longleftrightarrow> length rv = numChainDatabases \<and> list_all ordered rv \<and> list_all (list_all (\<lambda>(k, v). fits_item k v)) rv"

lemma state_checksum_roots:
  assumes "revision_fits rv"
  shows "build_state_checksum sha256 rv =
    Some (Ok \<lparr>serviceRoot = trie_root sha256 (row_leaves sha256 (rv ! unat db_service)),
              nativeRoot = trie_root sha256 (row_leaves sha256 (rv ! unat db_native))\<rparr>)"
proof -
  define d where "d = (new_database rv)\<lparr>readSession := True, readOnlyRevision := Some rv\<rparr>"
  have start: "startRead (new_database rv) = Ok d" by (simp add: startRead_def new_database_def check_def d_def)
  have read: "read_revision d = Ok rv" by (simp add: read_revision_def d_def)
  have index: "unat db_service < numChainDatabases" "unat db_native < numChainDatabases"
    by (simp_all add: db_service_def db_native_def numChainDatabases_def)
  have root: "db_root d rv db = Ok (rv ! unat db)" if "db = db_service \<or> db = db_native" for db
    using that assms index by (auto simp: db_root_def isIndependent_def db_service_def db_native_def beginIndependent_def db_temporary_def
        endIndependent_def revision_fits_def word_le_nat_alt)
  have "hash_database sha256 d db = Some (Ok (trie_root sha256 (row_leaves sha256 (rv ! unat db))))"
    if db: "db = db_service \<or> db = db_native" for db
  proof (rule hash_database_rows [OF read root [OF db]])
    have "rv ! unat db \<in> set rv" using db index assms by (auto simp: revision_fits_def)
    then show "ordered (rv ! unat db)" "\<forall>(k, v) \<in> set (rv ! unat db). fits_item k v"
      using assms by (auto simp: revision_fits_def list_all_iff)
  qed
  then show ?thesis by (simp add: build_state_checksum_def start)
qed

text \<open>
  C9. The incremental Merkle tree refines its description. The loop over a revision ends, no assertion of
  KvMerkle fails, and the two roots are those of the binary trie over all keys and values of the service and
  the native database: at every prefix of a key its leaf is combined with the longer keys, and between them the
  subtree of bit 0 with the one of bit 1, an empty subtree counting for nothing.
\<close>

theorem state_checksum_refines:
  assumes "revision_fits rv"
  shows "build_state_checksum sha256 rv =
    Some (Ok \<lparr>serviceRoot = trie_root sha256 (row_leaves sha256 (rv ! unat db_service)),
              nativeRoot = trie_root sha256 (row_leaves sha256 (rv ! unat db_native))\<rparr>)"
  by (rule state_checksum_roots [OF assms])

section \<open>Different states have different checksums\<close>

text \<open>The tree of what is hashed, with the data of the items at its leaves.\<close>

datatype hash_tree = HLeaf bytes | HNode hash_tree hash_tree

primrec tree_hash :: "hash_function \<Rightarrow> hash_tree \<Rightarrow> checksum" where
  "tree_hash sha256 (HLeaf d) = sha256 d"
| "tree_hash sha256 (HNode l r) = merkle_combine sha256 (tree_hash sha256 l) (tree_hash sha256 r)"

primrec tree_inputs :: "hash_function \<Rightarrow> hash_tree \<Rightarrow> bytes set" where
  "tree_inputs sha256 (HLeaf d) = {d}"
| "tree_inputs sha256 (HNode l r) =
     insert (1 # tree_hash sha256 l @ tree_hash sha256 r) (tree_inputs sha256 l \<union> tree_inputs sha256 r)"

primrec tree_leaves :: "hash_tree \<Rightarrow> bytes list" where
  "tree_leaves (HLeaf d) = [d]"
| "tree_leaves (HNode l r) = tree_leaves l @ tree_leaves r"

fun join_trees :: "hash_tree option \<Rightarrow> hash_tree option \<Rightarrow> hash_tree option" where
  "join_trees None t = t"
| "join_trees t None = t"
| "join_trees (Some l) (Some r) = Some (HNode l r)"

function key_tree :: "(bool list \<times> bytes) list \<Rightarrow> hash_tree option" where
  "key_tree items =
     (if items = [] then None
      else case find (\<lambda>p. fst p = []) items of
             Some (_, d) \<Rightarrow> Some (HLeaf d)
           | None \<Rightarrow> join_trees (key_tree (branch False items)) (key_tree (branch True items)))"
  by pat_completeness auto
termination
  by (relation "measure path_sizes") (auto simp: find_None_iff intro!: branch_smaller)

declare key_tree.simps [simp del]

definition inputs_of :: "hash_function \<Rightarrow> hash_tree option \<Rightarrow> bytes set" where
  "inputs_of sha256 t = (case t of None \<Rightarrow> {} | Some t \<Rightarrow> tree_inputs sha256 t)"

definition leaves_of :: "hash_tree option \<Rightarrow> bytes list" where
  "leaves_of t = (case t of None \<Rightarrow> [] | Some t \<Rightarrow> tree_leaves t)"

definition root_of :: "hash_function \<Rightarrow> hash_tree option \<Rightarrow> checksum" where
  "root_of sha256 t = (case t of None \<Rightarrow> zero_checksum | Some t \<Rightarrow> tree_hash sha256 t)"

lemma join_trees_props:
  "leaves_of (join_trees s t) = leaves_of s @ leaves_of t"
  "inputs_of sha256 s \<subseteq> inputs_of sha256 (join_trees s t)" "inputs_of sha256 t \<subseteq> inputs_of sha256 (join_trees s t)"
  by (cases s; cases t; auto simp: leaves_of_def inputs_of_def)+

lemma tree_hash_not_zero: "\<forall>x \<in> tree_inputs sha256 t. sha256 x \<noteq> zero_checksum \<Longrightarrow> tree_hash sha256 t \<noteq> zero_checksum"
  by (cases t) (auto simp: merkle_combine_def)

lemma root_of_join:
  assumes "\<forall>x \<in> inputs_of sha256 (join_trees s t). sha256 x \<noteq> zero_checksum"
  shows "root_of sha256 (join_trees s t) = kv_combine sha256 (root_of sha256 s) (root_of sha256 t)"
proof (cases s; cases t)
  fix l r assume st: "s = Some l" "t = Some r"
  then have "tree_hash sha256 l \<noteq> zero_checksum" "tree_hash sha256 r \<noteq> zero_checksum"
    using assms by (auto simp: inputs_of_def intro!: tree_hash_not_zero)
  then show ?thesis by (simp add: st root_of_def kv_combine_def)
qed (auto simp: root_of_def)

definition hash_leaves :: "hash_function \<Rightarrow> (bool list \<times> bytes) list \<Rightarrow> leaves" where
  "hash_leaves sha256 items = map (\<lambda>(p, d). (p, sha256 d)) items"

lemma hash_leaves_Nil [simp]: "hash_leaves sha256 items = [] \<longleftrightarrow> items = []"
  by (simp add: hash_leaves_def)

lemma branch_hash_leaves: "branch b (hash_leaves sha256 items) = hash_leaves sha256 (branch b items)"
  by (induction items) (auto simp: branch_def hash_leaves_def)

lemma trie_root_tree:
  "\<forall>x \<in> inputs_of sha256 (key_tree items). sha256 x \<noteq> zero_checksum \<Longrightarrow>
   trie_root sha256 (hash_leaves sha256 items) = root_of sha256 (key_tree items)"
proof (induction items rule: key_tree.induct)
  case (1 items)
  have find: "find (\<lambda>p. fst p = []) (hash_leaves sha256 items) = map_option (\<lambda>(p, d). (p, sha256 d)) (find (\<lambda>p. fst p = []) items)"
    by (induction items) (auto simp: hash_leaves_def)
  show ?case
  proof (cases "items = [] \<or> find (\<lambda>p. fst p = []) items \<noteq> None")
    case True
    then show ?thesis
      using find by (auto simp: trie_root.simps [of _ "hash_leaves sha256 items"] key_tree.simps [of items] root_of_def)
  next
    case False
    then have none: "items \<noteq> []" "find (\<lambda>p. fst p = []) items = None" by blast+
    then have tree: "key_tree items = join_trees (key_tree (branch False items)) (key_tree (branch True items))"
      by (simp add: key_tree.simps [of items])
    then have "\<forall>x \<in> inputs_of sha256 (key_tree (branch b items)). sha256 x \<noteq> zero_checksum" for b
      using 1(3) join_trees_props(2,3) by (cases b) fastforce+
    then have "trie_root sha256 (hash_leaves sha256 (branch b items)) = root_of sha256 (key_tree (branch b items))" for b
      using 1(1,2) [OF none] by (cases b) auto
    then have "trie_root sha256 (hash_leaves sha256 items) =
        kv_combine sha256 (root_of sha256 (key_tree (branch False items))) (root_of sha256 (key_tree (branch True items)))"
      using none find by (simp add: trie_root.simps [of _ "hash_leaves sha256 items"] branch_hash_leaves)
    then show ?thesis using root_of_join 1(3) tree by simp
  qed
qed

lemma leaves_key_tree: "sorted_wrt below (map fst items) \<Longrightarrow> leaves_of (key_tree items) = map snd items"
proof (induction items rule: key_tree.induct)
  case (1 items)
  show ?case
  proof (cases "find (\<lambda>p. fst p = []) items")
    case None
    show ?thesis
    proof (cases "items = []")
      case False
      have "sorted_wrt below (map fst xs) \<Longrightarrow> sorted_wrt below (map fst (branch b xs))" for b and xs :: "(bool list \<times> bytes) list"
        by (induction xs) (auto simp: branch_def neq_Nil_conv)
      moreover have "sorted_wrt below (map fst xs) \<Longrightarrow> \<forall>x \<in> set xs. fst x \<noteq> [] \<Longrightarrow> map snd xs = map snd (branch False xs) @ map snd (branch True xs)"
        for xs :: "(bool list \<times> bytes) list"
      proof (induction xs)
        case (Cons x xs)
        obtain b p d where x: "x = (b # p, d)" using Cons.prems(2) by (metis list.set_intros(1) neq_Nil_conv prod.collapse)
        show ?case
        proof (cases b)
          case True
          have "branch False xs = []"
          proof (rule ccontr)
            assume "branch False xs \<noteq> []"
            then obtain q e where "(q, e) \<in> set (branch False xs)" by (metis list.set_intros(1) neq_Nil_conv surj_pair)
            then have "(False # q, e) \<in> set xs" by (simp add: set_branch)
            then show False using Cons.prems(1) True by (fastforce simp: x)
          qed
          then show ?thesis using Cons True by (simp add: x branch_def)
        next
          case False
          then show ?thesis using Cons by (simp add: x branch_def)
        qed
      qed simp
      moreover have "\<forall>x \<in> set items. fst x \<noteq> []" using None by (auto simp: find_None_iff)
      ultimately show ?thesis
        using 1 None False by (simp add: key_tree.simps [of items] join_trees_props(1))
    qed (simp add: key_tree.simps leaves_of_def)
  next
    case (Some p)
    then obtain xs ys where items: "items = xs @ p # ys" "fst p = []" by (auto simp: find_Some_iff dest!: split_list) (metis find_Some_iff nth_mem split_list)
    have "below x [] = False" "below [] x = False" for x by (cases x; simp)+
    then have "xs = []" "ys = []" using 1(3) items by (cases xs; cases ys; auto simp: sorted_wrt_append)+
    then show ?thesis using items Some by (cases p) (simp add: key_tree.simps leaves_of_def)
  qed
qed

lemma tree_hash_inj:
  assumes "inj_on sha256 (tree_inputs sha256 s \<union> tree_inputs sha256 t)" "\<forall>x. length (sha256 x) = 32"
    "\<forall>d \<in> set (tree_leaves s) \<union> set (tree_leaves t). hd d = 0 \<and> d \<noteq> []" "tree_hash sha256 s = tree_hash sha256 t"
  shows "s = t"
  using assms(1,3,4)
proof (induction s arbitrary: t)
  case (HLeaf d)
  show ?case
  proof (cases t)
    case t: (HLeaf e)
    have "d = e" using HLeaf.prems(3) by (rule_tac inj_onD [OF HLeaf.prems(1)]) (simp_all add: t)
    then show ?thesis by (simp add: t)
  next
    case t: (HNode l r)
    have "d = 1 # tree_hash sha256 l @ tree_hash sha256 r"
      using HLeaf.prems(3) by (rule_tac inj_onD [OF HLeaf.prems(1)]) (simp_all add: t merkle_combine_def)
    then show ?thesis using HLeaf.prems(2) by simp
  qed
next
  case (HNode l r)
  show ?case
  proof (cases t)
    case t: (HLeaf e)
    have "e = 1 # tree_hash sha256 l @ tree_hash sha256 r"
      using HNode.prems(3) by (rule_tac inj_onD [OF HNode.prems(1)]) (simp_all add: t merkle_combine_def)
    then show ?thesis using HNode.prems(2) t by simp
  next
    case t: (HNode l' r')
    have len: "length (tree_hash sha256 x) = 32" for x using assms(2) by (cases x) (simp_all add: merkle_combine_def)
    have "sha256 (1 # tree_hash sha256 l @ tree_hash sha256 r) = sha256 (1 # tree_hash sha256 l' @ tree_hash sha256 r')"
      using HNode.prems(3) by (simp add: t merkle_combine_def)
    then have "1 # tree_hash sha256 l @ tree_hash sha256 r = 1 # tree_hash sha256 l' @ tree_hash sha256 r'"
      by (rule inj_onD [OF HNode.prems(1)]) (simp_all add: t)
    then have "tree_hash sha256 l = tree_hash sha256 l'" "tree_hash sha256 r = tree_hash sha256 r'"
      using len [of l] len [of l'] by simp_all
    moreover have "inj_on sha256 (tree_inputs sha256 l \<union> tree_inputs sha256 l')"
      by (rule inj_on_subset [OF HNode.prems(1)]) (auto simp: t)
    moreover have "inj_on sha256 (tree_inputs sha256 r \<union> tree_inputs sha256 r')"
      by (rule inj_on_subset [OF HNode.prems(1)]) (auto simp: t)
    moreover have "\<forall>d \<in> set (tree_leaves l) \<union> set (tree_leaves l'). hd d = 0 \<and> d \<noteq> []"
      "\<forall>d \<in> set (tree_leaves r) \<union> set (tree_leaves r'). hd d = 0 \<and> d \<noteq> []"
      using HNode.prems(2) by (simp_all add: t ball_Un)
    ultimately have "l = l'" "r = r'" using HNode.IH by blast+
    then show ?thesis by (simp add: t)
  qed
qed

definition row_items :: "rows \<Rightarrow> (bool list \<times> bytes) list" where
  "row_items r = map (\<lambda>(k, v). (key_path k, item_bytes k v)) r"

definition row_inputs :: "hash_function \<Rightarrow> rows \<Rightarrow> bytes set" where
  "row_inputs sha256 r = inputs_of sha256 (key_tree (row_items r))"

lemma row_items_sorted: "ordered r \<Longrightarrow> sorted_wrt below (map fst (row_items r))"
proof (induction r)
  case (Cons p r)
  have "below (key_path a) (key_path b)" if "a < b" for a b
    using common_prefix_bits_split [OF that, of 0] below_split by auto
  then show ?case using Cons by (force simp: row_items_def split: prod.splits)
qed (simp add: row_items_def)

lemma row_root_inj:
  assumes rows: "ordered r" "ordered s" "\<forall>(k, v) \<in> set r \<union> set s. fits_item k v"
    and sha: "inj_on sha256 (row_inputs sha256 r \<union> row_inputs sha256 s)" "\<forall>x. length (sha256 x) = 32"
      "\<forall>x \<in> row_inputs sha256 r \<union> row_inputs sha256 s. sha256 x \<noteq> zero_checksum"
    and same: "trie_root sha256 (row_leaves sha256 r) = trie_root sha256 (row_leaves sha256 s)"
  shows "r = s"
proof -
  have root: "trie_root sha256 (row_leaves sha256 x) = root_of sha256 (key_tree (row_items x))" if "x = r \<or> x = s" for x
  proof -
    have "row_leaves sha256 x = hash_leaves sha256 (row_items x)" by (simp add: row_leaves_def hash_leaves_def row_items_def case_prod_unfold)
    then show ?thesis using that sha(3) trie_root_tree [of sha256 "row_items x"] by (auto simp: row_inputs_def)
  qed
  have leaves: "leaves_of (key_tree (row_items x)) = map (\<lambda>(k, v). item_bytes k v) x" if "ordered x" for x
    using leaves_key_tree [OF row_items_sorted [OF that]] by (simp add: row_items_def case_prod_unfold)
  have hd: "hd d = 0 \<and> d \<noteq> []" if "ordered x" "d \<in> set (leaves_of (key_tree (row_items x)))" for x d
    using that leaves by (auto simp: item_bytes_def)
  have "key_tree (row_items r) = key_tree (row_items s)"
  proof (cases "key_tree (row_items r)"; cases "key_tree (row_items s)")
    fix t u assume trees: "key_tree (row_items r) = Some t" "key_tree (row_items s) = Some u"
    have "t = u"
      using sha(1,2) hd [OF rows(1)] hd [OF rows(2)] same root trees
      by (intro tree_hash_inj [of sha256]) (auto simp: row_inputs_def inputs_of_def leaves_of_def root_of_def)
    then show ?thesis by (simp add: trees)
  qed (use same root sha(3) in \<open>auto simp: root_of_def row_inputs_def inputs_of_def dest!: tree_hash_not_zero\<close>)
  then have same_items: "map (\<lambda>(k, v). item_bytes k v) r = map (\<lambda>(k, v). item_bytes k v) s" using leaves rows(1,2) by metis
  have key: "item_key (item_bytes k v) = Ok k" if "fits_item k v" for k v
    using that item_key_parts(2) [of k "le32 (of_nat (length v)) @ v"] by (simp add: item_bytes_def fits_item_def)
  have inj: "inj_on (\<lambda>(k, v). item_bytes k v) (set r \<union> set s)"
  proof (rule inj_onI, clarify)
    fix k v k' v' assume mem: "(k, v) \<in> set r \<union> set s" "(k', v') \<in> set r \<union> set s" and eq: "item_bytes k v = item_bytes k' v'"
    then have "fits_item k v" "fits_item k' v'" using rows(3) by auto
    then show "k = k' \<and> v = v'" using eq key item_value_bytes by (metis result.inject(1))
  qed
  show ?thesis using same_items inj by (rule map_inj_on)
qed

text \<open>
  C10. The checksum binds the state. Two revisions whose service or native databases differ have different state
  checksums, unless SHA-256 maps two of the strings hashed for them to the same value, or one of them to zero.
  The checksum of a snapshot that a quorum has signed therefore fixes every row in it.
\<close>

theorem state_checksum_binding:
  assumes "revision_fits rv" "revision_fits rv'"
    "rv ! unat db_service \<noteq> rv' ! unat db_service \<or> rv ! unat db_native \<noteq> rv' ! unat db_native"
    "\<forall>db \<in> {db_service, db_native}. inj_on sha256 (row_inputs sha256 (rv ! unat db) \<union> row_inputs sha256 (rv' ! unat db))"
    "\<forall>db \<in> {db_service, db_native}. \<forall>x \<in> row_inputs sha256 (rv ! unat db) \<union> row_inputs sha256 (rv' ! unat db). sha256 x \<noteq> zero_checksum"
    "\<forall>x. length (sha256 x) = 32"
  shows "build_state_checksum sha256 rv \<noteq> build_state_checksum sha256 rv'"
proof
  assume "build_state_checksum sha256 rv = build_state_checksum sha256 rv'"
  then have roots: "trie_root sha256 (row_leaves sha256 (rv ! unat db)) = trie_root sha256 (row_leaves sha256 (rv' ! unat db))"
    if "db \<in> {db_service, db_native}" for db
    using that state_checksum_roots [OF assms(1)] state_checksum_roots [OF assms(2)] by auto
  have index: "unat db < length rv \<and> unat db < length rv'" if "db \<in> {db_service, db_native}" for db
    using that assms(1,2) by (auto simp: revision_fits_def db_service_def db_native_def numChainDatabases_def)
  have "rv ! unat db = rv' ! unat db" if db: "db \<in> {db_service, db_native}" for db
  proof (rule row_root_inj [OF _ _ _ _ assms(6) _ roots [OF db]])
    have "rv ! unat db \<in> set rv" "rv' ! unat db \<in> set rv'" using index [OF db] by simp_all
    then show "ordered (rv ! unat db)" "ordered (rv' ! unat db)" "\<forall>(k, v) \<in> set (rv ! unat db) \<union> set (rv' ! unat db). fits_item k v"
      using assms(1,2) unfolding revision_fits_def list_all_iff by blast+
  qed (use assms(4,5) db in blast)+
  then show False using assms(3) by blast
qed

section \<open>Examples\<close>

text \<open>A function with results of 32 bytes that is injective on short strings without trailing zeros.\<close>

definition pad_hash :: hash_function where
  "pad_hash x = take 32 (x @ replicate 32 0)"

definition ex_state :: "bytes \<Rightarrow> revision" where
  "ex_state v = emptyRevision[unat db_service := [([1], v)], unat db_native := [([], [3]), ([2, 1], [4])]]"

lemma ex_state_rows: "ex_state v = [[([1], v)], [], [([], [3]), ([2, 1], [4])], [], [], []]"
proof -
  have rows: "emptyRevision = ([[], [], [], [], [], []] :: revision)" by code_simp
  show ?thesis unfolding ex_state_def by (subst rows) (simp add: db_service_def db_native_def)
qed

lemma ex_state_fits: "length v = 1 \<Longrightarrow> revision_fits (ex_state v)"
  by (simp add: revision_fits_def ex_state_rows numChainDatabases_def fits_item_def)

theorem state_checksum_refines_witness:
  "revision_fits (ex_state [7]) \<and>
   build_state_checksum pad_hash (ex_state [7]) =
     Some (Ok \<lparr>serviceRoot = trie_root pad_hash (row_leaves pad_hash (ex_state [7] ! unat db_service)),
               nativeRoot = trie_root pad_hash (row_leaves pad_hash (ex_state [7] ! unat db_native))\<rparr>) \<and>
   trie_root pad_hash (row_leaves pad_hash (ex_state [7] ! unat db_native)) =
     merkle_combine pad_hash (pad_hash (item_bytes [] [3])) (pad_hash (item_bytes [2, 1] [4]))"
proof (intro conjI)
  show fits: "revision_fits (ex_state [7])" by (simp add: ex_state_fits)
  show "build_state_checksum pad_hash (ex_state [7]) =
     Some (Ok \<lparr>serviceRoot = trie_root pad_hash (row_leaves pad_hash (ex_state [7] ! unat db_service)),
               nativeRoot = trie_root pad_hash (row_leaves pad_hash (ex_state [7] ! unat db_native))\<rparr>)"
    by (rule state_checksum_refines [OF fits])
  show "trie_root pad_hash (row_leaves pad_hash (ex_state [7] ! unat db_native)) =
     merkle_combine pad_hash (pad_hash (item_bytes [] [3])) (pad_hash (item_bytes [2, 1] [4]))" by code_simp
qed

lemma ex_trees:
  "key_tree (row_items (ex_state [7] ! unat db_service)) = Some (HLeaf (item_bytes [1] [7]))"
  "key_tree (row_items (ex_state [8] ! unat db_service)) = Some (HLeaf (item_bytes [1] [8]))"
  "key_tree (row_items (ex_state [7] ! unat db_native)) = Some (HNode (HLeaf (item_bytes [] [3])) (HLeaf (item_bytes [2, 1] [4])))"
  "key_tree (row_items (ex_state [8] ! unat db_native)) = Some (HNode (HLeaf (item_bytes [] [3])) (HLeaf (item_bytes [2, 1] [4])))"
  by code_simp+

theorem state_checksum_binding_witness:
  "build_state_checksum pad_hash (ex_state [7]) \<noteq> build_state_checksum pad_hash (ex_state [8])"
proof (rule state_checksum_binding)
  show "revision_fits (ex_state [7])" "revision_fits (ex_state [8])" by (simp_all add: ex_state_fits)
  show "ex_state [7] ! unat db_service \<noteq> ex_state [8] ! unat db_service \<or> ex_state [7] ! unat db_native \<noteq> ex_state [8] ! unat db_native"
    by code_simp
  show "\<forall>x. length (pad_hash x) = 32" by (auto simp: pad_hash_def min_def)
  show "\<forall>db \<in> {db_service, db_native}. inj_on pad_hash (row_inputs pad_hash (ex_state [7] ! unat db) \<union> row_inputs pad_hash (ex_state [8] ! unat db))"
    by (simp add: row_inputs_def ex_trees inputs_of_def inj_on_def) code_simp
  show "\<forall>db \<in> {db_service, db_native}. \<forall>x \<in> row_inputs pad_hash (ex_state [7] ! unat db) \<union> row_inputs pad_hash (ex_state [8] ! unat db).
      pad_hash x \<noteq> zero_checksum"
    by (simp add: row_inputs_def ex_trees inputs_of_def) code_simp
qed

end
