(* ===== verification/Spec2Isabelle.thy ===== *)
theory Spec2Isabelle
  imports Names Base64 Fork_Safety Hashes Socket_Safety Revisions Kv_Merkle
begin

text \<open>
  A verification development for psibase, a blockchain node in C++ (src/libraries/psibase,
  src/libraries/net). The definitions are translations of the C++ functions, under the same names where
  Isabelle allows it; the theorems say what the functions promise to the code that calls them.

  \<^bold>\<open>The program.\<close> A node receives blocks from its peers and keeps them in a tree, the fork database
  (ForkDb.hpp). Producers sign blocks; a block header carries the producer set that is allowed to sign the
  blocks that follow, and the services that verify their signatures. The node executes the best chain of the
  tree and stores a revision of the chain's databases for every block (useTriedent.cpp). Services also use
  subjective databases, which are not part of the chain and are accessed in optimistic transactions, and hold
  sockets, whose life time is tied to those transactions (Socket.cpp). Accounts are named by 64-bit numbers
  that encode their names (name.hpp, NameEncoder.hpp).

  \<^bold>\<open>Conventions.\<close> Integers keep their width as words where the code can wrap around. \<open>std::map\<close> is an
  association list with increasing keys (\<open>ordered\<close>), \<open>shared_ptr\<close> is either the value, where it is
  immutable, or an address in a heap. A call that throws or aborts returns \<open>Err\<close> (theory Prelude); undefined
  behaviour of C++ is \<open>Err Undefined\<close>, so that a result \<open>Ok\<close> also says that there is none. Code that is not
  in the repository (OpenSSL, WebAssembly, the storage engine's allocator) is a parameter.

  \<^bold>\<open>Theories.\<close>

  \<^item> Prelude, Ordered_Map: results of fallible code, the parts of the C++ library that are used, and their
    lemmas.

  \<^item> Name_Encoder, Names: NameEncoder.hpp, name.hpp and AccountNumber.hpp. The encoder computes the position
    of a name in the sorted list of all names, so that numbers are ordered like names and the conversions are
    inverse to each other.

  \<^item> Base64: base64.cpp. Decoding accepts exactly the encodings, and the validator agrees with the decoder.

  \<^item> Hashes: crypto.cpp and crypto.hpp. \<open>hmacSha256\<close> is RFC 2104, and the incremental Merkle tree computes
    the recursive definition of its root.

  \<^item> Blocks, Auth_Services, Producer_Sets, Header_States: block.hpp, headerValidation.hpp, and
    \<open>ProducerSet\<close>, \<open>BlockAuthState\<close> and \<open>BlockHeaderState\<close> of ForkDb.hpp. Quorums intersect in an honest
    producer and can be reached without the faulty ones; updating the services leaves exactly the new ones.

  \<^item> Fork_Db: the class \<open>ForkDb\<close>, one definition per member function. Fork_Tree, Fork_Inv, Fork_Switch,
    Fork_Commit, Fork_Insert, Fork_Gc: the invariant \<open>fork_inv\<close> and its preservation by every operation.
    Fork_Steps: the operations as a transition system. Fork_Queries, Fork_Safety: the ancestor queries are
    correct, irreversible blocks stay, the head is always the best valid block, garbage collection removes
    exactly the dead forks. Fork_Examples holds the small chain on which the definitions are evaluated.

  \<^item> Sockets, Socket_Safety: Socket.cpp. A close lock keeps its socket open, and \<open>onClose\<close> is called once.

  \<^item> Key_Values, Change_Sets, Databases: the order of keys and the interface of the trie (locale
    \<open>key_value_trie\<close>), the ranges a subjective transaction has accessed, and the classes \<open>SharedDatabase\<close> and
    \<open>Database\<close> of useTriedent.cpp. Subjective_Tx: subjective transactions are serializable. Subjective_Abort: aborting a
    nested transaction restores the session, and forgets what was read in it. Revisions: the blocks whose
    revisions \<open>removeRevisions\<close> keeps, and that a restart loses the session databases only.

  \<^item> Kv_Merkle: KvMerkle.cpp and \<open>BuildStateChecksum\<close> of ForkDb.hpp, the checksum of the chain's state that
    snapshots carry. It is the root of a binary trie over the keys, and binds every row.

  \<^bold>\<open>Loops.\<close> All loops are total functions with a termination proof, except the loops of
  \<open>async_switch_fork\<close> and of \<open>BuildStateChecksum::hash\<close>. These are \<open>partial_function\<close>s, and theorems of
  Fork_Safety and Kv_Merkle show that they return. No definition uses fuel.

  \<^bold>\<open>Not modelled.\<close> Execution of transactions (WebAssembly), storage below the trie interface, serialisation
  of arbitrary reflected types, network and file I/O, HTTP, logging, hardware keys, debug information, the
  programs' command lines, the services that run on the node and the Rust tools. Threads are not modelled:
  every operation of a class that locks a mutex is one atomic step, which is what the mutex provides, and one
  place where the code does not hold it is recorded with the findings.
\<close>

end
